(* ===== verification/Atm_Prelude.thy ===== *)
theory Atm_Prelude
  imports Main "HOL-Library.Word"
begin

text \<open>
  What every theory of the development shares: the machine integer types of
  \<^verbatim>\<open>src/core/atm_core.h\<close>, the faults a C function can end in, the fault monad in which
  the operations are written, C strings, and generic lemmas. A function of the model
  returns \<^verbatim>\<open>Inr v\<close> where the C function returns \<^verbatim>\<open>v\<close> and \<^verbatim>\<open>Inl f\<close> where the C code
  exits, dereferences NULL, leaves an allocated object or loops forever.
\<close>

section \<open>Machine integers and addresses\<close>

type_synonym u8 = "8 word"
type_synonym u32 = "32 word"
type_synonym u64 = "64 word"
type_synonym addr = nat

section \<open>Faults and the fault monad\<close>

text \<open>
  \<^verbatim>\<open>Exit n\<close> is a call of \<^verbatim>\<open>exit(n)\<close>. The other faults are undefined behaviour or a
  loop that does not return: a NULL dereference, an access outside an allocated object
  (or to a freed one), a division by zero, a signed overflow, a jump through a data
  pointer, and \<^verbatim>\<open>No_return\<close> for a loop that is still running when its fuel is spent.
\<close>

datatype fault = Exit int | Null_deref | Bad_access | Div_zero | Signed_overflow
  | Bad_jump | No_return

type_synonym 'a res = "fault + 'a"

definition res_bind :: "'a res \<Rightarrow> ('a \<Rightarrow> 'b res) \<Rightarrow> 'b res" where
  "res_bind m f = (case m of Inl e \<Rightarrow> Inl e | Inr x \<Rightarrow> f x)"

definition res_map :: "('a \<Rightarrow> 'b) \<Rightarrow> 'a res \<Rightarrow> 'b res" where
  "res_map f m = (case m of Inl e \<Rightarrow> Inl e | Inr x \<Rightarrow> Inr (f x))"

lemma res_bind_simps [simp]:
  "res_bind (Inl e) f = Inl e" "res_bind (Inr x) f = f x"
  by (simp_all add: res_bind_def)

lemma res_map_simps [simp]:
  "res_map f (Inl e) = Inl e" "res_map f (Inr x) = Inr (f x)"
  by (simp_all add: res_map_def)

lemma res_bind_eq_Inr: "res_bind m f = Inr y \<longleftrightarrow> (\<exists>x. m = Inr x \<and> f x = Inr y)"
  by (cases m) auto

lemma res_map_eq_Inr: "res_map f m = Inr y \<longleftrightarrow> (\<exists>x. m = Inr x \<and> y = f x)"
  by (cases m) auto

lemma res_bind_cong [fundef_cong]:
  "m = m' \<Longrightarrow> (\<And>x. m' = Inr x \<Longrightarrow> f x = f' x) \<Longrightarrow> res_bind m f = res_bind m' f'"
  by (cases m') auto

text \<open>A pointer that must be valid: NULL or an unmapped address is a fault.\<close>

definition of_some :: "fault \<Rightarrow> 'a option \<Rightarrow> 'a res" where
  "of_some e p = (case p of None \<Rightarrow> Inl e | Some x \<Rightarrow> Inr x)"

lemma of_some_simps [simp]: "of_some e (Some x) = Inr x" "of_some e None = Inl e"
  by (simp_all add: of_some_def)

text \<open>An array read, checked against the bounds of the allocated object.\<close>

definition read_at :: "'a list \<Rightarrow> nat \<Rightarrow> 'a res" where
  "read_at xs i = (if i < length xs then Inr (xs ! i) else Inl Bad_access)"

definition write_at :: "'a list \<Rightarrow> nat \<Rightarrow> 'a \<Rightarrow> 'a list res" where
  "write_at xs i x = (if i < length xs then Inr (xs[i := x]) else Inl Bad_access)"

text \<open>\<^verbatim>\<open>memcpy(dst + off, src, length of src)\<close> into a buffer.\<close>

definition mem_write :: "'a list \<Rightarrow> nat \<Rightarrow> 'a list \<Rightarrow> 'a list res" where
  "mem_write buf off src =
     (if off + length src \<le> length buf
      then Inr (take off buf @ src @ drop (off + length src) buf) else Inl Bad_access)"

text \<open>\<^verbatim>\<open>n\<close> bytes read from a buffer at an offset.\<close>

definition mem_read :: "'a list \<Rightarrow> nat \<Rightarrow> nat \<Rightarrow> 'a list res" where
  "mem_read buf off n =
     (if off + n \<le> length buf then Inr (take n (drop off buf)) else Inl Bad_access)"

lemma read_at_Inr [simp]: "i < length xs \<Longrightarrow> read_at xs i = Inr (xs ! i)"
  by (simp add: read_at_def)

lemma write_at_Inr [simp]: "i < length xs \<Longrightarrow> write_at xs i x = Inr (xs[i := x])"
  by (simp add: write_at_def)

lemma mem_write_Inr [simp]:
  "off + length src \<le> length buf \<Longrightarrow>
   mem_write buf off src = Inr (take off buf @ src @ drop (off + length src) buf)"
  by (simp add: mem_write_def)

lemma mem_read_Inr [simp]:
  "off + n \<le> length buf \<Longrightarrow> mem_read buf off n = Inr (take n (drop off buf))"
  by (simp add: mem_read_def)

lemma mem_write_length: "mem_write buf off src = Inr buf' \<Longrightarrow> length buf' = length buf"
  by (auto simp: mem_write_def split: if_splits)

section \<open>C strings\<close>

text \<open>
  A \<^verbatim>\<open>char *\<close> argument is a list of characters that stands for the memory from the
  pointer on, with a terminating NUL after the list; what the C library sees of it is the
  part before the first NUL. A buffer of fixed size is a list without that extra NUL: its
  string is only defined if a NUL stands inside the buffer.
\<close>

definition NUL :: char where "NUL = CHR 0x00"

definition c_str :: "char list \<Rightarrow> char list" where
  "c_str s = takeWhile (\<lambda>c. c \<noteq> NUL) s"

definition c_strlen :: "char list \<Rightarrow> nat" where
  "c_strlen s = length (c_str s)"

text \<open>\<^verbatim>\<open>strlen\<close> of a buffer: running over its end is an access outside the object.\<close>

definition buf_strlen :: "char list \<Rightarrow> nat res" where
  "buf_strlen b = (if NUL \<in> set b then Inr (c_strlen b) else Inl Bad_access)"

text \<open>\<^verbatim>\<open>strcat(b, s)\<close> for a buffer \<^verbatim>\<open>b\<close>.\<close>

definition buf_strcat :: "char list \<Rightarrow> char list \<Rightarrow> char list res" where
  "buf_strcat b s = res_bind (buf_strlen b) (\<lambda>n. mem_write b n (c_str s @ [NUL]))"

text \<open>\<^verbatim>\<open>strcmp\<close>: the difference of the first two bytes that differ, as unsigned bytes.\<close>

fun c_strcmp :: "char list \<Rightarrow> char list \<Rightarrow> int" where
  "c_strcmp [] [] = 0"
| "c_strcmp [] (y # ys) = - of_char y"
| "c_strcmp (x # xs) [] = of_char x"
| "c_strcmp (x # xs) (y # ys) =
     (if x = y then c_strcmp xs ys else of_char x - of_char y)"

text \<open>
  \<^verbatim>\<open>tolower\<close>, \<^verbatim>\<open>toupper\<close> and \<^verbatim>\<open>isdigit\<close> in the C locale, on the byte value.
\<close>

definition char_lower :: "char \<Rightarrow> char" where
  "char_lower c = (let n = (of_char c :: nat) in
     if 65 \<le> n \<and> n \<le> 90 then char_of (n + 32) else c)"

definition char_upper :: "char \<Rightarrow> char" where
  "char_upper c = (let n = (of_char c :: nat) in
     if 97 \<le> n \<and> n \<le> 122 then char_of (n - 32) else c)"

definition char_isdigit :: "char \<Rightarrow> bool" where
  "char_isdigit c = (let n = (of_char c :: nat) in 48 \<le> n \<and> n \<le> 57)"

definition char_isspace :: "char \<Rightarrow> bool" where
  "char_isspace c = (let n = (of_char c :: nat) in n = 32 \<or> (9 \<le> n \<and> n \<le> 13))"

text \<open>\<^verbatim>\<open>strcasecmp(s, t) == 0\<close>.\<close>

definition c_strcaseeq :: "char list \<Rightarrow> char list \<Rightarrow> bool" where
  "c_strcaseeq s t \<longleftrightarrow> map char_lower (c_str s) = map char_lower (c_str t)"

text \<open>The value of a string of decimal digits.\<close>

definition dec_value :: "char list \<Rightarrow> int" where
  "dec_value ds = foldl (\<lambda>n c. 10 * n + (of_char c - 48)) 0 ds"

text \<open>
  \<^verbatim>\<open>strtoll(s, &end, 10)\<close>: the value and the rest of the string at \<^verbatim>\<open>end\<close>. White space
  and a sign are skipped, without a digit nothing is consumed, and a value outside the
  64-bit range is clamped to it.
\<close>

definition clamp_int :: "nat \<Rightarrow> int \<Rightarrow> int" where
  "clamp_int w n = max (- (2 ^ (w - 1))) (min (2 ^ (w - 1) - 1) n)"

definition c_strtoll :: "char list \<Rightarrow> int \<times> char list" where
  "c_strtoll s =
     (let s1 = dropWhile char_isspace s;
          neg = (s1 \<noteq> [] \<and> hd s1 = CHR ''-'');
          s2 = (if s1 \<noteq> [] \<and> (hd s1 = CHR ''-'' \<or> hd s1 = CHR ''+'') then tl s1 else s1);
          ds = takeWhile char_isdigit s2
      in if ds = [] then (0, s)
         else (clamp_int 64 (if neg then - dec_value ds else dec_value ds),
               dropWhile char_isdigit s2))"

lemma c_str_no_NUL [simp]: "NUL \<notin> set s \<Longrightarrow> c_str s = s"
  by (auto simp: c_str_def takeWhile_eq_all_conv)

lemma NUL_notin_c_str [simp]: "NUL \<notin> set (c_str s)"
  by (auto simp: c_str_def dest: set_takeWhileD)

lemma c_str_idem [simp]: "c_str (c_str s) = c_str s"
  by simp

lemma c_str_append_NUL [simp]: "NUL \<notin> set s \<Longrightarrow> c_str (s @ NUL # t) = s"
  unfolding c_str_def by (subst takeWhile_append2) auto

lemma c_str_Nil [simp]: "c_str [] = []"
  by (simp add: c_str_def)

lemma c_strlen_no_NUL [simp]: "NUL \<notin> set s \<Longrightarrow> c_strlen s = length s"
  by (simp add: c_strlen_def)

lemma of_char_int_inj: "(of_char x :: int) = of_char y \<longleftrightarrow> x = y"
  by simp

lemma of_char_pos: "x \<noteq> NUL \<Longrightarrow> (0::int) < of_char x"
proof -
  assume "x \<noteq> NUL"
  then have "(of_char x :: nat) \<noteq> of_char NUL" by (simp only: of_char_eq_iff) simp
  then have "(of_char x :: nat) \<noteq> 0" by (simp add: NUL_def)
  then have "int (of_char x) > 0" by (simp del: of_nat_of_char)
  then show ?thesis by (simp only: of_nat_of_char)
qed

lemma c_strcmp_0_iff:
  "NUL \<notin> set xs \<Longrightarrow> NUL \<notin> set ys \<Longrightarrow> c_strcmp xs ys = 0 \<longleftrightarrow> xs = ys"
proof (induction xs ys rule: c_strcmp.induct)
  case (2 y ys)
  then show ?case using of_char_pos [of y] by auto
next
  case (3 x xs)
  then show ?case using of_char_pos [of x] by auto
qed auto

lemma c_strcmp_swap: "c_strcmp ys xs = - c_strcmp xs ys"
  by (induction xs ys rule: c_strcmp.induct) auto

section \<open>Words\<close>

lemma of_nat_length_Suc_minus: "(of_nat (Suc n) :: 'a::len word) - 1 = of_nat n"
  by simp

lemma unat_of_nat_small [simp]: "n < 2 ^ LENGTH('a) \<Longrightarrow> unat (of_nat n :: 'a::len word) = n"
  by (simp add: unat_of_nat take_bit_nat_eq_self)

lemma unat_u32: "unat (w :: u32) < 2 ^ 32"
  using unsigned_less [of w] by simp

section \<open>Lists\<close>

lemma list_update_eq_append:
  "i < length xs \<Longrightarrow> xs[i := y] = take i xs @ y # drop (Suc i) xs"
  by (rule upd_conv_take_nth_drop)

lemma sum_list_update_nat:
  fixes f :: "'a \<Rightarrow> nat"
  assumes "i < length xs"
  shows "(\<Sum>x\<leftarrow>xs[i := y]. f x) + f (xs ! i) = (\<Sum>x\<leftarrow>xs. f x) + f y"
proof -
  have "(\<Sum>x\<leftarrow>xs. f x) = (\<Sum>x\<leftarrow>take i xs. f x) + f (xs ! i) + (\<Sum>x\<leftarrow>drop (Suc i) xs. f x)"
    using arg_cong [OF id_take_nth_drop [OF assms], of "\<lambda>l. \<Sum>x\<leftarrow>l. f x"] by simp
  then show ?thesis by (simp add: list_update_eq_append assms)
qed

end
