(* ===== verification/Atm_Util.thy ===== *)
theory Atm_Util
  imports Atm_Prelude
begin

text \<open>
  \<^verbatim>\<open>src/core/atm_util.c\<close>: the table size \<^verbatim>\<open>atm_util_next_power\<close> (its loop ends only for
  arguments up to 2^31), the memory size parser \<^verbatim>\<open>atm_util_memtoll\<close> and the hex dump,
  with its decoder as the round trip and the missing terminator as a fact.
\<close>

section \<open>atm_util_next_power\<close>

text \<open>The loop may not end (the doubling wraps to 0), so its value is an option.\<close>

definition ATM_UTIL_POWER_INIT_SIZE :: u32 where "ATM_UTIL_POWER_INIT_SIZE = 4"

partial_function (option) next_power_loop :: "u32 \<Rightarrow> u32 \<Rightarrow> u32 option" where
  "next_power_loop r num = (if num \<le> r then Some r else next_power_loop (r * 2) num)"

declare next_power_loop.simps [code]

definition atm_util_next_power :: "u32 \<Rightarrow> u32 option" where
  "atm_util_next_power num = next_power_loop ATM_UTIL_POWER_INIT_SIZE num"

lemma unat_pow2: "k < 32 \<Longrightarrow> unat ((2::u32) ^ k) = 2 ^ k"
proof -
  assume "k < 32"
  then have "(2::nat) ^ k < 2 ^ 32" by (intro power_strict_increasing) auto
  then have "unat (of_nat (2 ^ k) :: u32) = 2 ^ k" by (intro unat_of_nat_small) simp
  then show ?thesis by simp
qed

lemma next_power_loop_returns:
  assumes "unat num \<le> 2 ^ 31" "2 \<le> k" "k \<le> 31" "k = 2 \<or> 2 ^ (k - 1) < unat num"
  shows "\<exists>j. 2 \<le> j \<and> j \<le> 31 \<and> next_power_loop (2 ^ k) num = Some (2 ^ j)
    \<and> unat num \<le> 2 ^ j \<and> (j = 2 \<or> 2 ^ (j - 1) < unat num)"
  using assms(2-4)
proof (induction "31 - k" arbitrary: k rule: less_induct)
  case less
  have unk: "unat ((2::u32) ^ k) = 2 ^ k" using less.prems by (simp add: unat_pow2)
  show ?case
  proof (cases "num \<le> (2::u32) ^ k")
    case True
    then have "next_power_loop (2 ^ k) num = Some (2 ^ k)"
      by (simp add: next_power_loop.simps)
    moreover from True unk have "unat num \<le> 2 ^ k" by (simp add: word_le_nat_alt)
    ultimately show ?thesis using less.prems by blast
  next
    case False
    with unk have gt: "2 ^ k < unat num" by (simp add: word_le_nat_alt)
    with assms(1) have "(2::nat) ^ k < 2 ^ 31" by simp
    then have "k < 31" by (simp only: power_strict_increasing_iff)
    have "next_power_loop (2 ^ k) num = next_power_loop (2 ^ Suc k) num"
      using False by (subst next_power_loop.simps) (simp add: mult.commute)
    moreover have "\<exists>j. 2 \<le> j \<and> j \<le> 31 \<and> next_power_loop (2 ^ Suc k) num = Some (2 ^ j)
        \<and> unat num \<le> 2 ^ j \<and> (j = 2 \<or> 2 ^ (j - 1) < unat num)"
      by (rule less.hyps) (use \<open>k < 31\<close> less.prems gt in auto)
    ultimately show ?thesis by simp
  qed
qed

text \<open>What a value of the loop variable looks like: a power of two, or 0 after the wrap.\<close>

lemma next_power_loop_None:
  assumes big: "2 ^ 31 < unat num" and r: "r = 0 \<or> (\<exists>k\<le>31. r = 2 ^ k)"
  shows "next_power_loop r num = None"
proof (cases "next_power_loop r num")
  case (Some y)
  have "2 ^ 31 < unat num \<longrightarrow> (r = 0 \<or> (\<exists>k\<le>31. r = 2 ^ k)) \<longrightarrow> False"
  proof (rule next_power_loop.raw_induct
      [where P = "\<lambda>r num y. 2 ^ 31 < unat num \<longrightarrow> (r = 0 \<or> (\<exists>k\<le>31. r = 2 ^ k)) \<longrightarrow> False",
       OF _ Some], intro impI)
    fix f :: "u32 \<Rightarrow> u32 \<Rightarrow> u32 option" and r num y
    assume IH: "\<And>r num y. f r num = Some y \<Longrightarrow>
        2 ^ 31 < unat num \<longrightarrow> (r = 0 \<or> (\<exists>k\<le>31. r = 2 ^ k)) \<longrightarrow> False"
      and eq: "(if num \<le> r then Some r else f (r * 2) num) = Some y"
      and big: "2 ^ 31 < unat num" and r: "r = 0 \<or> (\<exists>k\<le>31. r = 2 ^ k)"
    have "unat r \<le> 2 ^ 31"
    proof -
      have "(2::nat) ^ k \<le> 2 ^ 31" if "k \<le> 31" for k
        using that by (rule power_increasing) simp
      then show ?thesis using r by (auto simp: unat_pow2)
    qed
    with big have "\<not> num \<le> r" by (simp add: word_le_nat_alt)
    with eq have step: "f (r * 2) num = Some y" by simp
    have "r * 2 = 0 \<or> (\<exists>k\<le>31. r * 2 = 2 ^ k)"
    proof -
      consider "r = 0" | k where "k < 31" "r = 2 ^ k" | "r = 2 ^ 31"
        using r by (metis le_neq_implies_less)
      then show ?thesis
      proof cases
        case 2
        then have "r * 2 = 2 ^ Suc k" by simp
        with 2 show ?thesis by (meson Suc_leI)
      qed simp_all
    qed
    with IH [OF step] big show False by blast
  qed
  with big r show ?thesis by blast
qed

text \<open>
  For an argument up to 2^31 the loop returns, and it returns the least power of two
  that is at least 4 and at least the argument; above 2^31 the doubled value wraps to 0
  and the loop never returns.
\<close>

theorem atm_util_next_power_spec:
  "(unat num \<le> 2 ^ 31 \<longrightarrow>
     (\<exists>j. 2 \<le> j \<and> j \<le> 31 \<and> atm_util_next_power num = Some (2 ^ j)
       \<and> unat num \<le> 2 ^ j \<and> (j = 2 \<or> 2 ^ (j - 1) < unat num)))
   \<and> (2 ^ 31 < unat num \<longrightarrow> atm_util_next_power num = None)"
proof (intro conjI impI)
  assume "unat num \<le> 2 ^ 31"
  from next_power_loop_returns [OF this, of 2] show "\<exists>j. 2 \<le> j \<and> j \<le> 31 \<and>
      atm_util_next_power num = Some (2 ^ j)
       \<and> unat num \<le> 2 ^ j \<and> (j = 2 \<or> 2 ^ (j - 1) < unat num)"
    by (simp add: atm_util_next_power_def ATM_UTIL_POWER_INIT_SIZE_def)
next
  assume "2 ^ 31 < unat num"
  then show "atm_util_next_power num = None"
    unfolding atm_util_next_power_def ATM_UTIL_POWER_INIT_SIZE_def
    by (rule next_power_loop_None) (rule disjI2, rule exI [of _ 2], simp)
qed

theorem atm_util_next_power_spec_witness:
  "unat (512 :: u32) \<le> 2 ^ 31
   \<and> (\<exists>j. 2 \<le> j \<and> j \<le> 31 \<and> atm_util_next_power 512 = Some (2 ^ j)
       \<and> unat (512 :: u32) \<le> 2 ^ j \<and> (j = 2 \<or> 2 ^ (j - 1) < unat (512 :: u32)))
   \<and> atm_util_next_power 2147483649 = None"
  using atm_util_next_power_spec [of 512] atm_util_next_power_spec [of 2147483649] by simp

text \<open>What the dictionary needs of it: the result is positive and at least the argument.\<close>

lemma atm_util_next_power_bound:
  assumes "unat num \<le> 2 ^ k" "2 \<le> k" "k \<le> 31"
  shows "\<exists>p. atm_util_next_power num = Some p \<and> unat num \<le> unat p \<and> 4 \<le> unat p
    \<and> unat p \<le> 2 ^ k"
proof -
  have "(2::nat) ^ k \<le> 2 ^ 31" using assms(3) by (rule power_increasing) simp
  with assms(1) have "unat num \<le> 2 ^ 31" by simp
  from next_power_loop_returns [OF this, of 2]
  obtain j where j: "2 \<le> j" "j \<le> 31" "atm_util_next_power num = Some (2 ^ j)"
      "unat num \<le> 2 ^ j" "j = 2 \<or> 2 ^ (j - 1) < unat num"
    by (auto simp: atm_util_next_power_def ATM_UTIL_POWER_INIT_SIZE_def)
  have "j \<le> k"
  proof (cases "j = 2")
    case False
    with j(5) have "2 ^ (j - 1) < unat num" by simp
    then have "(2::nat) ^ (j - 1) < 2 ^ k" using assms(1) by (rule less_le_trans)
    then have "j - 1 < k" by (rule power_less_imp_less_exp [rotated]) simp
    with j(1) show ?thesis by simp
  qed (use assms(2) in simp)
  then have "(2::nat) ^ j \<le> 2 ^ k" by (rule power_increasing) simp
  moreover have "(2::nat) ^ 2 \<le> 2 ^ j" using j(1) by (rule power_increasing) simp
  ultimately show ?thesis using j(2-4) by (auto simp: unat_pow2)
qed

section \<open>atm_util_memtoll\<close>

text \<open>
  The pair is the returned number and \<^verbatim>\<open>*err\<close>. The argument is the string without its
  terminator. The product \<^verbatim>\<open>val*mul\<close> of two signed 64-bit numbers is a fault when it
  overflows.
\<close>

definition memtoll_mul :: "string \<Rightarrow> int option" where
  "memtoll_mul u =
     (if u = [] \<or> c_strcaseeq u ''b'' then Some 1
      else if c_strcaseeq u ''k'' then Some 1000
      else if c_strcaseeq u ''kb'' then Some 1024
      else if c_strcaseeq u ''m'' then Some (1000 * 1000)
      else if c_strcaseeq u ''mb'' then Some (1024 * 1024)
      else if c_strcaseeq u ''g'' then Some (1000 * 1000 * 1000)
      else if c_strcaseeq u ''gb'' then Some (1024 * 1024 * 1024)
      else None)"

definition smul64 :: "int \<Rightarrow> int \<Rightarrow> int res" where
  "smul64 a b = (if clamp_int 64 (a * b) = a * b then Inr (a * b) else Inl Signed_overflow)"

definition memtoll_unit :: "string \<Rightarrow> string" where
  "memtoll_unit p =
     dropWhile char_isdigit (if p \<noteq> [] \<and> hd p = CHR ''-'' then tl p else p)"

definition atm_util_memtoll :: "string \<Rightarrow> (int \<times> bool) res" where
  "atm_util_memtoll p =
     (let u = memtoll_unit p in
      case memtoll_mul u of
        None \<Rightarrow> Inr (0, True)
      | Some mul \<Rightarrow>
          let digits = length p - length u in
          if 128 \<le> digits then Inr (0, True)
          else (case c_strtoll (take digits p) of (val, end_ptr) \<Rightarrow>
             if end_ptr \<noteq> [] then Inr (0, True)
             else res_map (\<lambda>r. (r, False)) (smul64 val mul)))"

lemma dec_value_nonneg_aux:
  "\<forall>c\<in>set ds. char_isdigit c \<Longrightarrow> 0 \<le> n \<Longrightarrow>
   0 \<le> foldl (\<lambda>n c. 10 * n + (of_char c - 48)) (n::int) ds"
proof (induction ds arbitrary: n)
  case (Cons c ds)
  have "48 \<le> (of_char c :: nat)" using Cons.prems(1) by (simp add: char_isdigit_def Let_def)
  then have "48 \<le> int (of_char c)" by linarith
  then have "48 \<le> (of_char c :: int)" by (simp only: of_nat_of_char)
  then show ?case using Cons by simp
qed simp

lemma dec_value_nonneg: "\<forall>c\<in>set ds. char_isdigit c \<Longrightarrow> 0 \<le> dec_value ds"
  by (simp add: dec_value_def dec_value_nonneg_aux)

lemma isdigit_not_space: "char_isdigit c \<Longrightarrow> \<not> char_isspace c"
  by (auto simp: char_isdigit_def char_isspace_def Let_def)

lemma isdigit_sign: "\<not> char_isdigit (CHR ''-'')" "\<not> char_isdigit (CHR ''+'')"
  by (simp_all add: char_isdigit_def)

lemma c_strtoll_digits:
  assumes ds: "ds \<noteq> []" "\<forall>c\<in>set ds. char_isdigit c"
  shows "c_strtoll ds = (clamp_int 64 (dec_value ds), [])"
proof -
  obtain c cs where cs: "ds = c # cs" using ds(1) by (cases ds) auto
  then have c: "char_isdigit c" "c \<noteq> CHR ''-''" "c \<noteq> CHR ''+''"
    using ds(2) isdigit_sign by auto
  have tw: "takeWhile char_isdigit ds = ds" and dw: "dropWhile char_isdigit ds = []"
    using ds(2) by (simp_all add: takeWhile_eq_all_conv dropWhile_eq_Nil_conv)
  have sp: "dropWhile char_isspace ds = ds"
    using cs c isdigit_not_space by simp
  have h: "hd ds \<noteq> CHR ''-''" "hd ds \<noteq> CHR ''+''" using cs c by simp_all
  show ?thesis
    by (simp add: c_strtoll_def Let_def tw dw sp h ds(1) del: takeWhile_eq_Nil_iff)
qed

text \<open>
  A memory size written as decimal digits and a known unit is parsed to its
  number of bytes, as long as that number fits in 64 bits; an unknown unit is rejected
  with the error flag and 0.
\<close>

theorem atm_util_memtoll_spec:
  assumes ds: "ds \<noteq> []" "\<forall>c\<in>set ds. char_isdigit c" "length ds < 128"
    and u: "u = [] \<or> \<not> char_isdigit (hd u)"
  shows "case memtoll_mul u of
       None \<Rightarrow> atm_util_memtoll (ds @ u) = Inr (0, True)
     | Some mul \<Rightarrow> dec_value ds * mul < 2 ^ 63 \<longrightarrow>
         atm_util_memtoll (ds @ u) = Inr (dec_value ds * mul, False)"
proof -
  obtain c cs where cs: "ds = c # cs" using ds(1) by (cases ds) auto
  then have hd: "c \<noteq> CHR ''-''" using ds(2) isdigit_sign by auto
  have "dropWhile char_isdigit (ds @ u) = u"
    using ds(2) u by (cases u) (auto simp: dropWhile_append)
  then have unit: "memtoll_unit (ds @ u) = u"
    using cs hd by (simp add: memtoll_unit_def)
  show ?thesis
  proof (cases "memtoll_mul u")
    case None
    then show ?thesis by (simp add: atm_util_memtoll_def unit)
  next
    case (Some mul)
    have mul: "1 \<le> mul" using Some by (auto simp: memtoll_mul_def split: if_splits)
    have "atm_util_memtoll (ds @ u) = Inr (dec_value ds * mul, False)"
      if lt: "dec_value ds * mul < 2 ^ 63"
    proof -
      have nn: "0 \<le> dec_value ds" using ds(2) by (rule dec_value_nonneg)
      then have "dec_value ds * 1 \<le> dec_value ds * mul" using mul by (rule mult_left_mono [rotated])
      then have "clamp_int 64 (dec_value ds) = dec_value ds"
        using lt nn by (simp add: clamp_int_def)
      moreover have "0 \<le> dec_value ds * mul"
        using nn mul by simp
      then have "clamp_int 64 (dec_value ds * mul) = dec_value ds * mul"
        using lt by (simp add: clamp_int_def)
      ultimately show ?thesis
        using Some ds(3) c_strtoll_digits [OF ds(1,2)]
        by (simp add: atm_util_memtoll_def unit smul64_def)
    qed
    then show ?thesis using Some by simp
  qed
qed

theorem atm_util_memtoll_spec_witness:
  "atm_util_memtoll ''1Gb'' = Inr (1073741824, False)
   \<and> atm_util_memtoll ''12x'' = Inr (0, True)"
proof -
  have gb: "memtoll_mul ''Gb'' = Some 1073741824" by code_simp
  have x: "memtoll_mul ''x'' = None" by code_simp
  show ?thesis
    using atm_util_memtoll_spec [of "''1''" "''Gb''"] atm_util_memtoll_spec [of "''12''" "''x''"]
      gb x by (simp add: char_isdigit_def dec_value_def)
qed

section \<open>atm_util_hexdump\<close>

definition hexdict :: string where "hexdict = ''0123456789abcdef''"

text \<open>
  The result is the allocated buffer: \<^verbatim>\<open>calloc(1, len*2 + 2)\<close> bytes, written from the
  start. No byte is left for a terminator.
\<close>

fun hexdump_loop :: "u8 list \<Rightarrow> nat \<Rightarrow> char list \<Rightarrow> char list res" where
  "hexdump_loop [] s buf = Inr buf"
| "hexdump_loop (b # bs) s buf =
     res_bind (write_at buf s (hexdict ! unat (drop_bit 4 (and b 0xf0)))) (\<lambda>buf1.
     res_bind (write_at buf1 (s + 1) (hexdict ! unat (and b 0x0f))) (\<lambda>buf2.
       hexdump_loop bs (s + 2) buf2))"

definition atm_util_hexdump :: "u8 list \<Rightarrow> char list res" where
  "atm_util_hexdump p =
     (let buf = replicate (length p * 2 + 2) NUL in
      res_bind (write_at buf 0 (CHR ''0'')) (\<lambda>buf1.
      res_bind (write_at buf1 1 (CHR ''x'')) (\<lambda>buf2.
        hexdump_loop p 2 buf2)))"

text \<open>The reader of a dump, for the round trip: not a function of the program.\<close>

definition hex_digit_value :: "char \<Rightarrow> u8" where
  "hex_digit_value c = (let n = (of_char c :: nat) in
     of_nat (if n < 97 then n - 48 else n - 87))"

fun hex_decode :: "char list \<Rightarrow> u8 list" where
  "hex_decode (h # l # cs) = (hex_digit_value h * 16 + hex_digit_value l) # hex_decode cs"
| "hex_decode _ = []"

definition hex_pair :: "u8 \<Rightarrow> char list" where
  "hex_pair b = [hexdict ! unat (drop_bit 4 (and b 0xf0)), hexdict ! unat (and b 0x0f)]"

lemma hexdump_loop_spec:
  "length buf = s + 2 * length bs + k \<Longrightarrow>
   hexdump_loop bs s buf = Inr (take s buf @ concat (map hex_pair bs) @ drop (s + 2 * length bs) buf)"
proof (induction bs arbitrary: s buf)
  case (Cons b bs)
  let ?buf = "buf[s := hexdict ! unat (drop_bit 4 (and b 0xf0)),
                  s + 1 := hexdict ! unat (and b 0x0f)]"
  have "hexdump_loop (b # bs) s buf = hexdump_loop bs (s + 2) ?buf"
    using Cons.prems by simp
  also have "\<dots> = Inr (take (s + 2) ?buf @ concat (map hex_pair bs)
      @ drop (s + 2 + 2 * length bs) ?buf)"
    by (rule Cons.IH) (use Cons.prems in simp)
  also have "take (s + 2) ?buf = take s buf @ hex_pair b"
    using Cons.prems by (simp add: hex_pair_def take_Suc_conv_app_nth nth_list_update)
  also have "drop (s + 2 + 2 * length bs) ?buf = drop (s + 2 * length (b # bs)) buf"
    by simp
  finally show ?case by simp
qed simp

lemma atm_util_hexdump_eq:
  "atm_util_hexdump p = Inr (''0x'' @ concat (map hex_pair p))"
proof -
  have "length ((replicate (length p * 2 + 2) NUL)[0 := CHR ''0'', 1 := CHR ''x''])
      = 2 + 2 * length p + 0" by simp
  from hexdump_loop_spec [OF this] show ?thesis
    by (simp add: atm_util_hexdump_def Let_def take_Suc_conv_app_nth numeral_2_eq_2)
qed

lemma hexdict_value: "i < 16 \<Longrightarrow> hex_digit_value (hexdict ! i) = of_nat i"
proof -
  assume "i < 16"
  then have "i \<in> set [0..<16]" by simp
  moreover have "\<forall>i\<in>set [0..<16]. hex_digit_value (hexdict ! i) = of_nat i"
    by (simp add: upt_rec hexdict_def hex_digit_value_def)
  ultimately show ?thesis by blast
qed

lemma hexdict_not_NUL: "i < 16 \<Longrightarrow> hexdict ! i \<noteq> NUL"
proof -
  assume "i < 16"
  then have "hexdict ! i \<in> set hexdict" by (intro nth_mem) (simp add: hexdict_def)
  moreover have "NUL \<notin> set hexdict" by (simp add: hexdict_def NUL_def)
  ultimately show ?thesis by auto
qed

lemma nibble_lo: "unat (and (b::u8) 15) = unat b mod 16"
proof -
  have "and b 15 = take_bit 4 b"
    by (simp add: take_bit_eq_mask mask_eq_exp_minus_1)
  then show ?thesis by (simp add: take_bit_eq_mod unat_mod)
qed

lemma nibble_hi: "unat (drop_bit 4 (b::u8)) = unat b div 16" "unat b div 16 < 16"
  using unsigned_less [of b, where ?'a = nat] by (simp_all add: drop_bit_eq_div unat_div)

lemma nibble_hi_mask: "and (drop_bit 4 b) 15 = drop_bit 4 (b::u8)"
  using nibble_hi [of b] by (intro word_unat_eq_iff [THEN iffD2]) (simp add: nibble_lo)

lemma nibble_sum: "drop_bit 4 b * 16 + and b 15 = (b::u8)"
  using nibble_hi [of b] unsigned_less [of b, where ?'a = nat]
  by (intro word_unat_eq_iff [THEN iffD2]) (simp add: unat_word_ariths nibble_lo)

lemma hex_pair_eq: "hex_pair b = [hexdict ! (unat b div 16), hexdict ! (unat b mod 16)]"
  by (simp add: hex_pair_def nibble_hi_mask nibble_hi nibble_lo)

lemma hex_decode_pairs: "hex_decode (concat (map hex_pair p)) = p"
proof (induction p)
  case (Cons b p)
  have "of_nat (unat b div 16) * 16 + of_nat (unat b mod 16) = b"
    using nibble_sum [of b] by (simp flip: nibble_hi nibble_lo)
  then show ?case using Cons nibble_hi [of b] by (simp add: hex_pair_eq hexdict_value)
qed simp

text \<open>
  The dump of any bytes is \<^verbatim>\<open>0x\<close> followed by two hex digits per byte, from
  which the bytes can be read back; and it fills the allocated buffer without a
  terminating NUL, so the returned pointer is not a C string.
\<close>

theorem atm_util_hexdump_roundtrip:
  "\<exists>ds. atm_util_hexdump p = Inr (''0x'' @ ds) \<and> hex_decode ds = p
     \<and> length (''0x'' @ ds) = length p * 2 + 2
     \<and> buf_strlen (''0x'' @ ds) = Inl Bad_access"
proof -
  let ?ds = "concat (map hex_pair p)"
  have "length ?ds = 2 * length p"
    by (induction p) (simp_all add: hex_pair_def)
  moreover have "NUL \<notin> set ?ds"
    using hexdict_not_NUL [OF nibble_hi(2)] hexdict_not_NUL [of "unat (_::u8) mod 16"]
    by (auto simp: hex_pair_eq) (metis mod_less_divisor zero_less_numeral)+
  ultimately show ?thesis
    using atm_util_hexdump_eq hex_decode_pairs
    by (intro exI [of _ ?ds]) (auto simp: buf_strlen_def NUL_def)
qed

end
