(* ===== verification/Atm_Siphash.thy ===== *)
theory Atm_Siphash
  imports Atm_Prelude
begin

unbundle bit_operations_syntax

text \<open>
  \<^verbatim>\<open>src/core/atm_siphash.c\<close>: the SipHash-1-2 of the dictionary keys, its case-insensitive
  variant and the seed. The hash functions take the seed (the static array
  \<^verbatim>\<open>siphash_seed\<close>), the memory from the input pointer on and the length; reading past that
  memory is a fault. The reference is SipHash as published: the message is padded with
  zeros and its length to whole blocks, and the blocks are folded.
\<close>

section \<open>Words from bytes\<close>

definition ROTL :: "u64 \<Rightarrow> nat \<Rightarrow> u64" where
  "ROTL x b = push_bit b x OR drop_bit (64 - b) x"

definition U8TO64_LE :: "u8 list \<Rightarrow> u64" where
  "U8TO64_LE p =
     ucast (p ! 0) OR push_bit 8 (ucast (p ! 1)) OR
     push_bit 16 (ucast (p ! 2)) OR push_bit 24 (ucast (p ! 3)) OR
     push_bit 32 (ucast (p ! 4)) OR push_bit 40 (ucast (p ! 5)) OR
     push_bit 48 (ucast (p ! 6)) OR push_bit 56 (ucast (p ! 7))"

definition siptlw :: "u8 \<Rightarrow> u8" where
  "siptlw c = (if 65 \<le> c \<and> c \<le> 90 then c + (97 - 65) else c)"

definition U8TO64_LE_NOCASE :: "u8 list \<Rightarrow> u64" where
  "U8TO64_LE_NOCASE p =
     ucast (siptlw (p ! 0)) OR push_bit 8 (ucast (siptlw (p ! 1))) OR
     push_bit 16 (ucast (siptlw (p ! 2))) OR push_bit 24 (ucast (siptlw (p ! 3))) OR
     push_bit 32 (ucast (siptlw (p ! 4))) OR push_bit 40 (ucast (siptlw (p ! 5))) OR
     push_bit 48 (ucast (siptlw (p ! 6))) OR push_bit 56 (ucast (siptlw (p ! 7)))"

section \<open>The hash\<close>

type_synonym sip_state = "u64 \<times> u64 \<times> u64 \<times> u64"

definition SIPROUND :: "sip_state \<Rightarrow> sip_state" where
  "SIPROUND s = (case s of (v0, v1, v2, v3) \<Rightarrow>
     let v0 = v0 + v1;
         v1 = ROTL v1 13;
         v1 = v1 XOR v0;
         v0 = ROTL v0 32;
         v2 = v2 + v3;
         v3 = ROTL v3 16;
         v3 = v3 XOR v2;
         v0 = v0 + v3;
         v3 = ROTL v3 21;
         v3 = v3 XOR v0;
         v2 = v2 + v1;
         v1 = ROTL v1 17;
         v1 = v1 XOR v2;
         v2 = ROTL v2 32
     in (v0, v1, v2, v3))"

definition sip_init :: "u8 list \<Rightarrow> sip_state" where
  "sip_init k =
     (let k0 = U8TO64_LE k; k1 = U8TO64_LE (drop 8 k)
      in (0x736f6d6570736575 XOR k0, 0x646f72616e646f6d XOR k1,
          0x6c7967656e657261 XOR k0, 0x7465646279746573 XOR k1))"

text \<open>One turn of the loop over the input words, for the word \<^verbatim>\<open>m\<close> just read.\<close>

definition sip_absorb :: "u64 \<Rightarrow> sip_state \<Rightarrow> sip_state" where
  "sip_absorb m s = (case s of (v0, v1, v2, v3) \<Rightarrow>
     case SIPROUND (v0, v1, v2, v3 XOR m) of (w0, w1, w2, w3) \<Rightarrow> (w0 XOR m, w1, w2, w3))"

text \<open>
  \<^verbatim>\<open>for (; in != end; in += 8)\<close>: \<^verbatim>\<open>n\<close> is the number of words between \<^verbatim>\<open>in\<close> and \<^verbatim>\<open>end\<close>,
  and the result is the state with the moved pointer.
\<close>

fun sip_loop :: "nat \<Rightarrow> u8 list \<Rightarrow> sip_state \<Rightarrow> u8 list \<times> sip_state" where
  "sip_loop 0 inp s = (inp, s)"
| "sip_loop (Suc n) inp s = sip_loop n (drop 8 inp) (sip_absorb (U8TO64_LE inp) s)"

fun sip_loop_nocase :: "nat \<Rightarrow> u8 list \<Rightarrow> sip_state \<Rightarrow> u8 list \<times> sip_state" where
  "sip_loop_nocase 0 inp s = (inp, s)"
| "sip_loop_nocase (Suc n) inp s =
     sip_loop_nocase n (drop 8 inp) (sip_absorb (U8TO64_LE_NOCASE inp) s)"

text \<open>The switch on \<^verbatim>\<open>left\<close>: every case falls through to the next one.\<close>

definition sip_tail :: "nat \<Rightarrow> u8 list \<Rightarrow> u64 \<Rightarrow> u64" where
  "sip_tail left inp b =
     (let b = (if 7 \<le> left then b OR push_bit 48 (ucast (inp ! 6)) else b);
          b = (if 6 \<le> left then b OR push_bit 40 (ucast (inp ! 5)) else b);
          b = (if 5 \<le> left then b OR push_bit 32 (ucast (inp ! 4)) else b);
          b = (if 4 \<le> left then b OR push_bit 24 (ucast (inp ! 3)) else b);
          b = (if 3 \<le> left then b OR push_bit 16 (ucast (inp ! 2)) else b);
          b = (if 2 \<le> left then b OR push_bit 8 (ucast (inp ! 1)) else b);
          b = (if 1 \<le> left then b OR ucast (inp ! 0) else b)
      in b)"

definition sip_tail_nocase :: "nat \<Rightarrow> u8 list \<Rightarrow> u64 \<Rightarrow> u64" where
  "sip_tail_nocase left inp b =
     (let b = (if 7 \<le> left then b OR push_bit 48 (ucast (siptlw (inp ! 6))) else b);
          b = (if 6 \<le> left then b OR push_bit 40 (ucast (siptlw (inp ! 5))) else b);
          b = (if 5 \<le> left then b OR push_bit 32 (ucast (siptlw (inp ! 4))) else b);
          b = (if 4 \<le> left then b OR push_bit 24 (ucast (siptlw (inp ! 3))) else b);
          b = (if 3 \<le> left then b OR push_bit 16 (ucast (siptlw (inp ! 2))) else b);
          b = (if 2 \<le> left then b OR push_bit 8 (ucast (siptlw (inp ! 1))) else b);
          b = (if 1 \<le> left then b OR ucast (siptlw (inp ! 0)) else b)
      in b)"

definition sip_finish :: "u64 \<Rightarrow> sip_state \<Rightarrow> u64" where
  "sip_finish b s =
     (case sip_absorb b s of (v0, v1, v2, v3) \<Rightarrow>
      case SIPROUND (SIPROUND (v0, v1, v2 XOR 0xff, v3)) of (w0, w1, w2, w3) \<Rightarrow>
        w0 XOR w1 XOR w2 XOR w3)"

definition atm_siphash :: "u8 list \<Rightarrow> u8 list \<Rightarrow> u32 \<Rightarrow> u64 res" where
  "atm_siphash k inp inlen =
     (if length inp < unat inlen then Inl Bad_access
      else
        let b = push_bit 56 (ucast inlen);
            left = unat (inlen AND 7)
        in (case sip_loop (unat inlen div 8) inp (sip_init k) of (rest, s) \<Rightarrow>
              Inr (sip_finish (sip_tail left rest b) s)))"

definition atm_siphash_nocase :: "u8 list \<Rightarrow> u8 list \<Rightarrow> u32 \<Rightarrow> u64 res" where
  "atm_siphash_nocase k inp inlen =
     (if length inp < unat inlen then Inl Bad_access
      else
        let b = push_bit 56 (ucast inlen);
            left = unat (inlen AND 7)
        in (case sip_loop_nocase (unat inlen div 8) inp (sip_init k) of (rest, s) \<Rightarrow>
              Inr (sip_finish (sip_tail_nocase left rest b) s)))"

section \<open>The seed\<close>

text \<open>
  The clock, the process id and the values of \<^verbatim>\<open>rand()\<close> are arguments. The 16 bytes of the
  seed are filled with \<^verbatim>\<open>tv_usec\<close> (8 bytes), \<^verbatim>\<open>tv_sec\<close> (8 bytes) and, if there is room, the
  process id; then every byte is mixed and mapped to a character of the charset.
\<close>

definition sip_charset :: "u8 list" where
  "sip_charset = [48, 49, 50, 51, 52, 53, 54, 55, 56, 57, 97, 98, 99, 100, 101, 102]"

text \<open>\<^verbatim>\<open>if (l >= sizeof(v)) { memcpy(x,&v,sizeof(v)); l -= ...; x += ...; }\<close>\<close>

definition sip_fill :: "u8 list \<Rightarrow> u8 list \<times> nat \<Rightarrow> u8 list \<times> nat" where
  "sip_fill v st = (case st of (p, x) \<Rightarrow>
     if length v \<le> length p - x
     then (take x p @ v @ drop (x + length v) p, x + length v) else (p, x))"

definition atm_siphash_init :: "u8 list \<Rightarrow> u8 list \<Rightarrow> u8 list \<Rightarrow> (nat \<Rightarrow> u8) \<Rightarrow> u8 list" where
  "atm_siphash_init tv_usec tv_sec pid rnd =
     (let p = fst (sip_fill pid (sip_fill tv_sec (sip_fill tv_usec (replicate 16 0, 0))))
      in map (\<lambda>j. sip_charset ! unat ((p ! j XOR rnd j) AND 0x0F)) [0..<16])"

section \<open>Case-insensitive hashing\<close>

lemma map_nth_0: "xs \<noteq> [] \<Longrightarrow> map f xs ! 0 = f (xs ! 0)"
  by (cases xs) simp_all

lemma U8TO64_LE_NOCASE_map:
  "8 \<le> length p \<Longrightarrow> U8TO64_LE_NOCASE p = U8TO64_LE (map siptlw p)"
  by (cases "p = []") (simp_all add: U8TO64_LE_NOCASE_def U8TO64_LE_def map_nth_0)

lemma sip_loop_nocase_map:
  "8 * n \<le> length inp \<Longrightarrow>
   sip_loop n (map siptlw inp) s = map_prod (map siptlw) id (sip_loop_nocase n inp s)"
  by (induction n arbitrary: inp s) (simp_all add: U8TO64_LE_NOCASE_map drop_map)

lemma sip_loop_drop: "fst (sip_loop n inp s) = drop (8 * n) inp"
  by (induction n arbitrary: inp s) (simp_all add: add.commute)

lemma sip_loop_nocase_drop: "fst (sip_loop_nocase n inp s) = drop (8 * n) inp"
  by (induction n arbitrary: inp s) (simp_all add: add.commute)

lemma sip_tail_nocase_map:
  "left \<le> length inp \<Longrightarrow> left < 8 \<Longrightarrow>
   sip_tail_nocase left inp b = sip_tail left (map siptlw inp) b"
  by (cases "inp = []") (simp_all add: sip_tail_nocase_def sip_tail_def Let_def map_nth_0)

lemma unat_and_7: "unat ((n::u32) AND 7) = unat n mod 8"
proof -
  have "n AND 7 = take_bit 3 n"
    by (simp add: take_bit_eq_mask mask_eq_exp_minus_1)
  then show ?thesis by (simp add: take_bit_eq_mod unat_mod)
qed

text \<open>
  The case-insensitive hash of a key is the hash of the key with its ASCII
  letters lowered (and it reads the same memory).
\<close>

theorem atm_siphash_nocase_lower:
  "atm_siphash_nocase k inp inlen = atm_siphash k (map siptlw inp) inlen"
proof (cases "length inp < unat inlen")
  case True
  then show ?thesis by (simp add: atm_siphash_nocase_def atm_siphash_def)
next
  case False
  define n where "n = unat inlen div 8"
  have n: "8 * n \<le> length inp" using False by (simp add: n_def)
  obtain rest s where st: "sip_loop_nocase n inp (sip_init k) = (rest, s)"
    by (cases "sip_loop_nocase n inp (sip_init k)")
  have rest: "rest = drop (8 * n) inp"
    using sip_loop_nocase_drop [of n inp "sip_init k"] st by simp
  have "unat (inlen AND 7) \<le> length rest" "unat (inlen AND 7) < 8"
    using False by (simp_all add: rest unat_and_7 n_def modulo_nat_def)
  then show ?thesis
    using False n st sip_loop_nocase_map [OF n, of "sip_init k"]
    by (simp add: atm_siphash_nocase_def atm_siphash_def sip_tail_nocase_map flip: n_def)
qed

section \<open>The published SipHash\<close>

fun le_word :: "u8 list \<Rightarrow> u64" where
  "le_word [] = 0"
| "le_word (b # bs) = ucast b OR push_bit 8 (le_word bs)"

fun words8 :: "nat \<Rightarrow> u8 list \<Rightarrow> u64 list" where
  "words8 0 bs = []"
| "words8 (Suc n) bs = le_word (take 8 bs) # words8 n (drop 8 bs)"

definition sip_pad :: "u8 list \<Rightarrow> u8 list" where
  "sip_pad m = m @ replicate (7 - length m mod 8) 0 @ [of_nat (length m)]"

definition siphash_1_2 :: "u8 list \<Rightarrow> u8 list \<Rightarrow> u64" where
  "siphash_1_2 k m =
     (case fold sip_absorb (words8 (length m div 8 + 1) (sip_pad m)) (sip_init k) of
       (v0, v1, v2, v3) \<Rightarrow>
      case SIPROUND (SIPROUND (v0, v1, v2 XOR 0xff, v3)) of (w0, w1, w2, w3) \<Rightarrow>
        w0 XOR w1 XOR w2 XOR w3)"

lemma list8:
  assumes "8 \<le> length p"
  shows "take 8 p = [p ! 0, p ! 1, p ! 2, p ! 3, p ! 4, p ! 5, p ! 6, p ! 7]"
  using assms by (intro nth_equalityI) (auto simp: less_Suc_eq numeral_eq_Suc)

lemma U8TO64_LE_le_word: "8 \<le> length p \<Longrightarrow> U8TO64_LE p = le_word (take 8 p)"
  by (simp only: list8) (simp add: U8TO64_LE_def push_bit_or or.assoc)

lemma sip_loop_fold:
  "8 * n \<le> length inp \<Longrightarrow> sip_loop n inp s = (drop (8 * n) inp, fold sip_absorb (words8 n inp) s)"
  by (induction n arbitrary: inp s) (simp_all add: U8TO64_LE_le_word add.commute)

lemma words8_snoc: "words8 (Suc n) bs = words8 n bs @ [le_word (take 8 (drop (8 * n) bs))]"
proof (induction n arbitrary: bs)
  case (Suc n)
  have "words8 (Suc (Suc n)) bs = le_word (take 8 bs) # words8 (Suc n) (drop 8 bs)" by simp
  also have "words8 (Suc n) (drop 8 bs) =
      words8 n (drop 8 bs) @ [le_word (take 8 (drop (8 * n) (drop 8 bs)))]"
    by (rule Suc.IH)
  finally show ?case by (simp add: add.commute)
qed simp

lemma words8_append: "8 * n \<le> length xs \<Longrightarrow> words8 n (xs @ ys) = words8 n xs"
  by (induction n arbitrary: xs) simp_all

lemma push_bit_56_ucast: "push_bit 56 (ucast (n::u32) :: u64) = push_bit 56 (ucast (ucast n :: u8))"
  by (rule bit_eqI) (auto simp: bit_simps)

lemma sip_tail_le_word:
  assumes "length r < 8"
  shows "sip_tail (length r) r (push_bit 56 (ucast l)) =
    le_word (r @ replicate (7 - length r) 0 @ [l])"
proof -
  consider "length r = 0" | "length r = 1" | "length r = 2" | "length r = 3"
    | "length r = 4" | "length r = 5" | "length r = 6" | "length r = 7"
    using assms by linarith
  then show ?thesis
    by cases (auto simp: sip_tail_def Let_def length_Suc_conv numeral_eq_Suc push_bit_or
        or.assoc or.commute or.left_commute)
qed

lemma sip_tail_append: "sip_tail (length r) (r @ rest) b = sip_tail (length r) r b"
  by (simp add: sip_tail_def Let_def nth_append)

text \<open>The hash reads exactly the bytes that the length names.\<close>

lemma siphash_prefix:
  assumes "length m = unat n"
  shows "\<exists>w. \<forall>rest. atm_siphash k (m @ rest) n = Inr w"
proof -
  define i where "i = length m div 8"
  define r where "r = drop (8 * i) m"
  have i: "8 * i \<le> length m" by (simp add: i_def)
  have r: "length r = length m mod 8" by (simp add: r_def i_def minus_mult_div_eq_mod)
  have loop: "sip_loop i (m @ rest) s = (r @ rest, fold sip_absorb (words8 i m) s)" for s rest
    using i by (simp add: sip_loop_fold words8_append r_def)
  have "atm_siphash k (m @ rest) n = Inr (sip_finish (sip_tail (length r) r (push_bit 56 (ucast n)))
      (fold sip_absorb (words8 i m) (sip_init k)))" for rest
    using loop sip_tail_append [of r] r assms
    by (simp add: atm_siphash_def Let_def unat_and_7 i_def)
  then show ?thesis by blast
qed



text \<open>
  Whatever the clock, the process id and \<^verbatim>\<open>rand()\<close> give, the seed has 16 bytes
  and each of them is one of 16 hex digits; the process id never enters it, because the
  two clock fields already fill the 16 bytes.
\<close>

theorem atm_siphash_init_charset:
  assumes "length tv_usec = 8" "length tv_sec = 8" "length pid = 4" "length pid' = 4"
  shows "length (atm_siphash_init tv_usec tv_sec pid rnd) = 16
    \<and> set (atm_siphash_init tv_usec tv_sec pid rnd) \<subseteq> set sip_charset
    \<and> atm_siphash_init tv_usec tv_sec pid rnd = atm_siphash_init tv_usec tv_sec pid' rnd"
proof -
  have nib: "unat ((w::u8) AND 0x0F) < 16" for w
  proof -
    have "w AND 0x0F \<le> 0x0F" by (rule word_and_le1)
    then show ?thesis by (simp add: word_le_nat_alt)
  qed
  have "sip_charset ! i \<in> set sip_charset" if "i < 16" for i
    using that by (intro nth_mem) (simp add: sip_charset_def)
  with nib have "set (atm_siphash_init tv_usec tv_sec pid rnd) \<subseteq> set sip_charset"
    unfolding atm_siphash_init_def Let_def set_map by (intro image_subsetI) blast
  then show ?thesis
    using assms by (simp add: atm_siphash_init_def Let_def sip_fill_def)
qed

theorem atm_siphash_init_charset_witness:
  "set (atm_siphash_init (replicate 8 7) (replicate 8 9) (replicate 4 1) of_nat) \<subseteq> set sip_charset
   \<and> atm_siphash_init (replicate 8 7) (replicate 8 9) (replicate 4 1) of_nat
     = atm_siphash_init (replicate 8 7) (replicate 8 9) (replicate 4 2) of_nat"
  using atm_siphash_init_charset
    [of "replicate 8 7" "replicate 8 9" "replicate 4 1" "replicate 4 2" of_nat,
      OF length_replicate length_replicate length_replicate length_replicate]
  by blast

end
