(* ===== verification/Atm_Core.thy ===== *)
theory Atm_Core
  imports Atm_Prelude
begin

text \<open>
  The types of \<^verbatim>\<open>src/core/atm_core.h\<close> and of the string header (\<^verbatim>\<open>src/core/atm_str.h\<close>) that
  the containers share. A pointer to a struct that a caller may pass as NULL is an
  option; a pointer that is never NULL in the code is the struct itself.
\<close>

definition ATM_OK :: int where "ATM_OK = 0"
definition ATM_ERROR :: int where "ATM_ERROR = -1"

definition ATM_FREE_SHALLOW :: u32 where "ATM_FREE_SHALLOW = 0"
definition ATM_FREE_DEEP :: u32 where "ATM_FREE_DEEP = 1"

lemma free_type_neq [simp]: "ATM_FREE_SHALLOW \<noteq> ATM_FREE_DEEP" "ATM_FREE_DEEP \<noteq> ATM_FREE_SHALLOW"
  by (simp_all add: ATM_FREE_SHALLOW_def ATM_FREE_DEEP_def)

text \<open>
  The string object: capacity, length and the \<^verbatim>\<open>val\<close> array as it was allocated (all of the
  allocation behind the 8 bytes of the packed header).
\<close>

record atm_str_hdr =
  str_cap :: u32
  str_len :: u32
  str_val :: "char list"

type_synonym atm_str = "atm_str_hdr option"

text \<open>
  The table of operations of a contained type. A function pointer that may be NULL is an
  option; \<^verbatim>\<open>T_id\<close> stands for the address of the table, which the code compares; of
  \<^verbatim>\<open>free\<close> only the presence is kept, and the operations report the values they pass to it.
\<close>

record 'v atm_T =
  T_id :: string
  T_match :: "('v \<Rightarrow> 'v \<Rightarrow> bool res) option"
  T_hash :: "('v \<Rightarrow> u64 res) option"
  T_compare :: "('v \<Rightarrow> 'v \<Rightarrow> int res) option"
  T_str :: "('v \<Rightarrow> atm_str) option"
  T_free :: bool

text \<open>
  The contract of a key type: matching is an equivalence on the keys in use, given by a
  notion of identity \<^verbatim>\<open>kid\<close>, and keys that match have the same hash. The dictionary is
  correct for every table of operations that keeps it.
\<close>

locale key_type =
  fixes kt :: "'k atm_T" and ok :: "'k \<Rightarrow> bool" and kid :: "'k \<Rightarrow> 'i" and kh :: "'i \<Rightarrow> u64"
  assumes match_ok: "ok a \<Longrightarrow> ok b \<Longrightarrow>
      \<exists>m. T_match kt = Some m \<and> m a b = Inr (kid a = kid b)"
    and hash_ok: "ok a \<Longrightarrow> \<exists>h. T_hash kt = Some h \<and> h a = Inr (kh (kid a))"

end
