(* ===== verification/Atm_List.thy ===== *)
theory Atm_List
  imports Atm_Core
begin

text \<open>
  \<^verbatim>\<open>src/core/atm_list.c\<close>: the doubly linked list under all containers. The nodes of a list
  live in a heap of its own, \<^verbatim>\<open>l_heap\<close>, because a node belongs to exactly one list (its
  \<^verbatim>\<open>list\<close> field, which is therefore left out); \<^verbatim>\<open>l_brk\<close> is the next address the allocator
  gives. The refinement: under the representation predicate every pointer operation is
  the operation on a HOL list that its name says, faults are impossible, and the
  predicate is kept. The locale \<^verbatim>\<open>deque\<close> is that contract for the clients.
\<close>

section \<open>The data\<close>

record 'v list_entry =
  le_val :: 'v
  le_prev :: "addr option"
  le_next :: "addr option"

record 'v atm_list =
  l_free_type :: u32
  l_v_type :: "'v atm_T option"
  l_head :: "addr option"
  l_tail :: "addr option"
  l_size :: u32
  l_heap :: "addr \<rightharpoonup> 'v list_entry"
  l_brk :: addr

record list_iter =
  it_curr :: "addr option"

section \<open>The operations\<close>

definition get_ent :: "'v atm_list \<Rightarrow> addr \<Rightarrow> 'v list_entry res" where
  "get_ent l a = of_some Bad_access (l_heap l a)"

definition set_ent :: "addr \<Rightarrow> 'v list_entry \<Rightarrow> 'v atm_list \<Rightarrow> 'v atm_list" where
  "set_ent a e l = l\<lparr>l_heap := (l_heap l)(a \<mapsto> e)\<rparr>"

definition set_prev :: "addr \<Rightarrow> addr option \<Rightarrow> 'v atm_list \<Rightarrow> 'v atm_list res" where
  "set_prev a p l = res_map (\<lambda>e. set_ent a (e\<lparr>le_prev := p\<rparr>) l) (get_ent l a)"

definition set_next :: "addr \<Rightarrow> addr option \<Rightarrow> 'v atm_list \<Rightarrow> 'v atm_list res" where
  "set_next a n l = res_map (\<lambda>e. set_ent a (e\<lparr>le_next := n\<rparr>) l) (get_ent l a)"

definition free_ent :: "addr \<Rightarrow> 'v atm_list \<Rightarrow> 'v atm_list" where
  "free_ent a l = l\<lparr>l_heap := (l_heap l)(a := None)\<rparr>"

definition atm_list_new :: "'v atm_T option \<Rightarrow> u32 \<Rightarrow> 'v atm_list" where
  "atm_list_new v_type f_type =
     \<lparr>l_free_type = f_type, l_v_type = v_type, l_head = None, l_tail = None, l_size = 0,
      l_heap = Map.empty, l_brk = 0\<rparr>"

definition atm_list_entry_isol :: "addr \<Rightarrow> 'v atm_list \<Rightarrow> 'v atm_list res" where
  "atm_list_entry_isol a l = res_bind (set_prev a None l) (set_next a None)"

definition atm_list_entry_new :: "'v \<Rightarrow> 'v atm_list \<Rightarrow> addr \<times> 'v atm_list" where
  "atm_list_entry_new v l =
     (l_brk l, (set_ent (l_brk l) \<lparr>le_val = v, le_prev = None, le_next = None\<rparr> l)
                 \<lparr>l_brk := Suc (l_brk l)\<rparr>)"

text \<open>Returns the values handed to the type's \<^verbatim>\<open>free\<close>: one for a deep list, none else.\<close>

definition atm_list_entry_free :: "addr \<Rightarrow> 'v atm_list \<Rightarrow> ('v list \<times> 'v atm_list) res" where
  "atm_list_entry_free a l =
     res_bind (atm_list_entry_isol a l) (\<lambda>l.
     res_bind (get_ent l a) (\<lambda>e.
       if l_free_type l = ATM_FREE_DEEP then
         (case l_v_type l of
            Some t \<Rightarrow> if T_free t then Inr ([le_val e], free_ent a l) else Inl (Exit ATM_ERROR)
          | None \<Rightarrow> Inl (Exit ATM_ERROR))
       else Inr ([], free_ent a l)))"

definition list_match :: "'v atm_list \<Rightarrow> 'v \<Rightarrow> 'v \<Rightarrow> bool res" where
  "list_match l x y =
     (case l_v_type l of None \<Rightarrow> Inl Null_deref
      | Some t \<Rightarrow> (case T_match t of None \<Rightarrow> Inl Null_deref | Some m \<Rightarrow> m x y))"

text \<open>
  The scan of the nodes. Its fuel is one more than the number of addresses ever given, so
  it is only spent on a cyclic list, on which the code does not return either.
\<close>

fun find_loop :: "nat \<Rightarrow> 'v atm_list \<Rightarrow> addr option \<Rightarrow> 'v \<Rightarrow> addr option res" where
  "find_loop 0 l cur hint = Inl No_return"
| "find_loop (Suc n) l None hint = Inr None"
| "find_loop (Suc n) l (Some a) hint =
     res_bind (get_ent l a) (\<lambda>e.
     res_bind (list_match l (le_val e) hint) (\<lambda>b.
       if b then Inr (Some a) else find_loop n l (le_next e) hint))"

definition atm_list_find_linear :: "'v atm_list \<Rightarrow> 'v \<Rightarrow> addr option res" where
  "atm_list_find_linear l hint = find_loop (Suc (l_brk l)) l (l_head l) hint"

definition atm_list_find_entry :: "'v atm_list \<Rightarrow> 'v \<Rightarrow> addr option res" where
  "atm_list_find_entry l hint = atm_list_find_linear l hint"

definition atm_list_lpop_entry :: "'v atm_list \<Rightarrow> (addr option \<times> 'v atm_list) res" where
  "atm_list_lpop_entry l =
     (case l_head l of
        None \<Rightarrow> Inr (None, l)
      | Some a \<Rightarrow>
          res_bind (get_ent l a) (\<lambda>e.
          let l = l\<lparr>l_head := le_next e\<rparr> in
          res_bind (case l_head l of None \<Rightarrow> Inr l | Some b \<Rightarrow> set_prev b None l) (\<lambda>l.
          let l = (if l_tail l = Some a then l\<lparr>l_tail := None\<rparr> else l);
              l = l\<lparr>l_size := l_size l - 1\<rparr>
          in res_map (\<lambda>l. (Some a, l)) (atm_list_entry_isol a l))))"

definition atm_list_rpop_entry :: "'v atm_list \<Rightarrow> (addr option \<times> 'v atm_list) res" where
  "atm_list_rpop_entry l =
     (case l_tail l of
        None \<Rightarrow> Inr (None, l)
      | Some a \<Rightarrow>
          res_bind (get_ent l a) (\<lambda>e.
          let l = l\<lparr>l_tail := le_prev e\<rparr> in
          res_bind (case l_tail l of None \<Rightarrow> Inr l | Some b \<Rightarrow> set_next b None l) (\<lambda>l.
          let l = (if l_head l = Some a then l\<lparr>l_head := None\<rparr> else l);
              l = l\<lparr>l_size := l_size l - 1\<rparr>
          in res_map (\<lambda>l. (Some a, l)) (atm_list_entry_isol a l))))"

definition atm_list_push :: "'v atm_list \<Rightarrow> 'v \<Rightarrow> 'v atm_list res" where
  "atm_list_push l v =
     (case atm_list_entry_new v l of (entry, l) \<Rightarrow>
      res_map (\<lambda>l. l\<lparr>l_size := l_size l + 1\<rparr>)
        (case l_tail l of
           None \<Rightarrow>
             (if l_head l = None then Inr (l\<lparr>l_head := Some entry, l_tail := Some entry\<rparr>)
              else Inl (Exit ATM_ERROR))
         | Some t \<Rightarrow>
             res_bind (set_next t (Some entry) l) (\<lambda>l.
             res_map (\<lambda>l. l\<lparr>l_tail := Some entry\<rparr>) (set_prev entry (Some t) l))))"

definition atm_list_del :: "'v atm_list \<Rightarrow> 'v \<Rightarrow> ('v list \<times> 'v atm_list) res" where
  "atm_list_del l hint =
     res_bind (atm_list_find_entry l hint) (\<lambda>entry.
       case entry of
         None \<Rightarrow> Inr ([], l)
       | Some cur \<Rightarrow>
           res_bind (get_ent l cur) (\<lambda>e.
           res_bind
             (case (le_prev e, le_next e) of
                (None, None) \<Rightarrow> Inr (l\<lparr>l_head := None, l_tail := None\<rparr>)
              | (None, Some nx) \<Rightarrow>
                  res_map (\<lambda>l. l\<lparr>l_head := Some nx\<rparr>) (set_prev nx None l)
              | (Some pv, None) \<Rightarrow>
                  res_map (\<lambda>l. l\<lparr>l_tail := Some pv\<rparr>) (set_next pv None l)
              | (Some pv, Some nx) \<Rightarrow>
                  res_bind (set_next pv (Some nx) l) (set_prev nx (Some pv)))
             (\<lambda>l. atm_list_entry_free cur (l\<lparr>l_size := l_size l - 1\<rparr>))))"

definition atm_list_find :: "'v atm_list \<Rightarrow> 'v \<Rightarrow> 'v option res" where
  "atm_list_find l hint =
     res_bind (atm_list_find_entry l hint) (\<lambda>entry.
       case entry of None \<Rightarrow> Inr None
       | Some a \<Rightarrow> res_map (\<lambda>e. Some (le_val e)) (get_ent l a))"

definition atm_list_lpop :: "'v atm_list \<Rightarrow> ('v option \<times> 'v atm_list) res" where
  "atm_list_lpop l =
     res_bind (atm_list_lpop_entry l) (\<lambda>(entry, l).
       case entry of None \<Rightarrow> Inr (None, l)
       | Some a \<Rightarrow> res_map (\<lambda>e. (Some (le_val e), free_ent a l)) (get_ent l a))"

definition atm_list_rpop :: "'v atm_list \<Rightarrow> ('v option \<times> 'v atm_list) res" where
  "atm_list_rpop l =
     res_bind (atm_list_rpop_entry l) (\<lambda>(entry, l).
       case entry of None \<Rightarrow> Inr (None, l)
       | Some a \<Rightarrow> res_map (\<lambda>e. (Some (le_val e), free_ent a l)) (get_ent l a))"

definition atm_list_lpeek :: "'v atm_list \<Rightarrow> 'v option res" where
  "atm_list_lpeek l =
     (case l_head l of None \<Rightarrow> Inr None
      | Some a \<Rightarrow> res_map (\<lambda>e. Some (le_val e)) (get_ent l a))"

definition atm_list_rpeek :: "'v atm_list \<Rightarrow> 'v option res" where
  "atm_list_rpeek l =
     (case l_tail l of None \<Rightarrow> Inr None
      | Some a \<Rightarrow> res_map (\<lambda>e. Some (le_val e)) (get_ent l a))"

text \<open>The popping loop of \<^verbatim>\<open>atm_list_clear\<close>, with the values freed on the way.\<close>

fun clear_loop :: "nat \<Rightarrow> 'v atm_list \<Rightarrow> ('v list \<times> 'v atm_list) res" where
  "clear_loop 0 l = Inl No_return"
| "clear_loop (Suc n) l =
     res_bind (atm_list_lpop_entry l) (\<lambda>(entry, l).
       case entry of None \<Rightarrow> Inr ([], l)
       | Some a \<Rightarrow>
           res_bind (atm_list_entry_free a l) (\<lambda>(fs, l).
             res_map (\<lambda>(gs, l). (fs @ gs, l)) (clear_loop n l)))"

definition atm_list_clear :: "'v atm_list \<Rightarrow> ('v list \<times> 'v atm_list) res" where
  "atm_list_clear l = clear_loop (Suc (l_brk l)) l"

text \<open>Freeing the list clears it; what is left is the trace of freed values.\<close>

definition atm_list_free :: "'v atm_list \<Rightarrow> 'v list res" where
  "atm_list_free l = res_map fst (atm_list_clear l)"

definition atm_list_iter_new :: "'v atm_list \<Rightarrow> list_iter" where
  "atm_list_iter_new l = \<lparr>it_curr = l_head l\<rparr>"

definition atm_list_next :: "'v atm_list \<Rightarrow> list_iter \<Rightarrow> ('v option \<times> list_iter) res" where
  "atm_list_next l it =
     (case it_curr it of None \<Rightarrow> Inr (None, it)
      | Some a \<Rightarrow> res_map (\<lambda>e. (Some (le_val e), it\<lparr>it_curr := le_next e\<rparr>)) (get_ent l a))"

definition atm_list_iter_reset :: "'v atm_list \<Rightarrow> list_iter \<Rightarrow> list_iter" where
  "atm_list_iter_reset l it = it\<lparr>it_curr := l_head l\<rparr>"

text \<open>
  A write through the pointer that \<^verbatim>\<open>atm_list_find\<close> returned: the value of the node changes
  in place (the dictionary stores into \<^verbatim>\<open>entry->val\<close>, the buffer moves the indices of a block).
\<close>

definition list_poke :: "'v atm_list \<Rightarrow> addr \<Rightarrow> 'v \<Rightarrow> 'v atm_list res" where
  "list_poke l a v = res_map (\<lambda>e. set_ent a (e\<lparr>le_val := v\<rparr>) l) (get_ent l a)"

section \<open>Doubly linked segments\<close>

text \<open>
  \<^verbatim>\<open>dll h p ps n\<close>: the nodes \<^verbatim>\<open>ps\<close> (address and value) are linked in this order in the
  heap \<^verbatim>\<open>h\<close>, the first one's \<^verbatim>\<open>prev\<close> is \<^verbatim>\<open>p\<close> and the last one's \<^verbatim>\<open>next\<close> is \<^verbatim>\<open>n\<close>.
\<close>

definition first_addr :: "addr option \<Rightarrow> (addr \<times> 'v) list \<Rightarrow> addr option" where
  "first_addr n ps = (case ps of [] \<Rightarrow> n | x # _ \<Rightarrow> Some (fst x))"

definition last_addr :: "addr option \<Rightarrow> (addr \<times> 'v) list \<Rightarrow> addr option" where
  "last_addr p ps = (if ps = [] then p else Some (fst (last ps)))"

fun dll :: "(addr \<rightharpoonup> 'v list_entry) \<Rightarrow> addr option \<Rightarrow> (addr \<times> 'v) list \<Rightarrow> addr option \<Rightarrow> bool" where
  "dll h p [] n = True"
| "dll h p ((a, v) # ps) n =
     (h a = Some \<lparr>le_val = v, le_prev = p, le_next = first_addr n ps\<rparr> \<and> dll h (Some a) ps n)"

definition list_rep :: "'v atm_list \<Rightarrow> (addr \<times> 'v) list \<Rightarrow> bool" where
  "list_rep l ps \<longleftrightarrow>
     dll (l_heap l) None ps None \<and> distinct (map fst ps)
     \<and> l_head l = first_addr None ps \<and> l_tail l = last_addr None ps
     \<and> l_size l = of_nat (length ps)
     \<and> dom (l_heap l) = fst ` set ps \<and> (\<forall>a\<in>fst ` set ps. a < l_brk l)"

lemma first_addr_simps [simp]:
  "first_addr n [] = n" "first_addr n (x # ps) = Some (fst x)"
  by (simp_all add: first_addr_def)

lemma first_addr_append [simp]:
  "first_addr n (ps @ qs) = first_addr (first_addr n qs) ps"
  by (cases ps) simp_all

lemma last_addr_simps [simp]:
  "last_addr p [] = p" "last_addr p (ps @ [x]) = Some (fst x)"
  "last_addr p (x # ps) = last_addr (Some (fst x)) ps"
  by (simp_all add: last_addr_def)

lemma last_addr_append [simp]: "last_addr p (ps @ qs) = last_addr (last_addr p ps) qs"
  by (induction ps arbitrary: p) simp_all

lemma first_addr_None: "first_addr None ps = None \<longleftrightarrow> ps = []"
  by (cases ps) simp_all

lemma last_addr_None: "last_addr None ps = None \<longleftrightarrow> ps = []"
  by (simp add: last_addr_def)

lemma dll_append:
  "dll h p (ps @ qs) n \<longleftrightarrow> dll h p ps (first_addr n qs) \<and> dll h (last_addr p ps) qs n"
proof (induction ps arbitrary: p)
  case (Cons x ps)
  then show ?case by (cases x) simp
qed simp

lemma dll_upd: "a \<notin> fst ` set ps \<Longrightarrow> dll (h(a := x)) p ps n = dll h p ps n"
proof (induction ps arbitrary: p)
  case (Cons y ps)
  then show ?case by (cases y) simp
qed simp

lemma dll_set_prev:
  "dll h p ((a, v) # qs) n \<Longrightarrow> a \<notin> fst ` set qs \<Longrightarrow>
   dll (h(a \<mapsto> \<lparr>le_val = v, le_prev = p', le_next = first_addr n qs\<rparr>)) p' ((a, v) # qs) n"
  by (simp add: dll_upd)

lemma dll_set_next:
  "dll h p (ps @ [(a, v)]) n \<Longrightarrow> a \<notin> fst ` set ps \<Longrightarrow>
   dll (h(a \<mapsto> \<lparr>le_val = v, le_prev = last_addr p ps, le_next = n'\<rparr>)) p (ps @ [(a, v)]) n'"
  by (simp add: dll_append dll_upd)

lemma dll_lookup:
  "dll h p (ps @ (a, v) # qs) n \<Longrightarrow>
   h a = Some \<lparr>le_val = v, le_prev = last_addr p ps, le_next = first_addr n qs\<rparr>"
  by (simp add: dll_append)

lemma list_rep_length:
  assumes "list_rep l ps"
  shows "length ps \<le> l_brk l"
proof -
  have "fst ` set ps \<subseteq> {..<l_brk l}" using assms by (auto simp: list_rep_def)
  then have "card (fst ` set ps) \<le> l_brk l"
    using card_mono [of "{..<l_brk l}"] by fastforce
  moreover have "card (fst ` set ps) = length ps"
    using assms distinct_card [of "map fst ps"] by (simp add: list_rep_def)
  ultimately show ?thesis by simp
qed

lemma list_rep_tl_notin:
  "list_rep l (ps @ (a, v) # qs) \<Longrightarrow> a \<notin> fst ` set ps \<and> a \<notin> fst ` set qs
    \<and> fst ` set ps \<inter> fst ` set qs = {}"
  by (auto simp: list_rep_def)

lemma list_rep_get:
  "list_rep l (ps @ (a, v) # qs) \<Longrightarrow>
   get_ent l a = Inr \<lparr>le_val = v, le_prev = last_addr None ps, le_next = first_addr None qs\<rparr>"
  using dll_lookup [of "l_heap l" None ps a v qs None] by (simp add: list_rep_def get_ent_def)

section \<open>The operations on represented lists\<close>

named_theorems list_ops
lemmas [list_ops] = get_ent_def set_ent_def set_prev_def set_next_def free_ent_def
  atm_list_entry_isol_def atm_list_entry_new_def atm_list_entry_free_def Let_def

lemma list_rep_new: "list_rep (atm_list_new t f) []"
  by (simp add: list_rep_def atm_list_new_def)

lemma list_rep_push:
  assumes "list_rep l ps"
  shows "\<exists>l'. atm_list_push l v = Inr l' \<and> list_rep l' (ps @ [(l_brk l, v)])
    \<and> l_free_type l' = l_free_type l \<and> l_v_type l' = l_v_type l"
proof (cases ps rule: rev_cases)
  case Nil
  with assms show ?thesis
    by (simp add: atm_list_push_def list_ops list_rep_def dom_def)
next
  case (snoc qs x)
  obtain t w where x: "x = (t, w)" by (cases x)
  let ?a = "l_brk l"
  note rep = assms [unfolded list_rep_def snoc x]
  have a: "?a \<notin> fst ` set ps" and at: "?a \<noteq> t" and tq: "t \<notin> fst ` set qs"
    using rep snoc x by auto
  have ht: "l_heap l t = Some \<lparr>le_val = w, le_prev = last_addr None qs, le_next = None\<rparr>"
    using rep dll_lookup [of "l_heap l" None qs t w "[]" None] by simp
  have "dll ((l_heap l)(t \<mapsto> \<lparr>le_val = w, le_prev = last_addr None qs, le_next = Some ?a\<rparr>))
      None (qs @ [(t, w)]) (Some ?a)"
    by (rule dll_set_next [where n = None]) (use rep tq in auto)
  then have "dll ((l_heap l)(t \<mapsto> \<lparr>le_val = w, le_prev = last_addr None qs, le_next = Some ?a\<rparr>,
      ?a \<mapsto> \<lparr>le_val = v, le_prev = Some t, le_next = None\<rparr>))
      None ((qs @ [(t, w)]) @ [(?a, v)]) None"
    using a snoc x by (subst dll_append) (simp add: dll_upd)
  then show ?thesis
    using rep at ht a snoc x
    by (auto simp: atm_list_push_def list_ops list_rep_def fun_upd_twist)
qed

lemma list_rep_lpeek:
  "list_rep l ps \<Longrightarrow>
   atm_list_lpeek l = Inr (case ps of [] \<Rightarrow> None | x # _ \<Rightarrow> Some (snd x))"
  using list_rep_get [of l "[]"]
  by (cases ps) (auto simp: atm_list_lpeek_def list_rep_def)

lemma list_rep_rpeek:
  "list_rep l ps \<Longrightarrow>
   atm_list_rpeek l = Inr (if ps = [] then None else Some (snd (last ps)))"
  using list_rep_get [of l "butlast ps" "fst (last ps)" "snd (last ps)" "[]"]
  by (cases ps rule: rev_cases) (auto simp: atm_list_rpeek_def list_rep_def)

text \<open>Both ends: popping takes the first, or the last, node off the representation.\<close>

definition list_type :: "'v atm_list \<Rightarrow> u32 \<times> 'v atm_T option" where
  "list_type l = (l_free_type l, l_v_type l)"

lemma list_rep_lpop:
  assumes "list_rep l ((a, v) # ps)"
  shows "\<exists>l'. atm_list_lpop_entry l = Inr (Some a, l')
    \<and> get_ent l' a = Inr \<lparr>le_val = v, le_prev = None, le_next = None\<rparr>
    \<and> list_rep (free_ent a l') ps \<and> list_type l' = list_type l
    \<and> l_brk l' = l_brk l"
proof (cases ps)
  case Nil
  with assms show ?thesis
    by (auto simp: atm_list_lpop_entry_def list_ops list_rep_def list_type_def dom_def)
next
  case (Cons y qs)
  obtain b w where y: "y = (b, w)" by (cases y)
  note rep = assms [unfolded list_rep_def Cons y]
  have nb: "b \<notin> fst ` set qs" "a \<noteq> b" "a \<notin> fst ` set qs" using rep by auto
  have ha: "l_heap l a = Some \<lparr>le_val = v, le_prev = None, le_next = Some b\<rparr>"
    and hb: "l_heap l b = Some \<lparr>le_val = w, le_prev = Some a, le_next = first_addr None qs\<rparr>"
    using rep by auto
  have "dll ((l_heap l)(b \<mapsto> \<lparr>le_val = w, le_prev = None, le_next = first_addr None qs\<rparr>))
      None ((b, w) # qs) None"
    by (rule dll_set_prev) (use rep nb in auto)
  moreover have "l_tail l \<noteq> Some a"
    using rep nb by (cases qs rule: rev_cases) auto
  ultimately show ?thesis
    using rep nb ha hb Cons y
    by (auto simp: atm_list_lpop_entry_def list_ops list_rep_def list_type_def dll_upd)
qed

lemma list_rep_rpop:
  assumes "list_rep l (ps @ [(a, v)])"
  shows "\<exists>l'. atm_list_rpop_entry l = Inr (Some a, l')
    \<and> get_ent l' a = Inr \<lparr>le_val = v, le_prev = None, le_next = None\<rparr>
    \<and> list_rep (free_ent a l') ps \<and> list_type l' = list_type l
    \<and> l_brk l' = l_brk l"
proof (cases ps rule: rev_cases)
  case Nil
  with assms show ?thesis
    by (auto simp: atm_list_rpop_entry_def list_ops list_rep_def list_type_def dom_def)
next
  case (snoc qs y)
  obtain b w where y: "y = (b, w)" by (cases y)
  note rep = assms [unfolded list_rep_def snoc y]
  have nb: "b \<notin> fst ` set qs" "a \<noteq> b" "a \<notin> fst ` set qs" using rep by auto
  have ha: "l_heap l a = Some \<lparr>le_val = v, le_prev = Some b, le_next = None\<rparr>"
    and hb: "l_heap l b = Some \<lparr>le_val = w, le_prev = last_addr None qs, le_next = Some a\<rparr>"
    using rep dll_lookup [of "l_heap l" None qs b w "[(a, v)]" None] by (auto simp: dll_append)
  have "dll (l_heap l) None (qs @ [(b, w)]) (Some a)"
    using rep by (simp add: dll_append)
  then have "dll ((l_heap l)(b \<mapsto> \<lparr>le_val = w, le_prev = last_addr None qs, le_next = None\<rparr>))
      None (qs @ [(b, w)]) None"
    by (rule dll_set_next) (use nb in auto)
  moreover have "l_head l \<noteq> Some a"
    using rep nb by (cases qs) auto
  ultimately show ?thesis
    using rep nb ha hb snoc y
    by (auto simp: atm_list_rpop_entry_def list_ops list_rep_def list_type_def dll_upd)
qed

text \<open>The scan finds the first node that matches; the matcher is pure on the values.\<close>

lemma find_loop_rep:
  assumes "dll (l_heap l) p ps None" "length ps < n"
    and "\<forall>x\<in>set ps. list_match l (snd x) hint = Inr (P (snd x))"
  shows "find_loop n l (first_addr None ps) hint =
    Inr (map_option fst (List.find (\<lambda>x. P (snd x)) ps))"
  using assms
proof (induction ps arbitrary: n p)
  case Nil
  then show ?case by (cases n) simp_all
next
  case (Cons x ps)
  obtain a v where x: "x = (a, v)" by (cases x)
  obtain m where n: "n = Suc m" using Cons.prems(2) by (cases n) simp_all
  have "find_loop m l (first_addr None ps) hint =
      Inr (map_option fst (List.find (\<lambda>x. P (snd x)) ps))"
    by (rule Cons.IH) (use Cons.prems x n in auto)
  then show ?case using Cons.prems x n by (simp add: get_ent_def)
qed

lemma list_rep_find:
  assumes "list_rep l ps" "\<forall>x\<in>set ps. list_match l (snd x) hint = Inr (P (snd x))"
  shows "atm_list_find_entry l hint = Inr (map_option fst (List.find (\<lambda>x. P (snd x)) ps))"
proof -
  have "find_loop (Suc (l_brk l)) l (first_addr None ps) hint =
      Inr (map_option fst (List.find (\<lambda>x. P (snd x)) ps))"
    by (rule find_loop_rep) (use assms list_rep_length [OF assms(1)] in \<open>auto simp: list_rep_def\<close>)
  then show ?thesis
    using assms(1) by (simp add: atm_list_find_entry_def atm_list_find_linear_def list_rep_def)
qed

text \<open>Unlinking a node: the four cases of \<^verbatim>\<open>atm_list_del\<close> agree on the segments.\<close>

lemma dll_relink:
  assumes "dll h None (ps @ (a, v) # qs) None" "distinct (map fst (ps @ (a, v) # qs))"
    and h1: "h1 = (if ps = [] then h else
        h(fst (last ps) \<mapsto> (the (h (fst (last ps))))\<lparr>le_next := first_addr None qs\<rparr>))"
    and h2: "h2 = (if qs = [] then h1 else
        h1(fst (hd qs) \<mapsto> (the (h1 (fst (hd qs))))\<lparr>le_prev := last_addr None ps\<rparr>))"
  shows "dll (h2(a := x)) None (ps @ qs) None"
proof -
  have d: "dll h None ps (Some a)" "dll h (Some a) qs None"
    using assms(1) by (simp_all add: dll_append)
  have dist: "a \<notin> fst ` set ps" "a \<notin> fst ` set qs" "fst ` set ps \<inter> fst ` set qs = {}"
    "distinct (map fst ps)" "distinct (map fst qs)"
    using assms(2) by auto
  have d1: "dll h1 None ps (first_addr None qs) \<and> dll h1 (Some a) qs None"
  proof (cases ps rule: rev_cases)
    case (snoc ps' y)
    obtain b w where y: "y = (b, w)" by (cases y)
    have hb: "h b = Some \<lparr>le_val = w, le_prev = last_addr None ps', le_next = Some a\<rparr>"
      using d(1) snoc y by (simp add: dll_append)
    have "dll (h(b \<mapsto> \<lparr>le_val = w, le_prev = last_addr None ps', le_next = first_addr None qs\<rparr>))
        None (ps' @ [(b, w)]) (first_addr None qs)"
      by (rule dll_set_next) (use d(1) dist snoc y in auto)
    then show ?thesis using d(2) dist snoc y hb h1 by (auto simp: dll_upd)
  qed (use d h1 in auto)
  have d2: "dll h2 None ps (first_addr None qs) \<and> dll h2 (last_addr None ps) qs None"
  proof (cases qs)
    case (Cons y qs')
    obtain b w where y: "y = (b, w)" by (cases y)
    have hb: "h1 b = Some \<lparr>le_val = w, le_prev = Some a, le_next = first_addr None qs'\<rparr>"
      using d1 Cons y by simp
    have "dll (h1(b \<mapsto> \<lparr>le_val = w, le_prev = last_addr None ps, le_next = first_addr None qs'\<rparr>))
        (last_addr None ps) ((b, w) # qs') None"
      by (rule dll_set_prev [where p = "Some a"]) (use d1 dist Cons y in auto)
    moreover have "b \<notin> fst ` set ps" using dist Cons y by auto
    ultimately show ?thesis using d1 dist Cons y hb h2 by (simp add: dll_upd)
  qed (use d1 h2 in auto)
  show ?thesis
    using d2 dist by (simp add: dll_append dll_upd)
qed

lemma list_rep_del:
  assumes rep: "list_rep l (ps @ (a, v) # qs)"
    and find: "atm_list_find_entry l hint = Inr (Some a)"
    and free: "l_free_type l \<noteq> ATM_FREE_DEEP"
  shows "\<exists>l'. atm_list_del l hint = Inr ([], l') \<and> list_rep l' (ps @ qs)
    \<and> list_type l' = list_type l"
proof -
  note r = rep [unfolded list_rep_def]
  have dist: "a \<notin> fst ` set ps" "a \<notin> fst ` set qs" "fst ` set ps \<inter> fst ` set qs = {}"
    using r by auto
  have ha: "l_heap l a = Some \<lparr>le_val = v, le_prev = last_addr None ps, le_next = first_addr None qs\<rparr>"
    using r dll_lookup [of "l_heap l" None ps a v qs None] by simp
  note relink = dll_relink [OF _ _ refl refl, of "l_heap l" ps a v qs]
  have dll: "dll (l_heap l) None (ps @ (a, v) # qs) None" using r by simp
  have dom: "dom (l_heap l) = fst ` set (ps @ (a, v) # qs)" using r by simp
  show ?thesis
  proof (cases ps rule: rev_cases; cases qs)
    assume "ps = []" "qs = []"
    then show ?thesis
      using r ha find free by (auto simp: atm_list_del_def list_ops list_rep_def list_type_def dom_def)
  next
    fix y qs' assume 1: "ps = []" "qs = y # qs'"
    obtain b w where y: "y = (b, w)" by (cases y)
    have "l_heap l b \<noteq> None" using dom 1 y by (auto simp: dom_def)
    moreover have "a \<noteq> b" using dist 1 y by auto
    ultimately show ?thesis
      using r ha find free 1 y relink
      by (auto simp: atm_list_del_def list_ops list_rep_def list_type_def fun_upd_twist)
  next
    fix ps' y assume 1: "ps = ps' @ [y]" "qs = []"
    obtain b w where y: "y = (b, w)" by (cases y)
    have "l_heap l b \<noteq> None" using dom 1 y by (auto simp: dom_def)
    moreover have "a \<noteq> b" using dist 1 y by auto
    ultimately show ?thesis
      using r ha find free 1 y relink
      by (auto simp: atm_list_del_def list_ops list_rep_def list_type_def fun_upd_twist)
  next
    fix ps' y z qs' assume 1: "ps = ps' @ [y]" "qs = z # qs'"
    obtain b w where y: "y = (b, w)" by (cases y)
    obtain c u where z: "z = (c, u)" by (cases z)
    have "l_heap l b \<noteq> None" "l_heap l c \<noteq> None" using dom 1 y z by (auto simp: dom_def)
    moreover have "a \<noteq> b" "a \<noteq> c" "b \<noteq> c" using dist 1 y z by auto
    ultimately show ?thesis
      using r ha find free 1 y z relink
      by (auto simp: atm_list_del_def list_ops list_rep_def list_type_def fun_upd_twist)
  qed
qed

section \<open>The abstraction: a list of values\<close>

fun list_walk :: "nat \<Rightarrow> (addr \<rightharpoonup> 'v list_entry) \<Rightarrow> addr option \<Rightarrow> (addr \<times> 'v) list" where
  "list_walk 0 h p = []"
| "list_walk (Suc n) h None = []"
| "list_walk (Suc n) h (Some a) =
     (case h a of None \<Rightarrow> [] | Some e \<Rightarrow> (a, le_val e) # list_walk n h (le_next e))"

definition list_nodes :: "'v atm_list \<Rightarrow> (addr \<times> 'v) list" where
  "list_nodes l = list_walk (l_brk l) (l_heap l) (l_head l)"

definition list_vals :: "'v atm_list \<Rightarrow> 'v list" where
  "list_vals l = map snd (list_nodes l)"

definition wf_list :: "'v atm_list \<Rightarrow> bool" where
  "wf_list l \<longleftrightarrow> list_rep l (list_nodes l)"

lemma list_walk_dll:
  "dll h p ps None \<Longrightarrow> length ps \<le> n \<Longrightarrow> list_walk n h (first_addr None ps) = ps"
proof (induction ps arbitrary: n p)
  case Nil
  then show ?case by (cases n) simp_all
next
  case (Cons x ps)
  then show ?case by (cases x; cases n) auto
qed

lemma list_rep_nodes: "list_rep l ps \<Longrightarrow> list_nodes l = ps"
  using list_walk_dll [of "l_heap l" None ps "l_brk l"] list_rep_length [of l ps]
  by (simp add: list_nodes_def list_rep_def)

lemma list_rep_wf: "list_rep l ps \<Longrightarrow> wf_list l \<and> list_vals l = map snd ps"
  by (simp add: wf_list_def list_vals_def list_rep_nodes)

lemma wf_list_rep: "wf_list l \<Longrightarrow> \<exists>ps. list_rep l ps \<and> list_vals l = map snd ps"
  by (auto simp: wf_list_def list_vals_def)

lemma wf_list_new [simp]: "wf_list (atm_list_new t f)" "list_vals (atm_list_new t f) = []"
  using list_rep_wf [OF list_rep_new [of t f]] by simp_all

lemma list_new_fields [simp]:
  "l_free_type (atm_list_new t f) = f" "l_v_type (atm_list_new t f) = t"
  "l_size (atm_list_new t f) = 0"
  by (simp_all add: atm_list_new_def)

lemma list_type_new [simp]: "list_type (atm_list_new t f) = (f, t)"
  by (simp add: list_type_def atm_list_new_def)

lemma atm_list_push_vals:
  assumes "wf_list l"
  shows "\<exists>l'. atm_list_push l v = Inr l' \<and> wf_list l' \<and> list_vals l' = list_vals l @ [v]
    \<and> list_type l' = list_type l"
proof -
  obtain ps where ps: "list_rep l ps" "list_vals l = map snd ps"
    using wf_list_rep [OF assms] by blast
  from list_rep_push [OF ps(1), of v] show ?thesis
    using ps(2) by (auto simp: list_type_def dest!: list_rep_wf)
qed

lemma atm_list_lpop_vals:
  assumes "wf_list l"
  shows "case list_vals l of
      [] \<Rightarrow> atm_list_lpop l = Inr (None, l)
    | v # vs \<Rightarrow> (\<exists>l'. atm_list_lpop l = Inr (Some v, l') \<and> wf_list l' \<and> list_vals l' = vs
        \<and> list_type l' = list_type l)"
proof -
  obtain ps where ps: "list_rep l ps" "list_vals l = map snd ps"
    using wf_list_rep [OF assms] by blast
  show ?thesis
  proof (cases ps)
    case Nil
    then show ?thesis using ps
      by (simp add: atm_list_lpop_def atm_list_lpop_entry_def list_rep_def)
  next
    case (Cons x qs)
    obtain a v where x: "x = (a, v)" by (cases x)
    from list_rep_lpop [of l a v qs] ps(1) Cons x obtain l' where l':
      "atm_list_lpop_entry l = Inr (Some a, l')"
      "get_ent l' a = Inr \<lparr>le_val = v, le_prev = None, le_next = None\<rparr>"
      "list_rep (free_ent a l') qs" "list_type l' = list_type l" by blast
    then show ?thesis using ps(2) Cons x list_rep_wf [OF l'(3)]
      by (simp add: atm_list_lpop_def list_type_def free_ent_def)
  qed
qed

lemma atm_list_rpop_vals:
  assumes "wf_list l"
  shows "if list_vals l = [] then atm_list_rpop l = Inr (None, l)
    else (\<exists>l'. atm_list_rpop l = Inr (Some (last (list_vals l)), l') \<and> wf_list l'
        \<and> list_vals l' = butlast (list_vals l) \<and> list_type l' = list_type l)"
proof -
  obtain ps where ps: "list_rep l ps" "list_vals l = map snd ps"
    using wf_list_rep [OF assms] by blast
  show ?thesis
  proof (cases ps rule: rev_cases)
    case Nil
    then show ?thesis using ps
      by (simp add: atm_list_rpop_def atm_list_rpop_entry_def list_rep_def)
  next
    case (snoc qs x)
    obtain a v where x: "x = (a, v)" by (cases x)
    from list_rep_rpop [of l qs a v] ps(1) snoc x obtain l' where l':
      "atm_list_rpop_entry l = Inr (Some a, l')"
      "get_ent l' a = Inr \<lparr>le_val = v, le_prev = None, le_next = None\<rparr>"
      "list_rep (free_ent a l') qs" "list_type l' = list_type l" by blast
    then show ?thesis using ps(2) snoc x list_rep_wf [OF l'(3)]
      by (simp add: atm_list_rpop_def list_type_def free_ent_def)
  qed
qed

lemma atm_list_lpeek_vals:
  "wf_list l \<Longrightarrow> atm_list_lpeek l = Inr (case list_vals l of [] \<Rightarrow> None | v # _ \<Rightarrow> Some v)"
  by (auto dest!: wf_list_rep simp: list_rep_lpeek split: list.splits)

lemma atm_list_rpeek_vals:
  "wf_list l \<Longrightarrow>
   atm_list_rpeek l = Inr (if list_vals l = [] then None else Some (last (list_vals l)))"
  by (auto dest!: wf_list_rep simp: list_rep_rpeek last_map)

lemma l_size_vals: "wf_list l \<Longrightarrow> l_size l = of_nat (length (list_vals l))"
  by (auto dest!: wf_list_rep simp: list_rep_def)

text \<open>Searching, deleting and storing through a found node, for a pure matcher.\<close>

definition del_first :: "('v \<Rightarrow> bool) \<Rightarrow> 'v list \<Rightarrow> 'v list" where
  "del_first P xs = takeWhile (\<lambda>x. \<not> P x) xs @ tl (dropWhile (\<lambda>x. \<not> P x) xs)"

definition upd_first :: "('v \<Rightarrow> bool) \<Rightarrow> ('v \<Rightarrow> 'v) \<Rightarrow> 'v list \<Rightarrow> 'v list" where
  "upd_first P f xs = (case dropWhile (\<lambda>x. \<not> P x) xs of
     [] \<Rightarrow> xs | y # ys \<Rightarrow> takeWhile (\<lambda>x. \<not> P x) xs @ f y # ys)"

definition list_matches :: "'v atm_list \<Rightarrow> 'v \<Rightarrow> ('v \<Rightarrow> bool) \<Rightarrow> bool" where
  "list_matches l hint P \<longleftrightarrow> (\<forall>v\<in>set (list_vals l). list_match l v hint = Inr (P v))"

lemma find_Some_split:
  "List.find P xs = Some x \<Longrightarrow>
   \<exists>ys zs. xs = ys @ x # zs \<and> P x \<and> (\<forall>y\<in>set ys. \<not> P y)"
proof (induction xs)
  case (Cons a xs)
  show ?case
  proof (cases "P a")
    case True
    with Cons.prems show ?thesis by (intro exI [of _ "[]"] exI [of _ xs]) simp
  next
    case False
    with Cons obtain ys zs where "xs = ys @ x # zs" "P x" "\<forall>y\<in>set ys. \<not> P y" by auto
    with False show ?thesis by (intro exI [of _ "a # ys"] exI [of _ zs]) simp
  qed
qed simp

lemma find_split_first:
  assumes "P x" "\<forall>y\<in>set ys. \<not> P y"
  shows "List.find P (ys @ x # zs) = Some x" "del_first P (ys @ x # zs) = ys @ zs"
    "upd_first P f (ys @ x # zs) = ys @ f x # zs"
  using assms by (induction ys) (simp_all add: del_first_def upd_first_def takeWhile_append dropWhile_append
      split: list.splits)

lemma del_first_None: "List.find P xs = None \<Longrightarrow> del_first P xs = xs"
  by (induction xs) (simp_all add: del_first_def split: if_splits)

lemma upd_first_None: "List.find P xs = None \<Longrightarrow> upd_first P f xs = xs"
proof -
  assume "List.find P xs = None"
  then have "dropWhile (\<lambda>x. \<not> P x) xs = []" by (auto simp: find_None_iff dropWhile_eq_Nil_conv)
  then show ?thesis by (simp add: upd_first_def del: dropWhile_eq_Nil_conv)
qed

lemma find_map_snd: "List.find (\<lambda>x. P (snd x)) ps = Some x \<Longrightarrow> List.find P (map snd ps) = Some (snd x)"
  by (induction ps) (auto split: if_splits)

lemma find_map_snd_None:
  "List.find (\<lambda>x. P (snd x)) ps = None \<longleftrightarrow> List.find P (map snd ps) = None"
  by (induction ps) auto

text \<open>
  The node that is found, with the list split around it. The three operations that take a
  hint are corollaries: reading its value, deleting it, storing into it.
\<close>

lemma find_entry_vals:
  assumes "wf_list l" "list_matches l hint P"
  shows "(List.find P (list_vals l) = None \<and> atm_list_find_entry l hint = Inr None)
    \<or> (\<exists>ps a v qs. list_rep l (ps @ (a, v) # qs) \<and> P v \<and> (\<forall>y\<in>set (map snd ps). \<not> P y)
        \<and> list_vals l = map snd ps @ v # map snd qs
        \<and> List.find P (list_vals l) = Some v \<and> atm_list_find_entry l hint = Inr (Some a))"
proof -
  obtain rs where rs: "list_rep l rs" "list_vals l = map snd rs"
    using wf_list_rep [OF assms(1)] by blast
  have find: "atm_list_find_entry l hint = Inr (map_option fst (List.find (\<lambda>x. P (snd x)) rs))"
    by (rule list_rep_find [OF rs(1)]) (use assms(2) rs(2) in \<open>simp add: list_matches_def\<close>)
  show ?thesis
  proof (cases "List.find (\<lambda>x. P (snd x)) rs")
    case None
    then show ?thesis using find rs(2) find_map_snd_None [of P rs] by simp
  next
    case (Some x)
    obtain a v where x: "x = (a, v)" by (cases x)
    from find_Some_split [OF Some] obtain ps qs where
      sp: "rs = ps @ x # qs" "P (snd x)" "\<forall>y\<in>set ps. \<not> P (snd y)" by blast
    have "List.find P (list_vals l) = Some v \<and> atm_list_find_entry l hint = Inr (Some a)"
      using find Some rs(2) find_map_snd [OF Some] x by simp
    then show ?thesis using rs sp x by (intro disjI2) auto
  qed
qed

lemma atm_list_find_vals:
  assumes "wf_list l" "list_matches l hint P"
  shows "atm_list_find l hint = Inr (List.find P (list_vals l))"
  using find_entry_vals [OF assms] by (auto simp: atm_list_find_def list_rep_get)

lemma atm_list_del_vals:
  assumes "wf_list l" "list_matches l hint P" "l_free_type l \<noteq> ATM_FREE_DEEP"
  shows "\<exists>l'. atm_list_del l hint = Inr ([], l') \<and> wf_list l'
    \<and> list_vals l' = del_first P (list_vals l) \<and> list_type l' = list_type l"
  using find_entry_vals [OF assms(1,2)]
proof (elim disjE exE conjE)
  assume none: "List.find P (list_vals l) = None" "atm_list_find_entry l hint = Inr None"
  then have "del_first P (list_vals l) = list_vals l" by (simp only: del_first_None)
  with none show ?thesis using assms(1) by (simp add: atm_list_del_def)
next
  fix ps a v qs
  assume rep: "list_rep l (ps @ (a, v) # qs)" and v: "P v" "\<forall>y\<in>set (map snd ps). \<not> P y"
    and vals: "list_vals l = map snd ps @ v # map snd qs"
    and find: "atm_list_find_entry l hint = Inr (Some a)"
  from list_rep_del [OF rep find assms(3)] obtain l' where
    "atm_list_del l hint = Inr ([], l')" "list_rep l' (ps @ qs)" "list_type l' = list_type l"
    by blast
  with v vals show ?thesis
    by (auto simp: find_split_first dest!: list_rep_wf)
qed

lemma list_rep_poke:
  assumes "list_rep l (ps @ (a, v) # qs)"
  shows "\<exists>l'. list_poke l a w = Inr l' \<and> list_rep l' (ps @ (a, w) # qs)
    \<and> list_type l' = list_type l"
proof -
  have "a \<notin> fst ` set ps" "a \<notin> fst ` set qs" using list_rep_tl_notin [OF assms] by simp_all
  then show ?thesis
    using assms list_rep_get [OF assms]
    by (auto simp: list_poke_def set_ent_def list_rep_def list_type_def dll_append dll_upd)
qed

text \<open>Clearing: every value is popped from the left, and freed if the list is deep.\<close>

definition list_frees :: "'v atm_list \<Rightarrow> bool" where
  "list_frees l \<longleftrightarrow> l_free_type l \<noteq> ATM_FREE_DEEP \<or>
     (case l_v_type l of Some t \<Rightarrow> T_free t | None \<Rightarrow> False)"

lemma clear_loop_rep:
  assumes "list_rep l ps" "length ps < n" "list_frees l"
  shows "\<exists>l'. clear_loop n l = Inr
      (if l_free_type l = ATM_FREE_DEEP then map snd ps else [], l')
    \<and> list_rep l' [] \<and> list_type l' = list_type l"
  using assms
proof (induction ps arbitrary: n l)
  case Nil
  then obtain m where "n = Suc m" by (cases n) auto
  then show ?case using Nil by (simp add: atm_list_lpop_entry_def list_rep_def)
next
  case (Cons x ps)
  obtain a v where x: "x = (a, v)" by (cases x)
  obtain m where n: "n = Suc m" using Cons.prems by (cases n) auto
  from list_rep_lpop [of l a v ps] Cons.prems(1) x obtain l1 where l1:
    "atm_list_lpop_entry l = Inr (Some a, l1)"
    "get_ent l1 a = Inr \<lparr>le_val = v, le_prev = None, le_next = None\<rparr>"
    "list_rep (free_ent a l1) ps" "list_type l1 = list_type l" by blast
  have ty: "l_free_type l1 = l_free_type l" "l_v_type l1 = l_v_type l"
    using l1(4) by (simp_all add: list_type_def)
  have h: "l_heap l1 a = Some \<lparr>le_val = v, le_prev = None, le_next = None\<rparr>"
    using l1(2) by (auto simp: get_ent_def of_some_def split: option.splits)
  have "atm_list_entry_free a l1 =
      Inr (if l_free_type l = ATM_FREE_DEEP then [v] else [], free_ent a l1)"
    using Cons.prems(3) h ty
    by (auto simp: atm_list_entry_free_def list_frees_def list_ops split: option.splits)
  moreover have "list_frees (free_ent a l1)" "l_free_type (free_ent a l1) = l_free_type l"
    "list_type (free_ent a l1) = list_type l"
    using Cons.prems(3) ty by (simp_all add: list_frees_def free_ent_def list_type_def)
  moreover obtain l' where "clear_loop m (free_ent a l1) = Inr
      (if l_free_type l = ATM_FREE_DEEP then map snd ps else [], l')"
    "list_rep l' []" "list_type l' = list_type l"
    using Cons.IH [OF l1(3), of m] Cons.prems(2) n calculation by auto
  ultimately show ?case using l1(1) n x by auto
qed

lemma atm_list_clear_vals:
  assumes "wf_list l" "list_frees l"
  shows "\<exists>l'. atm_list_clear l = Inr
      (if l_free_type l = ATM_FREE_DEEP then list_vals l else [], l')
    \<and> wf_list l' \<and> list_vals l' = [] \<and> list_type l' = list_type l"
proof -
  obtain ps where ps: "list_rep l ps" "list_vals l = map snd ps"
    using wf_list_rep [OF assms(1)] by blast
  from clear_loop_rep [OF ps(1) _ assms(2), of "Suc (l_brk l)"] list_rep_length [OF ps(1)] ps(2)
  show ?thesis by (auto simp: atm_list_clear_def dest!: list_rep_wf)
qed

text \<open>Walking a list with the iterator yields its values in order, then NULL.\<close>

fun iter_all :: "nat \<Rightarrow> 'v atm_list \<Rightarrow> list_iter \<Rightarrow> 'v list res" where
  "iter_all 0 l it = Inl No_return"
| "iter_all (Suc n) l it =
     res_bind (atm_list_next l it) (\<lambda>(v, it).
       case v of None \<Rightarrow> Inr [] | Some x \<Rightarrow> res_map ((#) x) (iter_all n l it))"

lemma iter_all_dll:
  "dll (l_heap l) p ps None \<Longrightarrow> length ps < n \<Longrightarrow>
   iter_all n l \<lparr>it_curr = first_addr None ps\<rparr> = Inr (map snd ps)"
proof (induction ps arbitrary: n p)
  case Nil
  then show ?case by (cases n) (simp_all add: atm_list_next_def)
next
  case (Cons x ps)
  obtain m where n: "n = Suc m" using Cons.prems(2) by (cases n) simp_all
  show ?case
    using Cons.prems n Cons.IH [of "Some (fst x)" m]
    by (cases x) (simp add: atm_list_next_def get_ent_def)
qed

section \<open>The list as a double-ended queue\<close>

text \<open>
  What the clients (block pool, buffer, queue, free list of the connections) rely on.
\<close>

locale deque =
  fixes wf :: "'l \<Rightarrow> bool" and vals :: "'l \<Rightarrow> 'v list" and same :: "'l \<Rightarrow> 'l \<Rightarrow> bool"
    and push :: "'l \<Rightarrow> 'v \<Rightarrow> 'l res"
    and lpop :: "'l \<Rightarrow> ('v option \<times> 'l) res"
    and lpeek :: "'l \<Rightarrow> 'v option res"
    and rpeek :: "'l \<Rightarrow> 'v option res"
    and count :: "'l \<Rightarrow> u32"
  assumes push_law: "wf l \<Longrightarrow> \<exists>l'. push l v = Inr l' \<and> wf l' \<and> vals l' = vals l @ [v] \<and> same l' l"
    and lpop_law: "wf l \<Longrightarrow> vals l = v # vs \<Longrightarrow>
      \<exists>l'. lpop l = Inr (Some v, l') \<and> wf l' \<and> vals l' = vs \<and> same l' l"
    and lpop_empty: "wf l \<Longrightarrow> vals l = [] \<Longrightarrow> lpop l = Inr (None, l)"
    and lpeek_law: "wf l \<Longrightarrow> lpeek l = Inr (case vals l of [] \<Rightarrow> None | v # _ \<Rightarrow> Some v)"
    and rpeek_law: "wf l \<Longrightarrow> rpeek l = Inr (if vals l = [] then None else Some (last (vals l)))"
    and count_law: "wf l \<Longrightarrow> count l = of_nat (length (vals l))"
    and same_refl: "same l l"
    and same_trans: "same a b \<Longrightarrow> same b c \<Longrightarrow> same a c"

text \<open>Pushing a list of values, and popping until the list is empty, for any such interface.\<close>

fun push_all :: "('l \<Rightarrow> 'v \<Rightarrow> 'l res) \<Rightarrow> 'l \<Rightarrow> 'v list \<Rightarrow> 'l res" where
  "push_all f l [] = Inr l"
| "push_all f l (v # vs) = res_bind (f l v) (\<lambda>l. push_all f l vs)"

fun pop_all :: "('l \<Rightarrow> ('v option \<times> 'l) res) \<Rightarrow> nat \<Rightarrow> 'l \<Rightarrow> ('v list \<times> 'l) res" where
  "pop_all f 0 l = Inl No_return"
| "pop_all f (Suc n) l =
     res_bind (f l) (\<lambda>(v, l). case v of None \<Rightarrow> Inr ([], l)
       | Some x \<Rightarrow> res_map (\<lambda>(xs, l). (x # xs, l)) (pop_all f n l))"

context deque
begin

lemma push_all_vals:
  "wf l \<Longrightarrow> \<exists>l'. push_all push l vs = Inr l' \<and> wf l' \<and> vals l' = vals l @ vs \<and> same l' l"
proof (induction vs arbitrary: l)
  case Nil
  then show ?case by (simp add: same_refl)
next
  case (Cons v vs)
  from push_law [OF Cons.prems, of v] obtain l1 where
    l1: "push l v = Inr l1" "wf l1" "vals l1 = vals l @ [v]" "same l1 l" by blast
  from Cons.IH [OF l1(2)] l1 show ?case by (auto intro: same_trans)
qed

lemma pop_all_vals:
  "wf l \<Longrightarrow> length (vals l) < n \<Longrightarrow>
   \<exists>l'. pop_all lpop n l = Inr (vals l, l') \<and> wf l' \<and> vals l' = [] \<and> same l' l"
proof (induction n arbitrary: l)
  case (Suc n)
  show ?case
  proof (cases "vals l")
    case Nil
    then show ?thesis using Suc.prems lpop_empty by (simp add: same_refl)
  next
    case (Cons v vs)
    from lpop_law [OF Suc.prems(1) Cons] obtain l1 where
      l1: "lpop l = Inr (Some v, l1)" "wf l1" "vals l1 = vs" "same l1 l" by blast
    from Suc.IH [OF l1(2)] Suc.prems(2) l1 Cons show ?thesis by (auto intro: same_trans)
  qed
qed simp

text \<open>First in, first out: what was pushed onto an empty list comes out in the same order.\<close>

lemma fifo_order:
  assumes "wf l" "vals l = []" "length vs < n"
  shows "\<exists>l' l''. push_all push l vs = Inr l' \<and> pop_all lpop n l' = Inr (vs, l'') \<and> vals l'' = []"
proof -
  from push_all_vals [OF assms(1), of vs] assms(2) obtain l' where
    "push_all push l vs = Inr l'" "wf l'" "vals l' = vs" by auto
  with pop_all_vals [of l' n] assms(3) show ?thesis by auto
qed

end

interpretation ld: deque wf_list list_vals "\<lambda>l' l. list_type l' = list_type l"
    atm_list_push atm_list_lpop atm_list_lpeek atm_list_rpeek l_size
proof unfold_locales
  fix l :: "'v atm_list" and v vs
  assume "wf_list l" "list_vals l = v # vs"
  with atm_list_lpop_vals [of l] show "\<exists>l'. atm_list_lpop l = Inr (Some v, l') \<and> wf_list l'
      \<and> list_vals l' = vs \<and> list_type l' = list_type l" by simp
next
  fix l :: "'v atm_list"
  assume "wf_list l" "list_vals l = []"
  with atm_list_lpop_vals [of l] show "atm_list_lpop l = Inr (None, l)" by simp
qed (auto simp: atm_list_push_vals atm_list_lpeek_vals atm_list_rpeek_vals l_size_vals)

section \<open>Properties\<close>



text \<open>
  Searching by a hint returns the first value that matches it, and deleting by
  a hint unlinks exactly that node, whatever its position (only node, head, tail or middle);
  a hint that matches nothing changes nothing.
\<close>

theorem atm_list_find_del_first:
  assumes "wf_list l" "list_matches l hint P" "l_free_type l \<noteq> ATM_FREE_DEEP"
  shows "atm_list_find l hint = Inr (List.find P (list_vals l))
    \<and> (\<exists>l'. atm_list_del l hint = Inr ([], l') \<and> wf_list l'
          \<and> list_vals l' = del_first P (list_vals l))"
  using atm_list_find_vals [OF assms(1,2)] atm_list_del_vals [OF assms] by blast

theorem atm_list_find_del_first_witness:
  "\<exists>l l'. push_all atm_list_push (atm_list_new (Some \<lparr>T_id = ''eq'',
        T_match = Some (\<lambda>x y. Inr (x = y)), T_hash = None, T_compare = None, T_str = None,
        T_free = False\<rparr>) ATM_FREE_SHALLOW) [2, 5, 9 :: nat] = Inr l
     \<and> atm_list_find l 5 = Inr (Some 5) \<and> atm_list_del l 5 = Inr ([], l') \<and> list_vals l' = [2, 9]"
proof -
  define t :: "nat atm_T" where "t = \<lparr>T_id = ''eq'', T_match = Some (\<lambda>x y. Inr (x = y)),
    T_hash = None, T_compare = None, T_str = None, T_free = False\<rparr>"
  obtain l where l: "push_all atm_list_push (atm_list_new (Some t) ATM_FREE_SHALLOW) [2, 5, 9] = Inr l"
    "wf_list l" "list_vals l = [2, 5, 9]" "list_type l = (ATM_FREE_SHALLOW, Some t)"
    using ld.push_all_vals [of "atm_list_new (Some t) ATM_FREE_SHALLOW" "[2, 5, 9]"] by auto
  from l(4) have "list_matches l 5 (\<lambda>v. v = 5)" "l_free_type l \<noteq> ATM_FREE_DEEP"
    by (simp_all add: list_matches_def list_match_def list_type_def t_def)
  from atm_list_find_del_first [OF l(2) this] l show ?thesis
    by (auto simp: del_first_def t_def)
qed

text \<open>
  Clearing a list ends, passes every value to the type's free function exactly
  once and in order when the list owns its values, passes none when it does not, and leaves
  a well-formed empty list.
\<close>

theorem atm_list_clear_frees_once:
  assumes "wf_list l" "list_frees l"
  shows "\<exists>l'. atm_list_clear l =
      Inr (if l_free_type l = ATM_FREE_DEEP then list_vals l else [], l')
    \<and> wf_list l' \<and> list_vals l' = []"
  using atm_list_clear_vals [OF assms] by blast

theorem atm_list_clear_frees_once_witness:
  "\<exists>l l'. push_all atm_list_push (atm_list_new (Some \<lparr>T_id = ''blk'', T_match = None,
        T_hash = None, T_compare = None, T_str = None, T_free = True\<rparr>) ATM_FREE_DEEP)
        [4, 4 :: nat] = Inr l
     \<and> atm_list_clear l = Inr ([4, 4], l') \<and> list_vals l' = []"
proof -
  define t :: "nat atm_T" where "t = \<lparr>T_id = ''blk'', T_match = None, T_hash = None,
    T_compare = None, T_str = None, T_free = True\<rparr>"
  obtain l where l: "push_all atm_list_push (atm_list_new (Some t) ATM_FREE_DEEP) [4, 4] = Inr l"
    "wf_list l" "list_vals l = [4, 4]" "list_type l = (ATM_FREE_DEEP, Some t)"
    using ld.push_all_vals [of "atm_list_new (Some t) ATM_FREE_DEEP" "[4, 4]"] by auto
  from l(4) have "list_frees l" "l_free_type l = ATM_FREE_DEEP"
    by (simp_all add: list_frees_def list_type_def t_def)
  with atm_list_clear_frees_once [OF l(2)] l show ?thesis by (auto simp: t_def)
qed

text \<open>
  First in, first out: any values pushed onto a new list are popped from its
  head in the order they were pushed, and the list is empty again.
\<close>

theorem atm_list_fifo:
  "\<exists>l l'. push_all atm_list_push (atm_list_new t f) vs = Inr l
    \<and> pop_all atm_list_lpop (Suc (length vs)) l = Inr (vs, l') \<and> list_vals l' = []"
  using ld.fifo_order [of "atm_list_new t f" vs "Suc (length vs)"] by simp

end
