(* ===== verification/Atm_Str.thy ===== *)
theory Atm_Str
  imports Atm_Core Atm_Siphash
begin

text \<open>
  \<^verbatim>\<open>src/core/atm_str.c\<close>: strings with a header. The buffer of a string is modelled with its
  allocated length, so \<^verbatim>\<open>memcpy\<close> and \<^verbatim>\<open>strcat\<close> beyond it are faults; capacities and lengths
  are the 32-bit words of the header, with their wrap-around. The lemmas give the
  functional behaviour of every operation on well-formed strings (length, capacity and
  terminator agree), the order that \<^verbatim>\<open>atm_str_cmp\<close> implements, the tokeniser, and what
  growing a string does to its length field.
\<close>

section \<open>Allocation and headers\<close>

definition ATM_WORDLEN :: u32 where "ATM_WORDLEN = 8"
definition ATM_STR_MAXLEN :: nat where "ATM_STR_MAXLEN = 512"
definition hdrlen :: u32 where "hdrlen = 8"

definition atm_str_size :: "u32 \<Rightarrow> u32" where
  "atm_str_size slen =
     (if 0 < slen then (slen - slen mod ATM_WORDLEN) + ATM_WORDLEN else 0)"

text \<open>\<^verbatim>\<open>atm_alloc(sz)\<close> for a header with its array: the array is zeroed.\<close>

definition str_alloc :: "u32 \<Rightarrow> char list res" where
  "str_alloc sz =
     (if sz < hdrlen then Inl Bad_access else Inr (replicate (unat sz - unat hdrlen) NUL))"

definition atm_str_mtrim :: "char list option \<Rightarrow> char list option" where
  "atm_str_mtrim s = map_option c_str s"

definition atm_str_new :: "char list option \<Rightarrow> atm_str res" where
  "atm_str_new str =
     (case str of None \<Rightarrow> Inr None
      | Some s \<Rightarrow>
          let slen = (of_nat (c_strlen s) :: u32);
              sz = atm_str_size (hdrlen + slen + 1)
          in res_bind (str_alloc sz) (\<lambda>buf.
             res_bind (if 0 < slen then mem_write buf 0 (take (unat slen) (c_str s)) else Inr buf)
               (\<lambda>buf. Inr (Some \<lparr>str_cap = sz - hdrlen - 1, str_len = slen, str_val = buf\<rparr>))))"

definition atm_str_dup :: "atm_str \<Rightarrow> atm_str res" where
  "atm_str_dup str =
     (case str of None \<Rightarrow> Inr None
      | Some hdr \<Rightarrow>
          let sz = hdrlen + str_cap hdr + 1 in
          res_bind (str_alloc sz) (\<lambda>buf.
          res_bind (mem_read (str_val hdr) 0 (length buf)) (\<lambda>v.
            Inr (Some (hdr\<lparr>str_val := v\<rparr>)))))"

definition atm_str_len :: "atm_str \<Rightarrow> u32" where
  "atm_str_len str = (case str of None \<Rightarrow> 0 | Some h \<Rightarrow> str_len h)"

text \<open>Growing a string that exists, then with the NULL case (which starts from \<^verbatim>\<open>""\<close>).\<close>

definition str_grow_hdr :: "atm_str_hdr \<Rightarrow> u32 \<Rightarrow> atm_str_hdr res" where
  "str_grow_hdr hdr need =
     (let avail = str_cap hdr - str_len hdr in
      if avail < need then
        let newlen = str_len hdr + need;
            newsz = atm_str_size (hdrlen + newlen + 1)
        in res_bind (str_alloc newsz) (\<lambda>buf.
           res_bind (mem_read (str_val hdr) 0 (unat (str_len hdr))) (\<lambda>old.
           res_bind (mem_write buf 0 old) (\<lambda>buf.
             Inr \<lparr>str_cap = newsz - hdrlen - 1, str_len = newlen, str_val = buf\<rparr>)))
      else Inr hdr)"

definition atm_str_grow :: "atm_str \<Rightarrow> u32 \<Rightarrow> atm_str res" where
  "atm_str_grow str need =
     (if 0 < need then
        (case str of
           Some hdr \<Rightarrow> res_map Some (str_grow_hdr hdr need)
         | None \<Rightarrow> res_bind (atm_str_new (Some [])) (\<lambda>r.
             case r of None \<Rightarrow> Inr None | Some hdr \<Rightarrow> res_map Some (str_grow_hdr hdr need)))
      else Inr str)"

section \<open>Comparison and hashing\<close>

fun buf_strcmp :: "char list \<Rightarrow> char list \<Rightarrow> int res" where
  "buf_strcmp (x # xs) (y # ys) =
     (if x = y then (if x = NUL then Inr 0 else buf_strcmp xs ys)
      else Inr (of_char x - of_char y))"
| "buf_strcmp _ _ = Inl Bad_access"

text \<open>
  The pointer test \<^verbatim>\<open>s1 == s2\<close> decides only for two NULLs here: for the same string object
  the tests that follow give the same answer (\<^verbatim>\<open>buf_strcmp\<close> of a buffer with itself is 0).
\<close>

definition atm_str_cmp :: "atm_str \<Rightarrow> atm_str \<Rightarrow> int res" where
  "atm_str_cmp s1 s2 =
     (if s1 = None \<and> s2 = None then Inr 0
      else if atm_str_len s1 > atm_str_len s2 then Inr 1
      else if atm_str_len s1 < atm_str_len s2 then Inr (-1)
      else (case (s1, s2) of
              (Some h1, Some h2) \<Rightarrow> buf_strcmp (str_val h1) (str_val h2)
            | _ \<Rightarrow> Inl Null_deref))"

definition atm_str_eq :: "atm_str \<Rightarrow> atm_str \<Rightarrow> bool res" where
  "atm_str_eq s1 s2 = res_map (\<lambda>c. c = 0) (atm_str_cmp s1 s2)"

definition atm_str_match :: "atm_str \<Rightarrow> atm_str \<Rightarrow> bool res" where
  "atm_str_match s1 s2 = atm_str_eq s1 s2"

definition atm_str_eqs :: "atm_str \<Rightarrow> char list \<Rightarrow> bool res" where
  "atm_str_eqs s1 s =
     res_bind (atm_str_new (Some s)) (\<lambda>s2. res_map (\<lambda>c. c = 0) (atm_str_cmp s1 s2))"

definition str_bytes :: "atm_str \<Rightarrow> u8 list" where
  "str_bytes s = (case s of None \<Rightarrow> [] | Some h \<Rightarrow> map of_char (str_val h))"

definition atm_str_hash :: "u8 list \<Rightarrow> atm_str \<Rightarrow> u64 res" where
  "atm_str_hash seed s = atm_siphash seed (str_bytes s) (atm_str_len s)"

definition atm_str_string :: "atm_str \<Rightarrow> atm_str" where
  "atm_str_string s = s"

text \<open>The operations table \<^verbatim>\<open>ATM_STR_T\<close>, for the seed of the process.\<close>

definition ATM_STR_T :: "u8 list \<Rightarrow> atm_str atm_T" where
  "ATM_STR_T seed = \<lparr>T_id = ''ATM_STR_TYPE'', T_match = Some atm_str_match,
     T_hash = Some (atm_str_hash seed), T_compare = Some atm_str_cmp,
     T_str = Some atm_str_string, T_free = True\<rparr>"

section \<open>Appending\<close>

definition str_append :: "atm_str \<Rightarrow> char list \<Rightarrow> u32 \<Rightarrow> atm_str res" where
  "str_append dest src slen =
     res_bind (atm_str_grow dest slen) (\<lambda>dest.
     res_bind (of_some Null_deref dest) (\<lambda>h.
     let h = h\<lparr>str_len := str_len h + slen\<rparr> in
     res_map (\<lambda>v. Some (h\<lparr>str_val := v\<rparr>)) (buf_strcat (str_val h) src)))"

definition atm_str_cats :: "atm_str \<Rightarrow> char list option \<Rightarrow> atm_str res" where
  "atm_str_cats dest src =
     (case src of None \<Rightarrow> Inr dest
      | Some s \<Rightarrow> str_append dest s (of_nat (c_strlen s)))"

definition atm_str_cats_dup :: "atm_str \<Rightarrow> char list option \<Rightarrow> atm_str res" where
  "atm_str_cats_dup dest src =
     res_bind (atm_str_dup dest) (\<lambda>dup. atm_str_cats dup src)"

definition atm_str_cat :: "atm_str \<Rightarrow> atm_str \<Rightarrow> atm_str res" where
  "atm_str_cat dest src =
     (case src of None \<Rightarrow> Inr dest
      | Some h \<Rightarrow> res_bind (buf_strlen (str_val h)) (\<lambda>_.
          str_append dest (str_val h) (atm_str_len src)))"

definition atm_str_cat_dup :: "atm_str \<Rightarrow> atm_str \<Rightarrow> atm_str res" where
  "atm_str_cat_dup dest src = res_bind (atm_str_dup dest) (\<lambda>dup. atm_str_cat dup src)"

text \<open>\<^verbatim>\<open>vsnprintf\<close> into 512 bytes; the formatted text is the argument.\<close>

definition atm_str_fmt :: "char list \<Rightarrow> atm_str res" where
  "atm_str_fmt formatted =
     atm_str_new (atm_str_mtrim (Some (take (ATM_STR_MAXLEN - 1) (c_str formatted))))"

section \<open>In-place operations\<close>

definition atm_str_setlen :: "atm_str \<Rightarrow> u32 \<Rightarrow> atm_str" where
  "atm_str_setlen str len = map_option (\<lambda>h. h\<lparr>str_len := len\<rparr>) str"

text \<open>\<^verbatim>\<open>strchr(cset, c) != NULL\<close>: the terminator of the set matches a NUL.\<close>

definition in_cset :: "char list \<Rightarrow> char \<Rightarrow> bool" where
  "in_cset cset c \<longleftrightarrow> c = NUL \<or> c \<in> set (c_str cset)"

text \<open>The two scans of \<^verbatim>\<open>atm_str_trim\<close>: \<^verbatim>\<open>sp\<close> from the left, \<^verbatim>\<open>ep + 1\<close> from the right.\<close>

function trim_left :: "char list \<Rightarrow> char list \<Rightarrow> nat \<Rightarrow> nat \<Rightarrow> nat res" where
  "trim_left cset v sp e =
     (if sp < e then
        res_bind (read_at v sp) (\<lambda>c. if in_cset cset c then trim_left cset v (Suc sp) e else Inr sp)
      else Inr sp)"
  by pat_completeness auto
termination
  by (relation "measure (\<lambda>(cset, v, sp, e). e - sp)") auto

fun trim_right :: "char list \<Rightarrow> char list \<Rightarrow> nat \<Rightarrow> nat \<Rightarrow> nat res" where
  "trim_right cset v sp e =
     (if Suc sp < e then
        res_bind (read_at v (e - 1)) (\<lambda>c.
          if in_cset cset c then trim_right cset v sp (e - 1) else Inr e)
      else Inr e)"

declare trim_left.simps [simp del] trim_right.simps [simp del]

definition atm_str_trim :: "atm_str \<Rightarrow> char list \<Rightarrow> atm_str res" where
  "atm_str_trim str cset =
     res_bind (of_some Null_deref str) (\<lambda>h.
     let e = unat (str_len h) in
     res_bind (trim_left cset (str_val h) 0 e) (\<lambda>sp.
     res_bind (trim_right cset (str_val h) sp e) (\<lambda>ep1.
     let len = (if ep1 \<le> sp then 0 else ep1 - sp) in
     res_bind (mem_read (str_val h) sp len) (\<lambda>mid.
     res_bind (if sp \<noteq> 0 then mem_write (str_val h) 0 mid else Inr (str_val h)) (\<lambda>v.
     res_map (\<lambda>v. Some \<lparr>str_cap = str_cap h, str_len = of_nat len, str_val = v\<rparr>)
       (write_at v len NUL))))))"

text \<open>The case conversions walk over the first \<^verbatim>\<open>len\<close> bytes.\<close>

definition str_map_prefix :: "(char \<Rightarrow> char) \<Rightarrow> atm_str \<Rightarrow> atm_str res" where
  "str_map_prefix f str =
     (case str of None \<Rightarrow> Inr None
      | Some h \<Rightarrow>
          let n = unat (str_len h) in
          if n \<le> length (str_val h)
          then Inr (Some (h\<lparr>str_val := map f (take n (str_val h)) @ drop n (str_val h)\<rparr>))
          else Inl Bad_access)"

definition atm_str_tolower :: "atm_str \<Rightarrow> atm_str res" where
  "atm_str_tolower str = str_map_prefix char_lower str"

definition atm_str_toupper :: "atm_str \<Rightarrow> atm_str res" where
  "atm_str_toupper str = str_map_prefix char_upper str"

definition atm_str_isempty :: "atm_str \<Rightarrow> bool res" where
  "atm_str_isempty str =
     (case str of None \<Rightarrow> Inr True
      | Some h \<Rightarrow>
          if 0 < atm_str_len str then
            res_bind (buf_strcmp (str_val h) [CHR 0x22, CHR 0x22, NUL]) (\<lambda>c1.
              if c1 = 0 then Inr True
              else res_map (\<lambda>c2. c2 = 0) (buf_strcmp (str_val h) [CHR 0x27, CHR 0x27, NUL]))
          else Inr True)"

section \<open>The tokeniser\<close>

text \<open>
  The local variables of \<^verbatim>\<open>atm_str_split\<close>: the kind of the innermost open quote (NUL for
  none), the quoting depth, the flag for a run of separators, the characters of the
  current token \<^verbatim>\<open>t[0..ti)\<close> and the finished tokens \<^verbatim>\<open>sl[0..sli)\<close>. A written character is
  never NUL, so \<^verbatim>\<open>strlen(t)\<close> is \<^verbatim>\<open>ti\<close>.
\<close>

record split_st =
  sp_qty :: char
  sp_inq :: int
  sp_trb :: bool
  sp_tok :: "char list"
  sp_toks :: "char list list"

definition DQ :: char where "DQ = CHR 0x22"
definition SQ :: char where "SQ = CHR 0x27"

definition split_quoted :: "char \<Rightarrow> split_st \<Rightarrow> split_st" where
  "split_quoted c st =
     (let inq = sp_inq st in
      if c = DQ then
        if sp_qty st = DQ then
          st\<lparr>sp_inq := inq - 1, sp_qty := (if inq - 1 > 0 then SQ else NUL)\<rparr>
        else if sp_qty st = SQ then st\<lparr>sp_inq := inq + 1, sp_qty := DQ\<rparr>
        else st
      else if c = SQ then
        if sp_qty st = DQ then st\<lparr>sp_inq := inq + 1, sp_qty := SQ\<rparr>
        else if sp_qty st = SQ then
          st\<lparr>sp_inq := inq - 1, sp_qty := (if inq - 1 > 0 then DQ else NUL)\<rparr>
        else st
      else st)"

definition split_step :: "char \<Rightarrow> char \<Rightarrow> split_st \<Rightarrow> split_st" where
  "split_step sep c st =
     (if c = NUL then st
      else if sp_inq st > 0 then
        (let st = split_quoted c st in st\<lparr>sp_tok := sp_tok st @ [c]\<rparr>)
      else if sp_inq st = 0 then
        (let st = (if c = DQ \<or> c = SQ then st\<lparr>sp_qty := c, sp_inq := sp_inq st + 1\<rparr> else st)
         in if c = sep then
              (let st = (if \<not> sp_trb st \<and> sp_tok st \<noteq> []
                         then st\<lparr>sp_toks := sp_toks st @ [sp_tok st], sp_tok := []\<rparr> else st)
               in st\<lparr>sp_trb := True\<rparr>)
            else st\<lparr>sp_trb := False, sp_tok := sp_tok st @ [c]\<rparr>)
      else st)"

definition split_init :: split_st where
  "split_init = \<lparr>sp_qty = NUL, sp_inq = 0, sp_trb = False, sp_tok = [], sp_toks = []\<rparr>"

definition split_tokens :: "char \<Rightarrow> char list \<Rightarrow> char list list" where
  "split_tokens sep cs =
     (let st = fold (split_step sep) cs split_init
      in if sp_tok st \<noteq> [] then sp_toks st @ [sp_tok st] else sp_toks st)"

fun new_all :: "char list list \<Rightarrow> atm_str list res" where
  "new_all [] = Inr []"
| "new_all (t # ts) =
     res_bind (atm_str_new (atm_str_mtrim (Some t))) (\<lambda>s. res_map ((#) s) (new_all ts))"

text \<open>The result is NULL, or the array of the tokens with the NULL sentinel at its end.\<close>

definition atm_str_split :: "char list \<Rightarrow> char \<Rightarrow> nat \<Rightarrow> atm_str list option res" where
  "atm_str_split s sep len =
     res_bind (mem_read s 0 len) (\<lambda>cs.
     let toks = split_tokens sep cs in
     if toks = [] then Inr None
     else res_map (\<lambda>ss. Some (ss @ [None])) (new_all toks))"

fun split_count :: "atm_str list \<Rightarrow> nat res" where
  "split_count [] = Inl Bad_access"
| "split_count (None # ts) = Inr 0"
| "split_count (Some s # ts) = res_map Suc (split_count ts)"

definition atm_str_split_size :: "atm_str list option \<Rightarrow> nat res" where
  "atm_str_split_size argv = (case argv of None \<Rightarrow> Inr 0 | Some a \<Rightarrow> split_count a)"

text \<open>Freeing walks to the sentinel; what is left to say of it is that the walk is valid.\<close>

definition atm_str_split_free :: "atm_str list option \<Rightarrow> unit res" where
  "atm_str_split_free argv =
     (case argv of None \<Rightarrow> Inr () | Some a \<Rightarrow> res_map (\<lambda>_. ()) (split_count a))"

section \<open>Well-formed strings\<close>

text \<open>
  The length field counts the characters before the terminator and the capacity is one
  less than the allocated array. \<^verbatim>\<open>str_abs\<close> is the text of the string.
\<close>

definition wf_hdr :: "atm_str_hdr \<Rightarrow> bool" where
  "wf_hdr h \<longleftrightarrow> length (str_val h) = Suc (unat (str_cap h)) \<and> unat (str_len h) \<le> unat (str_cap h)
     \<and> NUL \<notin> set (take (unat (str_len h)) (str_val h)) \<and> str_val h ! unat (str_len h) = NUL"

definition str_abs :: "atm_str_hdr \<Rightarrow> char list" where
  "str_abs h = take (unat (str_len h)) (str_val h)"

lemma str_abs_length: "wf_hdr h \<Longrightarrow> length (str_abs h) = unat (str_len h)"
  by (simp add: wf_hdr_def str_abs_def)

lemma str_abs_NUL: "wf_hdr h \<Longrightarrow> NUL \<notin> set (str_abs h)"
  by (simp add: wf_hdr_def str_abs_def)

lemma wf_hdr_val:
  assumes "wf_hdr h"
  shows "str_val h = str_abs h @ NUL # drop (Suc (unat (str_len h))) (str_val h)"
  using assms id_take_nth_drop [of "unat (str_len h)" "str_val h"]
  by (simp add: wf_hdr_def str_abs_def)

lemma wf_hdr_c_str: "wf_hdr h \<Longrightarrow> c_str (str_val h) = str_abs h"
  by (subst wf_hdr_val) (simp_all add: str_abs_NUL)

lemma wf_hdrI:
  assumes "str_val h = xs @ NUL # r" "NUL \<notin> set xs" "unat (str_len h) = length xs"
    "unat (str_cap h) = length xs + length r"
  shows "wf_hdr h \<and> str_abs h = xs"
  using assms by (simp add: wf_hdr_def str_abs_def)

lemma unat_u32_mod8: "unat (n mod 8 :: u32) = unat n mod 8"
  by (simp add: unat_mod)

lemma atm_str_size_unat:
  assumes "0 < unat n" "unat n < 2 ^ 32 - 8"
  shows "unat (atm_str_size n) = unat n div 8 * 8 + 8"
proof -
  have le: "n mod 8 \<le> n" by (simp add: word_le_nat_alt unat_u32_mod8)
  have a: "unat (n - n mod 8) = unat n div 8 * 8"
    using unat_sub [OF le] by (simp add: unat_u32_mod8 minus_mod_eq_div_mult)
  have b: "unat n div 8 * 8 + 8 < 2 ^ 32" using assms(2) by simp
  have "unat (n - n mod 8 + 8) = unat n div 8 * 8 + 8"
    using b a by (simp add: unat_word_ariths)
  then show ?thesis using assms(1) by (simp add: atm_str_size_def ATM_WORDLEN_def word_less_nat_alt)
qed

text \<open>The allocation for a text of \<^verbatim>\<open>n\<close> characters leaves between 1 and 8 bytes to spare.\<close>

definition str_room :: "nat \<Rightarrow> nat" where
  "str_room n = (n + 9) div 8 * 8 - 1"

lemma str_room_bounds: "n < str_room n" "str_room n \<le> n + 8" "(str_room n + 9) mod 8 = 0"
proof -
  have "(n + 9) div 8 * 8 + (n + 9) mod 8 = n + 9" by (rule div_mult_mod_eq)
  moreover have "(n + 9) mod 8 < 8" by simp
  moreover have "str_room n + 9 = ((n + 9) div 8 + 1) * 8" by (simp add: str_room_def)
  ultimately show "n < str_room n" "str_room n \<le> n + 8" "(str_room n + 9) mod 8 = 0"
    by (auto simp: str_room_def)
qed

lemma str_alloc_size:
  assumes "unat n < 2 ^ 32 - 32"
  shows "str_alloc (atm_str_size (hdrlen + n + 1)) = Inr (replicate (Suc (str_room (unat n))) NUL)"
    and "unat (atm_str_size (hdrlen + n + 1) - hdrlen - 1) = str_room (unat n)"
proof -
  have u: "unat (hdrlen + n + 1) = unat n + 9"
    using assms by (simp add: hdrlen_def unat_word_ariths)
  have s: "unat (atm_str_size (hdrlen + n + 1)) = (unat n + 9) div 8 * 8 + 8"
    using atm_str_size_unat [of "hdrlen + n + 1"] assms by (simp add: u)
  define z where "z = atm_str_size (hdrlen + n + 1)"
  have zn: "unat z = str_room (unat n) + 9" using s str_room_bounds [of "unat n"]
    by (simp add: z_def str_room_def)
  have "unat (z - 9) = str_room (unat n)"
    using zn by (subst unat_sub) (simp_all add: word_le_nat_alt)
  moreover have "z - hdrlen - 1 = z - 9" by (simp add: hdrlen_def)
  ultimately show "unat (atm_str_size (hdrlen + n + 1) - hdrlen - 1) = str_room (unat n)"
    unfolding z_def [symmetric] by (simp only:)
  show "str_alloc (atm_str_size (hdrlen + n + 1)) = Inr (replicate (Suc (str_room (unat n))) NUL)"
    using zn by (simp add: str_alloc_def word_less_nat_alt hdrlen_def z_def del: replicate_Suc)
qed

lemma atm_str_new_text:
  assumes "c_strlen s < 2 ^ 32 - 32"
  shows "\<exists>h. atm_str_new (Some s) = Inr (Some h) \<and> wf_hdr h \<and> str_abs h = c_str s
    \<and> (unat (str_cap h) + 9) mod 8 = 0
    \<and> c_strlen s < unat (str_cap h) \<and> unat (str_cap h) \<le> c_strlen s + 8"
proof -
  define n :: u32 where "n = of_nat (c_strlen s)"
  have n: "unat n = c_strlen s" using assms by (simp add: n_def)
  have small: "unat n < 2 ^ 32 - 32" using assms n by simp
  have nn: "word_of_nat (length (c_str s)) = n" by (simp add: n_def c_strlen_def)
  let ?room = "str_room (c_strlen s)"
  let ?h = "\<lparr>str_cap = atm_str_size (hdrlen + n + 1) - hdrlen - 1, str_len = n,
             str_val = c_str s @ NUL # replicate (?room - c_strlen s) NUL\<rparr>"
  have r: "?room = c_strlen s + (?room - c_strlen s)" using str_room_bounds(1) [of "c_strlen s"] by simp
  have dr: "drop (c_strlen s) (replicate ?room NUL) = replicate (?room - c_strlen s) NUL" by simp
  have new: "atm_str_new (Some s) = Inr (Some ?h)"
  proof (cases "n = 0")
    case True
    then have "c_str s = []" using n by (simp add: c_strlen_def)
    then show ?thesis using str_alloc_size(1) [OF small] True n
      by (simp add: atm_str_new_def nn c_strlen_def)
  next
    case False
    then show ?thesis using str_alloc_size(1) [OF small] n str_room_bounds(1) [of "c_strlen s"]
      by (simp add: atm_str_new_def Let_def nn word_neq_0_conv c_strlen_def del: replicate_Suc)
         (simp add: Suc_diff_le)
  qed
  have "wf_hdr ?h \<and> str_abs ?h = c_str s"
    by (rule wf_hdrI [where r = "replicate (?room - c_strlen s) NUL"]) (use n str_alloc_size(2) [OF small] str_room_bounds(1) [of "c_strlen s"] in
        \<open>simp_all add: c_strlen_def\<close>)
  then show ?thesis using new str_alloc_size(2) [OF small] n str_room_bounds [of "c_strlen s"]
    by simp
qed

text \<open>
  \<^verbatim>\<open>atm_str_new\<close> on a C string returns a well-formed string with the same
  text; the allocation is a multiple of the word length and has 1 to 8 spare bytes.
\<close>

lemma atm_str_new_spec:
  assumes "c_strlen s < 2 ^ 32 - 32"
  shows "\<exists>h. atm_str_new (Some s) = Inr (Some h) \<and> wf_hdr h \<and> str_abs h = c_str s
    \<and> (unat (str_cap h) + 9) mod 8 = 0
    \<and> c_strlen s < unat (str_cap h) \<and> unat (str_cap h) \<le> c_strlen s + 8"
  using assms by (rule atm_str_new_text)

lemma atm_str_new_spec_witness:
  "\<exists>h. atm_str_new (Some ''atm'') = Inr (Some h) \<and> wf_hdr h \<and> str_abs h = ''atm''"
  using atm_str_new_spec [of "''atm''"] by (auto simp: c_strlen_def c_str_def NUL_def)

section \<open>Appending\<close>

lemma buf_strlen_text: "NUL \<notin> set xs \<Longrightarrow> buf_strlen (xs @ NUL # r) = Inr (length xs)"
  by (simp add: buf_strlen_def c_strlen_def)

lemma buf_strcat_text:
  assumes "NUL \<notin> set xs" "NUL \<notin> set s"
  shows "buf_strcat (xs @ NUL # r) s =
    (if length s \<le> length r then Inr (xs @ s @ NUL # drop (length s) r) else Inl Bad_access)"
  using assms by (simp add: buf_strcat_def buf_strlen_text mem_write_def)

text \<open>What growing does: either the header is unchanged, or a bigger array holds the same text.\<close>

lemma str_grow_fits:
  assumes "wf_hdr h" "unat need \<le> unat (str_cap h) - unat (str_len h)"
  shows "str_grow_hdr h need = Inr h"
proof -
  have "unat (str_cap h - str_len h) = unat (str_cap h) - unat (str_len h)"
    using assms(1) by (simp add: wf_hdr_def unat_sub word_le_nat_alt)
  then show ?thesis using assms(2) by (simp add: str_grow_hdr_def Let_def word_less_nat_alt)
qed

lemma str_grow_grows:
  assumes wf: "wf_hdr h" and need: "unat (str_cap h) - unat (str_len h) < unat need"
    and sm: "unat (str_len h) + unat need < 2 ^ 32 - 32"
  defines "k \<equiv> unat (str_len h) + unat need"
  shows "\<exists>h'. str_grow_hdr h need = Inr h' \<and> unat (str_len h') = k
    \<and> unat (str_cap h') = str_room k
    \<and> str_val h' = str_abs h @ NUL # replicate (str_room k - unat (str_len h)) NUL"
proof -
  have "unat (str_cap h - str_len h) = unat (str_cap h) - unat (str_len h)"
    using wf by (simp add: wf_hdr_def unat_sub word_le_nat_alt)
  then have lt: "str_cap h - str_len h < need" using need by (simp add: word_less_nat_alt)
  have k: "unat (str_len h + need) = k" using sm by (simp add: k_def unat_word_ariths)
  have b: "unat (str_len h + need) < 2 ^ 32 - 32" using k sm by (simp add: k_def)
  have rd: "mem_read (str_val h) 0 (unat (str_len h)) = Inr (str_abs h)"
    using wf by (simp add: wf_hdr_def str_abs_def)
  have le: "unat (str_len h) < str_room k" using str_room_bounds(1) [of k] by (simp add: k_def)
  have dr: "drop (unat (str_len h)) (replicate (Suc (str_room k)) NUL) =
      NUL # replicate (str_room k - unat (str_len h)) NUL"
    using le by (simp add: Suc_diff_le less_imp_le del: replicate_Suc) (simp)
  have g: "str_grow_hdr h need = Inr \<lparr>str_cap = atm_str_size (hdrlen + (str_len h + need) + 1) - hdrlen - 1,
      str_len = str_len h + need,
      str_val = str_abs h @ NUL # replicate (str_room k - unat (str_len h)) NUL\<rparr>"
    using lt str_alloc_size(1) [OF b] rd le dr str_abs_length [OF wf]
    by (simp add: str_grow_hdr_def Let_def k add.assoc del: replicate_Suc)
  show ?thesis using g k str_alloc_size(2) [OF b] by auto
qed

lemma atm_str_cats_ok:
  assumes wf: "wf_hdr h" and s: "NUL \<notin> set s"
    and sm: "unat (str_len h) + 2 * length s < 2 ^ 32 - 32"
  shows "\<exists>h'. atm_str_cats (Some h) (Some s) = Inr (Some h') \<and> c_str (str_val h') = str_abs h @ s
    \<and> (if length s \<le> unat (str_cap h) - unat (str_len h)
       then wf_hdr h' \<and> str_cap h' = str_cap h
       else unat (str_len h') = unat (str_len h) + 2 * length s
         \<and> unat (str_cap h') = str_room (unat (str_len h) + length s))"
proof -
  define n :: u32 where "n = of_nat (length s)"
  have n: "unat n = length s" using sm by (simp add: n_def)
  show ?thesis
  proof (cases "length s \<le> unat (str_cap h) - unat (str_len h)")
    case True
    define r where "r = drop (Suc (unat (str_len h))) (str_val h)"
    have v: "str_val h = str_abs h @ NUL # r" using wf_hdr_val [OF wf] by (simp add: r_def)
    have lr: "length r = unat (str_cap h) - unat (str_len h)" using wf by (simp add: r_def wf_hdr_def)
    have g: "atm_str_grow (Some h) n = Inr (Some h)"
      using str_grow_fits [OF wf, of n] True n by (simp add: atm_str_grow_def)
    have le: "unat (str_len h) \<le> unat (str_cap h)" using wf by (simp add: wf_hdr_def)
    have lk: "unat (str_cap h) = unat (str_len h) + length s + (unat (str_cap h) - (unat (str_len h) + length s))"
      using le True by linarith
    let ?h = "h\<lparr>str_len := str_len h + n, str_val := str_abs h @ s @ NUL # drop (length s) r\<rparr>"
    have c: "atm_str_cats (Some h) (Some s) = Inr (Some ?h)"
      using g True lr s str_abs_NUL [OF wf]
      by (simp add: atm_str_cats_def str_append_def n_def [symmetric] v buf_strcat_text)
    have "wf_hdr ?h \<and> str_abs ?h = str_abs h @ s"
      by (rule wf_hdrI [where r = "drop (length s) r"])
         (use n lk lr s str_abs_NUL [OF wf] str_abs_length [OF wf] sm in
           \<open>simp_all add: unat_word_ariths\<close>)
    then show ?thesis using c True wf_hdr_c_str [of ?h] by auto
  next
    case False
    let ?k = "unat (str_len h) + unat n"
    obtain h1 where h1: "str_grow_hdr h n = Inr h1" "unat (str_len h1) = ?k"
        "unat (str_cap h1) = str_room ?k"
        "str_val h1 = str_abs h @ NUL # replicate (str_room ?k - unat (str_len h)) NUL"
      using str_grow_grows [OF wf, of n] False n sm by auto
    have n0: "0 < n" using False n by (auto simp add: word_less_nat_alt)
    have fit: "length s \<le> str_room ?k - unat (str_len h)"
      using str_room_bounds(1) [of ?k] n by simp
    let ?v = "str_abs h @ s @ NUL # replicate (str_room ?k - unat (str_len h) - length s) NUL"
    have c: "atm_str_cats (Some h) (Some s) = Inr (Some (h1\<lparr>str_len := str_len h1 + n, str_val := ?v\<rparr>))"
      using h1(1,4) n0 fit s str_abs_NUL [OF wf]
      by (simp add: atm_str_cats_def str_append_def n_def [symmetric] atm_str_grow_def buf_strcat_text)
    have "c_str ?v = str_abs h @ s"
      using c_str_append_NUL [of "str_abs h @ s"] s str_abs_NUL [OF wf] by simp
    moreover have "unat (str_len h1 + n) = unat (str_len h) + 2 * length s"
      using h1(2) n sm by (simp add: unat_word_ariths)
    ultimately show ?thesis using c False h1(3) n by auto
  qed
qed

text \<open>
  Property C39. \<^verbatim>\<open>atm_str_cats\<close> appends the text. When it fits in the spare bytes the result
  is well formed with the same capacity; when the string has to grow, the text is right but
  the length field counts the appended text twice, because \<^verbatim>\<open>atm_str_grow\<close> has already set
  the new length when \<^verbatim>\<open>atm_str_cats\<close> adds to it.
\<close>

lemma atm_str_cats_spec:
  assumes wf: "wf_hdr h" and s: "NUL \<notin> set s"
    and sm: "unat (str_len h) + 2 * length s < 2 ^ 32 - 32"
  shows "\<exists>h'. atm_str_cats (Some h) (Some s) = Inr (Some h') \<and> c_str (str_val h') = str_abs h @ s
    \<and> (if length s \<le> unat (str_cap h) - unat (str_len h)
       then wf_hdr h' \<and> str_cap h' = str_cap h
       else unat (str_len h') = unat (str_len h) + 2 * length s
         \<and> unat (str_cap h') = str_room (unat (str_len h) + length s))"
  using assms by (rule atm_str_cats_ok)

lemma atm_str_cats_spec_witness:
  "\<exists>h'. atm_str_cats (Some \<lparr>str_cap = 7, str_len = 1, str_val = ''a'' @ replicate 7 NUL\<rparr>) (Some ''bc'')
      = Inr (Some h') \<and> c_str (str_val h') = ''abc''"
  using atm_str_cats_spec [of "\<lparr>str_cap = 7, str_len = 1, str_val = ''a'' @ replicate 7 NUL\<rparr>" "''bc''"]
  by (force simp: wf_hdr_def str_abs_def NUL_def)

text \<open>
  Property C40. The consequence: after an append that grew the string by more than 8
  characters, the length field is beyond the capacity, the spare room wraps around to almost
  4 GiB, and the next append of more than 8 characters is not grown for and runs over the
  end of the allocation.
\<close>

lemma atm_str_cats_overflow:
  assumes wf: "wf_hdr h" and s: "NUL \<notin> set s" and t: "NUL \<notin> set t"
    and grow: "unat (str_cap h) - unat (str_len h) < length s"
    and big: "8 < length s" "8 < length t"
    and sm: "unat (str_len h) + 2 * length s + length t < 2 ^ 31"
  shows "res_bind (atm_str_cats (Some h) (Some s)) (\<lambda>h'. atm_str_cats h' (Some t)) = Inl Bad_access"
proof -
  define n :: u32 where "n = of_nat (length s)"
  define m :: u32 where "m = of_nat (length t)"
  have n: "unat n = length s" and m: "unat m = length t" using sm by (simp_all add: n_def m_def)
  let ?k = "unat (str_len h) + unat n"
  obtain h1 where h1: "str_grow_hdr h n = Inr h1" "unat (str_len h1) = ?k"
      "unat (str_cap h1) = str_room ?k"
      "str_val h1 = str_abs h @ NUL # replicate (str_room ?k - unat (str_len h)) NUL"
    using str_grow_grows [OF wf, of n] grow n sm by auto
  have n0: "0 < n" and m0: "0 < m" using big n m by (auto simp add: word_less_nat_alt)
  have fit: "length s \<le> str_room ?k - unat (str_len h)"
    using str_room_bounds(1) [of ?k] n by simp
  let ?r = "replicate (str_room ?k - unat (str_len h) - length s) NUL"
  let ?h2 = "h1\<lparr>str_len := str_len h1 + n, str_val := str_abs h @ s @ NUL # ?r\<rparr>"
  have c: "atm_str_cats (Some h) (Some s) = Inr (Some ?h2)"
    using h1(1,4) n0 fit s str_abs_NUL [OF wf]
    by (simp add: atm_str_cats_def str_append_def n_def [symmetric] atm_str_grow_def buf_strcat_text)
  have l2: "unat (str_len h1 + n) = ?k + length s" using h1(2) n sm by (simp add: unat_word_ariths)
  have lt: "unat (str_cap h1) < unat (str_len h1 + n)"
    using l2 h1(3) str_room_bounds(2) [of ?k] big(1) by simp
  have "unat (str_cap h1 - (str_len h1 + n)) = 2 ^ 32 + unat (str_cap h1) - unat (str_len h1 + n)"
    using lt by (subst unat_sub_if') (simp add: word_le_nat_alt)
  then have "\<not> str_cap h1 - (str_len h1 + n) < m"
    using m l2 n sm by (simp add: word_less_nat_alt)
  then have g: "atm_str_grow (Some ?h2) m = Inr (Some ?h2)"
    using m0 by (simp add: atm_str_grow_def str_grow_hdr_def Let_def)
  have long: "\<not> length t \<le> length ?r"
    using str_room_bounds(2) [of ?k] big(2) n by simp
  have bad: "buf_strcat ((str_abs h @ s) @ NUL # ?r) t = Inl Bad_access"
    by (subst buf_strcat_text) (use long s t str_abs_NUL [OF wf] in auto)
  have "atm_str_cats (Some ?h2) (Some t) = Inl Bad_access"
    unfolding atm_str_cats_def option.case str_append_def c_strlen_no_NUL [OF t] m_def [symmetric] g
    using bad by simp
  then show ?thesis using c by (simp only: res_bind_simps)
qed

lemma atm_str_cats_overflow_witness:
  "res_bind (atm_str_cats (Some \<lparr>str_cap = 7, str_len = 1, str_val = ''a'' @ replicate 7 NUL\<rparr>)
      (Some ''workerSize 8'')) (\<lambda>h'. atm_str_cats h' (Some ''port 12345'')) = Inl Bad_access"
  by (rule atm_str_cats_overflow) (simp_all add: wf_hdr_def NUL_def)

section \<open>Comparison\<close>

lemma buf_strcmp_text:
  "NUL \<notin> set a \<Longrightarrow> NUL \<notin> set b \<Longrightarrow>
   buf_strcmp (a @ NUL # r) (b @ NUL # q) = Inr (c_strcmp a b)"
  by (induction a b rule: c_strcmp.induct) (auto simp: NUL_def)

definition byte_less :: "(char \<times> char) set" where
  "byte_less = {(x, y). (of_char x :: int) < of_char y}"

lemma c_strcmp_lex:
  "length a = length b \<Longrightarrow> c_strcmp a b < 0 \<longleftrightarrow> (a, b) \<in> lex byte_less"
  by (induction a b rule: c_strcmp.induct) (auto simp: byte_less_def)

text \<open>
  On well-formed strings \<^verbatim>\<open>atm_str_cmp\<close> is a total order on the texts:
  shorter strings first, strings of one length by their first differing byte. It is zero
  exactly for equal texts, so \<^verbatim>\<open>atm_str_match\<close> is equality of texts.
\<close>

lemma atm_str_cmp_order:
  assumes "wf_hdr h1" "wf_hdr h2"
  shows "\<exists>c. atm_str_cmp (Some h1) (Some h2) = Inr c
    \<and> (c = 0) = (str_abs h1 = str_abs h2)
    \<and> (c < 0) = ((str_abs h1, str_abs h2) \<in> lenlex byte_less)
    \<and> (c > 0) = ((str_abs h2, str_abs h1) \<in> lenlex byte_less)
    \<and> atm_str_match (Some h1) (Some h2) = Inr (str_abs h1 = str_abs h2)"
proof -
  note l1 = str_abs_length [OF assms(1)] and l2 = str_abs_length [OF assms(2)]
  note n1 = str_abs_NUL [OF assms(1)] and n2 = str_abs_NUL [OF assms(2)]
  consider "str_len h2 < str_len h1" | "str_len h1 < str_len h2" | "str_len h1 = str_len h2"
    by (metis linorder_less_linear)
  then show ?thesis
  proof cases
    case 1
    then have "length (str_abs h2) < length (str_abs h1)" using l1 l2 by (simp add: word_less_nat_alt)
    then show ?thesis using 1
      by (auto simp: atm_str_cmp_def atm_str_len_def atm_str_match_def atm_str_eq_def lenlex_conv)
  next
    case 2
    then have "length (str_abs h1) < length (str_abs h2)" using l1 l2 by (simp add: word_less_nat_alt)
    then show ?thesis using 2
      by (auto simp: atm_str_cmp_def atm_str_len_def atm_str_match_def atm_str_eq_def lenlex_conv)
  next
    case 3
    then have le: "length (str_abs h1) = length (str_abs h2)" using l1 l2 by simp
    have "buf_strcmp (str_val h1) (str_val h2) = Inr (c_strcmp (str_abs h1) (str_abs h2))"
      by (subst wf_hdr_val [OF assms(1)], subst wf_hdr_val [OF assms(2)])
         (rule buf_strcmp_text [OF n1 n2])
    then have c: "atm_str_cmp (Some h1) (Some h2) = Inr (c_strcmp (str_abs h1) (str_abs h2))"
      using 3 by (simp add: atm_str_cmp_def atm_str_len_def)
    have z: "c_strcmp (str_abs h1) (str_abs h2) = 0 \<longleftrightarrow> str_abs h1 = str_abs h2"
      using n1 n2 by (rule c_strcmp_0_iff)
    have l: "c_strcmp (str_abs h1) (str_abs h2) < 0 \<longleftrightarrow> (str_abs h1, str_abs h2) \<in> lenlex byte_less"
      using c_strcmp_lex [OF le] le by (simp add: lenlex_conv)
    have g: "c_strcmp (str_abs h1) (str_abs h2) > 0 \<longleftrightarrow> (str_abs h2, str_abs h1) \<in> lenlex byte_less"
      using c_strcmp_lex [OF le [symmetric]] le c_strcmp_swap [of "str_abs h2" "str_abs h1"]
      by (simp add: lenlex_conv)
    show ?thesis using c z l g by (simp add: atm_str_match_def atm_str_eq_def)
  qed
qed

definition hdr_of :: "char list \<Rightarrow> atm_str_hdr" where
  "hdr_of s = \<lparr>str_cap = of_nat (str_room (length s)), str_len = of_nat (length s),
     str_val = s @ replicate (Suc (str_room (length s)) - length s) NUL\<rparr>"

lemma atm_str_cmp_order_witness:
  "wf_hdr (hdr_of ''b'') \<and> wf_hdr (hdr_of ''ab'')
   \<and> atm_str_match (Some (hdr_of ''b'')) (Some (hdr_of ''ab''))
     = Inr (str_abs (hdr_of ''b'') = str_abs (hdr_of ''ab''))"
proof -
  have w: "wf_hdr (hdr_of ''b'')" "wf_hdr (hdr_of ''ab'')"
    by (simp_all add: wf_hdr_def hdr_of_def str_room_def NUL_def)
  show ?thesis using w atm_str_cmp_order [OF w] by blast
qed

text \<open>
  The string operations keep the contract of a key type: identity is the text, and the hash
  is a function of the text.
\<close>

definition str_ok :: "atm_str \<Rightarrow> bool" where
  "str_ok s \<longleftrightarrow> (\<exists>h. s = Some h \<and> wf_hdr h)"

definition str_id :: "atm_str \<Rightarrow> char list" where
  "str_id s = (case s of None \<Rightarrow> [] | Some h \<Rightarrow> str_abs h)"

definition text_hash :: "u8 list \<Rightarrow> char list \<Rightarrow> u64" where
  "text_hash seed t =
     (case atm_siphash seed (map of_char t) (of_nat (length t)) of Inl _ \<Rightarrow> 0 | Inr w \<Rightarrow> w)"

lemma atm_str_match_id:
  assumes "wf_hdr h1" "wf_hdr h2"
  shows "atm_str_match (Some h1) (Some h2) = Inr (str_abs h1 = str_abs h2)"
proof (cases "length (str_abs h1) = length (str_abs h2)")
  case True
  have "buf_strcmp (str_val h1) (str_val h2) = Inr (c_strcmp (str_abs h1) (str_abs h2))"
    by (subst wf_hdr_val [OF assms(1)], subst wf_hdr_val [OF assms(2)])
       (rule buf_strcmp_text; rule str_abs_NUL; fact assms)
  then show ?thesis
    using True assms c_strcmp_0_iff [OF assms [THEN str_abs_NUL]]
    by (simp add: atm_str_match_def atm_str_eq_def atm_str_cmp_def atm_str_len_def str_abs_length
        word_less_nat_alt)
next
  case False
  then have "str_len h1 \<noteq> str_len h2" using assms by (auto simp: str_abs_length)
  then show ?thesis using False
    by (auto simp: atm_str_match_def atm_str_eq_def atm_str_cmp_def atm_str_len_def)
qed

lemma atm_str_hash_text:
  assumes "wf_hdr h"
  shows "atm_str_hash seed (Some h) = Inr (text_hash seed (str_abs h))"
proof -
  have l: "length (map of_char (str_abs h) :: u8 list) = unat (str_len h)"
    using str_abs_length [OF assms] by simp
  obtain w where w: "\<And>rest. atm_siphash seed (map of_char (str_abs h) @ rest) (str_len h) = Inr w"
    using siphash_prefix [OF l, of seed] by blast
  have "atm_str_hash seed (Some h) = Inr w"
    using w [of "map of_char (NUL # drop (Suc (unat (str_len h))) (str_val h))"] wf_hdr_val [OF assms]
    unfolding atm_str_hash_def str_bytes_def atm_str_len_def option.case
    by (metis map_append)
  moreover have "text_hash seed (str_abs h) = w"
    using w [of "[]"] str_abs_length [OF assms] by (simp add: text_hash_def)
  ultimately show ?thesis by simp
qed

interpretation sk: key_type "ATM_STR_T seed" str_ok str_id "text_hash seed"
  by unfold_locales (auto simp: ATM_STR_T_def str_ok_def str_id_def atm_str_match_id atm_str_hash_text)

section \<open>Trimming and case conversion\<close>

definition strip_right :: "('a \<Rightarrow> bool) \<Rightarrow> 'a list \<Rightarrow> 'a list" where
  "strip_right P xs = rev (dropWhile P (rev xs))"

lemma trim_left_text:
  "NUL \<notin> set xs \<Longrightarrow> trim_left cset (pre @ xs @ r) (length pre) (length pre + length xs) =
     Inr (length pre + length (takeWhile (in_cset cset) xs))"
proof (induction xs arbitrary: pre)
  case Nil
  then show ?case by (simp add: trim_left.simps)
next
  case (Cons x xs)
  then show ?case using Cons.IH [of "pre @ [x]"]
    by (subst trim_left.simps) (auto simp: nth_append)
qed

lemma trim_right_text:
  "xs \<noteq> [] \<Longrightarrow> \<not> P (hd xs) \<Longrightarrow> P = in_cset cset \<Longrightarrow>
   trim_right cset (pre @ xs @ r) (length pre) (length pre + length xs) =
     Inr (length pre + length (strip_right P xs))"
proof (induction xs arbitrary: r rule: rev_induct)
  case Nil
  then show ?case by simp
next
  case (snoc x xs)
  show ?case
  proof (cases "xs = []")
    case True
    then show ?thesis using snoc.prems
      by (subst trim_right.simps) (simp add: strip_right_def)
  next
    case False
    then have "hd (xs @ [x]) = hd xs" by simp
    then show ?thesis using False snoc.IH [of "x # r"] snoc.prems
      by (subst trim_right.simps) (auto simp: strip_right_def nth_append)
  qed
qed

lemma atm_str_trim_text:
  assumes "wf_hdr h"
  shows "\<exists>h'. atm_str_trim (Some h) cset = Inr (Some h') \<and> wf_hdr h' \<and> str_cap h' = str_cap h
    \<and> str_abs h' = strip_right (in_cset cset) (dropWhile (in_cset cset) (str_abs h))"
proof -
  define t where "t = str_abs h"
  define a where "a = takeWhile (in_cset cset) t"
  define b where "b = dropWhile (in_cset cset) t"
  define m where "m = strip_right (in_cset cset) b"
  define q where "q = drop (length m) b"
  define r where "r = drop (Suc (unat (str_len h))) (str_val h)"
  have t: "t = a @ b" by (simp add: a_def b_def)
  have bm: "b = m @ q"
  proof -
    have "b = m @ rev (takeWhile (in_cset cset) (rev b))"
      unfolding m_def strip_right_def by (metis rev_append rev_rev_ident takeWhile_dropWhile_id)
    then have "take (length m) b = m" by (metis append_eq_conv_conj)
    then show ?thesis by (metis append_take_drop_id q_def)
  qed
  have nul: "NUL \<notin> set t" using str_abs_NUL [OF assms] by (simp add: t_def)
  have v: "str_val h = t @ NUL # r" using wf_hdr_val [OF assms] by (simp add: t_def r_def)
  have len: "unat (str_len h) = length t" using str_abs_length [OF assms] by (simp add: t_def)
  have l: "trim_left cset (str_val h) 0 (length t) = Inr (length a)"
    using trim_left_text [of t cset "[]" "NUL # r"] nul v by (simp add: a_def)
  have rr: "\<exists>e. trim_right cset (str_val h) (length a) (length t) = Inr e
      \<and> (if e \<le> length a then 0 else e - length a) = length m"
  proof (cases "b = []")
    case True
    then show ?thesis using t by (subst trim_right.simps) (simp add: m_def strip_right_def)
  next
    case False
    then have "\<not> in_cset cset (hd b)" unfolding b_def by (rule hd_dropWhile)
    then have "trim_right cset (str_val h) (length a) (length t) = Inr (length a + length m)"
      using trim_right_text [OF False, of "in_cset cset" cset a "NUL # r"] v t by (simp add: m_def)
    then show ?thesis by auto
  qed
  then obtain e where e: "trim_right cset (str_val h) (length a) (length t) = Inr e"
    and em: "(if e \<le> length a then 0 else e - length a) = length m" by blast
  let ?w = "if length a \<noteq> 0 then m @ drop (length m) (str_val h) else str_val h"
  have rd: "mem_read (str_val h) (length a) (length m) = Inr m" using v t bm by simp
  have wr: "(if length a \<noteq> 0 then mem_write (str_val h) 0 m else Inr (str_val h)) = Inr ?w"
    using v t bm by simp
  have w: "\<exists>y z. ?w = m @ y # z \<and> length z + length m = unat (str_cap h)"
  proof -
    have lv: "length ?w = Suc (unat (str_cap h))" using assms v t bm by (auto simp: wf_hdr_def)
    have tk: "take (length m) ?w = m" using v t bm by auto
    have lt: "length m < length ?w" using v t bm by (cases "length a \<noteq> 0") simp_all
    have "?w = take (length m) ?w @ ?w ! length m # drop (Suc (length m)) ?w"
      using lt by (rule id_take_nth_drop)
    then have "?w = m @ ?w ! length m # drop (Suc (length m)) ?w" unfolding tk .
    moreover have "length (drop (Suc (length m)) ?w) + length m = unat (str_cap h)"
      using lv lt by (simp only: length_drop)
    ultimately show ?thesis by blast
  qed
  then obtain y z where w: "?w = m @ y # z" "length z + length m = unat (str_cap h)" by blast
  let ?h = "\<lparr>str_cap = str_cap h, str_len = of_nat (length m), str_val = m @ NUL # z\<rparr>"
  have res: "atm_str_trim (Some h) cset = Inr (Some ?h)"
    using l e em rd wr w(1) by (simp add: atm_str_trim_def Let_def len)
  have lm: "length m < 2 ^ 32" using w(2) unat_u32 [of "str_cap h"] by simp
  have "wf_hdr ?h \<and> str_abs ?h = m"
    by (rule wf_hdrI [where r = z]) (use lm w(2) nul t bm in auto)
  then show ?thesis using res by (auto simp: m_def b_def t_def)
qed

text \<open>
  \<^verbatim>\<open>atm_str_trim\<close> removes the longest prefix and the longest suffix of
  characters of the set, in place: the capacity stays and the result is well formed.
\<close>

lemma atm_str_trim_spec:
  assumes "wf_hdr h"
  shows "\<exists>h'. atm_str_trim (Some h) cset = Inr (Some h') \<and> wf_hdr h' \<and> str_cap h' = str_cap h
    \<and> str_abs h' = strip_right (in_cset cset) (dropWhile (in_cset cset) (str_abs h))"
  using assms by (rule atm_str_trim_text)

lemma atm_str_trim_spec_witness:
  "\<exists>h'. atm_str_trim (Some (hdr_of '' port 80 '')) '' '' = Inr (Some h') \<and> str_abs h' = ''port 80''"
proof -
  have w: "wf_hdr (hdr_of '' port 80 '')" by (simp add: wf_hdr_def hdr_of_def str_room_def NUL_def)
  have "strip_right (in_cset '' '') (dropWhile (in_cset '' '') (str_abs (hdr_of '' port 80 ''))) = ''port 80''"
    by (simp add: strip_right_def in_cset_def c_str_def NUL_def str_abs_def hdr_of_def)
  then show ?thesis using atm_str_trim_spec [OF w, of "'' ''"] by auto
qed

lemma char_lower_NUL: "char_lower c = NUL \<longleftrightarrow> c = NUL"
proof
  assume a: "char_lower c = NUL"
  show "c = NUL"
  proof (cases "(65::nat) \<le> of_char c \<and> (of_char c :: nat) \<le> 90")
    case True
    then have "char_of (of_char c + 32 :: nat) = NUL" using a by (simp add: char_lower_def)
    then have "(of_char c + 32 :: nat) mod 256 = of_char NUL" by (metis of_char_of)
    then show ?thesis using True by (simp add: NUL_def)
  qed (use a in \<open>auto simp: char_lower_def Let_def split: if_splits\<close>)
qed (simp add: char_lower_def NUL_def)

lemma char_upper_NUL: "char_upper c = NUL \<longleftrightarrow> c = NUL"
proof
  assume a: "char_upper c = NUL"
  show "c = NUL"
  proof (cases "(97::nat) \<le> of_char c \<and> (of_char c :: nat) \<le> 122")
    case True
    then have "char_of (of_char c - 32 :: nat) = NUL" using a by (simp add: char_upper_def)
    then have "(of_char c - 32 :: nat) mod 256 = of_char NUL" by (metis of_char_of)
    moreover have "(of_char c :: nat) - 32 < 256" using True by linarith
    ultimately show ?thesis using True by (simp add: NUL_def)
  qed (use a in \<open>auto simp: char_upper_def Let_def split: if_splits\<close>)
qed (simp add: char_upper_def NUL_def)

lemma str_map_prefix_wf:
  assumes "wf_hdr h" "\<And>c. f c = NUL \<longleftrightarrow> c = NUL"
  shows "\<exists>h'. str_map_prefix f (Some h) = Inr (Some h') \<and> wf_hdr h' \<and> str_cap h' = str_cap h
    \<and> str_abs h' = map f (str_abs h)"
proof -
  have "NUL \<notin> f ` A \<longleftrightarrow> NUL \<notin> A" for A using assms(2) by (metis image_iff)
  then show ?thesis
    using assms(1) by (simp add: str_map_prefix_def Let_def wf_hdr_def str_abs_def nth_append)
qed

lemmas atm_str_tolower_wf = str_map_prefix_wf [OF _ char_lower_NUL, folded atm_str_tolower_def]
lemmas atm_str_toupper_wf = str_map_prefix_wf [OF _ char_upper_NUL, folded atm_str_toupper_def]

section \<open>Splitting\<close>

text \<open>
  A word of a command line: no separators and no quotes, or a text between two quotes of
  one kind, which may hold separators but no quotes.
\<close>

definition is_quote :: "char \<Rightarrow> bool" where
  "is_quote c \<longleftrightarrow> c = DQ \<or> c = SQ"

definition plain :: "char list \<Rightarrow> bool" where
  "plain t \<longleftrightarrow> (\<forall>c \<in> set t. c \<noteq> NUL \<and> \<not> is_quote c)"

definition split_word :: "char \<Rightarrow> char list \<Rightarrow> bool" where
  "split_word sep t \<longleftrightarrow> t \<noteq> [] \<and> (plain t \<and> sep \<notin> set t
     \<or> (\<exists>q xs. is_quote q \<and> plain xs \<and> t = q # xs @ [q]))"

fun join :: "char list \<Rightarrow> char list list \<Rightarrow> char list" where
  "join gap [] = []"
| "join gap [t] = t"
| "join gap (t # ts) = t @ gap @ join gap ts"

definition outside :: "char list \<Rightarrow> char list list \<Rightarrow> bool \<Rightarrow> split_st" where
  "outside tok toks trb = \<lparr>sp_qty = NUL, sp_inq = 0, sp_trb = trb, sp_tok = tok, sp_toks = toks\<rparr>"

lemma DQ_SQ [simp]: "DQ \<noteq> SQ" "SQ \<noteq> DQ" "DQ \<noteq> NUL" "SQ \<noteq> NUL" "NUL \<noteq> DQ" "NUL \<noteq> SQ"
  by (simp_all add: DQ_def SQ_def NUL_def)

lemma split_plain:
  "plain t \<Longrightarrow> sep \<notin> set t \<Longrightarrow> t \<noteq> [] \<Longrightarrow>
   fold (split_step sep) t (outside w toks trb) = outside (w @ t) toks False"
proof (induction t arbitrary: w trb)
  case (Cons c t)
  have s: "split_step sep c (outside w toks trb) = outside (w @ [c]) toks False"
    using Cons.prems by (auto simp: split_step_def outside_def plain_def is_quote_def)
  show ?case
  proof (cases "t = []")
    case False
    then show ?thesis using s Cons.IH [of "w @ [c]" False] Cons.prems by (simp add: plain_def)
  qed (use s in simp)
qed simp

lemma split_inside:
  "plain xs \<Longrightarrow> is_quote q \<Longrightarrow>
   fold (split_step sep) xs \<lparr>sp_qty = q, sp_inq = 1, sp_trb = trb, sp_tok = w, sp_toks = toks\<rparr>
   = \<lparr>sp_qty = q, sp_inq = 1, sp_trb = trb, sp_tok = w @ xs, sp_toks = toks\<rparr>"
  by (induction xs arbitrary: w)
     (auto simp: split_step_def split_quoted_def plain_def is_quote_def)

lemma split_quoted_word:
  assumes "plain xs" "is_quote q" "\<not> is_quote sep"
  shows "fold (split_step sep) (q # xs @ [q]) (outside w toks trb)
    = outside (w @ q # xs @ [q]) toks False"
proof -
  have "split_step sep q (outside w toks trb) =
      \<lparr>sp_qty = q, sp_inq = 1, sp_trb = False, sp_tok = w @ [q], sp_toks = toks\<rparr>"
    using assms by (auto simp: split_step_def outside_def is_quote_def Let_def)
  moreover have "split_step sep q \<lparr>sp_qty = q, sp_inq = 1, sp_trb = False, sp_tok = w', sp_toks = toks\<rparr>
      = outside (w' @ [q]) toks False" for w'
    using assms(2) by (auto simp: split_step_def outside_def is_quote_def split_quoted_def)
  ultimately show ?thesis using split_inside [OF assms(1,2)] by simp
qed

lemma split_word_fold:
  "split_word sep t \<Longrightarrow> \<not> is_quote sep \<Longrightarrow>
   fold (split_step sep) t (outside [] toks trb) = outside t toks False"
  unfolding split_word_def using split_plain split_quoted_word by (metis append_Nil)

lemma split_gap:
  "w \<noteq> [] \<Longrightarrow> \<not> is_quote sep \<Longrightarrow> sep \<noteq> NUL \<Longrightarrow>
   fold (split_step sep) (replicate (Suc n) sep) (outside w toks False) = outside [] (toks @ [w]) True"
proof (induction n)
  case 0
  then show ?case by (auto simp: split_step_def outside_def is_quote_def Let_def)
next
  case (Suc n)
  have e: "split_step sep sep (outside [] tk True) = outside [] tk True" for tk
    using Suc.prems by (auto simp: split_step_def outside_def is_quote_def Let_def)
  have "replicate (Suc (Suc n)) sep = replicate (Suc n) sep @ [sep]"
    by (metis replicate_Suc replicate_append_same)
  then show ?case using Suc e by (simp del: replicate_Suc)
qed

lemma split_join_fold:
  assumes "ts \<noteq> []" "\<forall>t \<in> set ts. split_word sep t" "\<not> is_quote sep" "sep \<noteq> NUL"
  shows "fold (split_step sep) (join (replicate (Suc n) sep) ts) (outside [] toks trb)
    = outside (last ts) (toks @ butlast ts) False"
  using assms(1,2)
proof (induction ts arbitrary: toks trb rule: induct_list012)
  case (2 t)
  then show ?case using split_word_fold assms(3) by simp
next
  case (3 t u ts)
  have "t \<noteq> []" using 3(4) by (simp add: split_word_def)
  have "fold (split_step sep) (replicate (Suc n) sep) (outside t toks False)
      = outside [] (toks @ [t]) True"
    using \<open>t \<noteq> []\<close> assms(3,4) by (rule split_gap)
  then show ?case
    using split_word_fold [of sep t] 3(2)[of "toks @ [t]" True] 3(4) assms(3)
    by (simp del: replicate_Suc)
qed simp

lemma split_tokens_join:
  assumes "\<forall>t \<in> set ts. split_word sep t" "\<not> is_quote sep" "sep \<noteq> NUL"
  shows "split_tokens sep (join (replicate (Suc n) sep) ts) = ts"
proof (cases "ts = []")
  case True
  then show ?thesis by (simp add: split_tokens_def split_init_def)
next
  case False
  have i: "split_init = outside [] [] False" by (simp add: split_init_def outside_def)
  have "last ts \<noteq> []" using False assms(1) by (simp add: split_word_def)
  then show ?thesis unfolding split_tokens_def i split_join_fold [OF False assms]
    using False by (simp add: outside_def Let_def)
qed

lemma new_all_spec:
  assumes "\<forall>t \<in> set ts. NUL \<notin> set t \<and> length t < 2 ^ 32 - 32"
  shows "\<exists>ss. new_all ts = Inr (map Some ss) \<and> map str_abs ss = ts \<and> (\<forall>h \<in> set ss. wf_hdr h)"
  using assms
proof (induction ts)
  case (Cons t ts)
  obtain ss where ss: "new_all ts = Inr (map Some ss)" "map str_abs ss = ts" "\<forall>h \<in> set ss. wf_hdr h"
    using Cons by auto
  have len: "c_strlen t < 2 ^ 32 - 32" "c_str t = t" using Cons.prems by simp_all
  obtain h where h: "atm_str_new (Some t) = Inr (Some h)" "wf_hdr h" "str_abs h = t"
    using atm_str_new_text [OF len(1)] len(2) by auto
  show ?case
    by (rule exI [of _ "h # ss"]) (use ss h len(2) in \<open>simp add: atm_str_mtrim_def\<close>)
qed simp

lemma split_count_map: "split_count (map Some ss @ None # r) = Inr (length ss)"
  by (induction ss) simp_all

lemma split_word_text:
  assumes "split_word sep t"
  shows "NUL \<notin> set t"
  using assms by (auto simp: split_word_def plain_def is_quote_def)

lemma join_length: "t \<in> set ts \<Longrightarrow> length t \<le> length (join gap ts)"
  by (induction gap ts rule: join.induct) auto

text \<open>
  Property C36. \<^verbatim>\<open>atm_str_split\<close> inverts joining: for words separated by runs of the
  separator, some of them quoted with separators inside, it returns exactly the words as
  well-formed strings, with the NULL sentinel behind them, and \<^verbatim>\<open>atm_str_split_size\<close> counts
  them; for no words it returns NULL.
\<close>

lemma atm_str_split_join:
  assumes words: "\<forall>t \<in> set ts. split_word sep t" and sep: "\<not> is_quote sep" "sep \<noteq> NUL"
    and s: "s = join (replicate (Suc n) sep) ts" and len: "length s < 2 ^ 31"
  shows "if ts = [] then atm_str_split s sep (length s) = Inr None
    else \<exists>hs. atm_str_split s sep (length s) = Inr (Some (map Some hs @ [None]))
      \<and> map str_abs hs = ts \<and> (\<forall>h \<in> set hs. wf_hdr h)
      \<and> atm_str_split_size (Some (map Some hs @ [None])) = Inr (length ts)"
proof -
  have tk: "split_tokens sep s = ts" unfolding s using words sep by (rule split_tokens_join)
  have rd: "mem_read s 0 (length s) = Inr s" by simp
  show ?thesis
  proof (cases "ts = []")
    case False
    have "NUL \<notin> set t \<and> length t < 2 ^ 32 - 32" if "t \<in> set ts" for t
    proof -
      have "length t \<le> length s" unfolding s using that by (rule join_length)
      then show ?thesis using len split_word_text [of sep t] words that by simp
    qed
    then obtain hs where hs: "new_all ts = Inr (map Some hs)" "map str_abs hs = ts"
        "\<forall>h \<in> set hs. wf_hdr h"
      using new_all_spec [of ts] by blast
    have "length hs = length ts" using hs(2) by auto
    then show ?thesis using False hs tk
      by (auto simp: atm_str_split_def Let_def atm_str_split_size_def split_count_map)
  qed (simp add: atm_str_split_def Let_def tk)
qed

lemma atm_str_split_join_witness:
  "\<exists>hs. atm_str_split ''set 'a b' 1'' CHR '' '' (length ''set 'a b' 1'') = Inr (Some (map Some hs @ [None]))
    \<and> map str_abs hs = [''set'', [SQ] @ ''a b'' @ [SQ], ''1'']"
proof -
  have "split_word CHR '' '' ''set''" "split_word CHR '' '' ''1''"
    by (simp_all add: split_word_def plain_def is_quote_def DQ_def SQ_def NUL_def)
  moreover have "split_word CHR '' '' ([SQ] @ ''a b'' @ [SQ])"
    unfolding split_word_def is_quote_def
    by (rule conjI, simp, rule disjI2, rule exI [of _ SQ], rule exI [of _ "''a b''"])
       (simp add: plain_def is_quote_def DQ_def SQ_def NUL_def)
  ultimately have w: "\<forall>t \<in> set [''set'', [SQ] @ ''a b'' @ [SQ], ''1'']. split_word CHR '' '' t" by simp
  have q: "\<not> is_quote CHR '' ''" "CHR '' '' \<noteq> NUL"
    by (simp_all add: is_quote_def DQ_def SQ_def NUL_def)
  have j: "''set 'a b' 1'' = join (replicate (Suc 0) CHR '' '') [''set'', [SQ] @ ''a b'' @ [SQ], ''1'']"
    by (simp add: SQ_def)
  have l: "length ''set 'a b' 1'' < 2 ^ 31" by simp
  show ?thesis
    using atm_str_split_join [OF w q j l] by (simp only: list.distinct if_False) (elim exE conjE, intro exI conjI, assumption+)
qed

end
