(* ===== verification/Atm_Str_Words.thy ===== *)
theory Atm_Str_Words
  imports Atm_Str
begin

text \<open>
  More lemmas on strings (\<^verbatim>\<open>src/core/atm_str.c\<close>) that several components use: strings as they are
  when they are new, the words of any text, comparison with a literal, and a string whose length
  field has grown beyond its capacity.
\<close>

section \<open>Messages\<close>

abbreviation NL :: char where "NL \<equiv> CHR 0x0A"

text \<open>A string with spare room that is not larger than it was when it was made.\<close>

definition fit_hdr :: "atm_str_hdr \<Rightarrow> bool" where
  "fit_hdr h \<longleftrightarrow> wf_hdr h \<and> str_len h < str_cap h \<and> unat (str_cap h) \<le> unat (str_len h) + 8
     \<and> length (str_abs h) < 2 ^ 31 - 1"

lemma str_new_fit:
  assumes "NUL \<notin> set t" "length t < 2 ^ 31 - 1"
  shows "\<exists>h. atm_str_new (Some t) = Inr (Some h) \<and> fit_hdr h \<and> str_abs h = t"
proof -
  have sm: "c_strlen t < 2 ^ 32 - 32" using assms by simp
  obtain h where h: "atm_str_new (Some t) = Inr (Some h)" "wf_hdr h" "str_abs h = t"
      "length t < unat (str_cap h)" "unat (str_cap h) \<le> length t + 8"
    using atm_str_new_text [OF sm] assms(1) by auto
  have "unat (str_len h) = length t" using str_abs_length [OF h(2)] h(3) by simp
  then have "fit_hdr h" using h assms(2) by (simp add: fit_hdr_def word_less_nat_alt)
  with h(1,3) show ?thesis by blast
qed

lemma str_newline:
  assumes "fit_hdr h"
  shows "\<exists>h'. atm_str_cats (Some h) (Some [NL]) = Inr (Some h') \<and> wf_hdr h' \<and> str_abs h' = str_abs h @ [NL]"
proof -
  have wf: "wf_hdr h" and n: "NUL \<notin> set [NL]" using assms by (simp_all add: fit_hdr_def NUL_def)
  have sm: "unat (str_len h) + 2 * length [NL] < 2 ^ 32 - 32"
    using assms str_abs_length [OF wf] by (simp add: fit_hdr_def)
  have fits: "length [NL] \<le> unat (str_cap h) - unat (str_len h)"
    using assms by (simp add: fit_hdr_def word_less_nat_alt) linarith
  obtain h' where "atm_str_cats (Some h) (Some [NL]) = Inr (Some h')" "c_str (str_val h') = str_abs h @ [NL]" "wf_hdr h'"
    using atm_str_cats_ok [OF wf n sm] unfolding if_P [OF fits] by (elim exE conjE) (rule that)
  then show ?thesis using wf_hdr_c_str [of h'] by auto
qed

lemma str_dup_fit:
  assumes "fit_hdr h"
  shows "atm_str_dup (Some h) = Inr (Some h)"
proof -
  have wf: "wf_hdr h" using assms by (simp add: fit_hdr_def)
  have c: "unat (str_cap h) + 9 < 2 ^ 32"
    using assms str_abs_length [OF wf] by (simp add: fit_hdr_def)
  have sz: "unat (hdrlen + str_cap h + 1) = unat (str_cap h) + 9"
    using c by (simp add: hdrlen_def unat_word_ariths)
  have "str_alloc (hdrlen + str_cap h + 1) = Inr (replicate (Suc (unat (str_cap h))) NUL)"
    using sz by (simp add: str_alloc_def word_less_nat_alt hdrlen_def)
  moreover have "length (str_val h) = Suc (unat (str_cap h))" using wf by (simp add: wf_hdr_def)
  ultimately show ?thesis by (simp add: atm_str_dup_def Let_def)
qed

lemma null_newline:
  "\<exists>h'. atm_str_cats_dup None (Some [NL]) = Inr (Some h') \<and> wf_hdr h' \<and> str_abs h' = [NL]"
proof -
  obtain h where h: "atm_str_new (Some []) = Inr (Some h)" "fit_hdr h" "str_abs h = []"
    using str_new_fit [of "[]"] by auto
  obtain h' where h': "atm_str_cats (Some h) (Some [NL]) = Inr (Some h')" "wf_hdr h'" "str_abs h' = [NL]"
    using str_newline [OF h(2)] h(3) by auto
  have "atm_str_cats_dup None (Some [NL]) = atm_str_cats (Some h) (Some [NL])"
    using h(1) by (simp add: atm_str_cats_dup_def atm_str_dup_def atm_str_cats_def str_append_def
        atm_str_grow_def c_strlen_def c_str_def NUL_def)
  with h' show ?thesis by auto
qed

section \<open>The words of a line\<close>

definition split_inv :: "nat \<Rightarrow> split_st \<Rightarrow> bool" where
  "split_inv n st \<longleftrightarrow> NUL \<notin> set (sp_tok st) \<and> length (sp_tok st) \<le> n
     \<and> (\<forall>t \<in> set (sp_toks st). t \<noteq> [] \<and> NUL \<notin> set t \<and> length t \<le> n)"

lemma split_quoted_toks: "sp_tok (split_quoted c st) = sp_tok st" "sp_toks (split_quoted c st) = sp_toks st"
  by (simp_all add: split_quoted_def Let_def)

lemma split_step_cases:
  obtains (same) "sp_tok (split_step sep c st) = sp_tok st" "sp_toks (split_step sep c st) = sp_toks st"
  | (snoc) "c \<noteq> NUL" "sp_tok (split_step sep c st) = sp_tok st @ [c]" "sp_toks (split_step sep c st) = sp_toks st"
  | (close) "sp_tok st \<noteq> []" "sp_tok (split_step sep c st) = []"
      "sp_toks (split_step sep c st) = sp_toks st @ [sp_tok st]"
proof -
  consider "c = NUL \<or> \<not> sp_inq st > 0 \<and> sp_inq st \<noteq> 0" | "c \<noteq> NUL" "sp_inq st > 0"
    | "c \<noteq> NUL" "sp_inq st = 0" "c \<noteq> sep" | "c \<noteq> NUL" "sp_inq st = 0" "c = sep" "sp_trb st \<or> sp_tok st = []"
    | "c \<noteq> NUL" "sp_inq st = 0" "c = sep" "\<not> sp_trb st" "sp_tok st \<noteq> []"
    by blast
  then show thesis
  proof cases
    case 1
    then show ?thesis by (intro same) (auto simp: split_step_def)
  next
    case 2
    then show ?thesis by (intro snoc) (simp_all add: split_step_def split_quoted_toks Let_def)
  next
    case 3
    then show ?thesis by (intro snoc) (simp_all add: split_step_def Let_def)
  next
    case 4
    then show ?thesis by (intro same) (auto simp: split_step_def Let_def)
  next
    case 5
    then show ?thesis by (intro close) (simp_all add: split_step_def Let_def)
  qed
qed

lemma split_step_inv: "split_inv n st \<Longrightarrow> split_inv (Suc n) (split_step sep c st)"
  by (rule split_step_cases [of sep c st]) (auto simp: split_inv_def intro: le_SucI)

lemma split_fold_inv: "split_inv n st \<Longrightarrow> split_inv (length cs + n) (fold (split_step sep) cs st)"
proof (induction cs arbitrary: n st)
  case (Cons c cs)
  from Cons.IH [OF split_step_inv [OF Cons.prems, of sep c]] show ?case by simp
qed simp

lemma split_tokens_ok:
  "\<forall>t \<in> set (split_tokens sep cs). t \<noteq> [] \<and> NUL \<notin> set t \<and> length t \<le> length cs"
proof -
  have "split_inv 0 split_init" by (simp add: split_inv_def split_init_def)
  from split_fold_inv [OF this, of cs sep] show ?thesis
    by (auto simp: split_inv_def split_tokens_def Let_def)
qed

lemma new_all_fit:
  assumes "\<forall>t \<in> set ts. NUL \<notin> set t \<and> length t < 2 ^ 31 - 1"
  shows "\<exists>hs. new_all ts = Inr (map Some hs) \<and> map str_abs hs = ts \<and> (\<forall>h \<in> set hs. fit_hdr h)"
  using assms
proof (induction ts)
  case (Cons t ts)
  obtain hs where hs: "new_all ts = Inr (map Some hs)" "map str_abs hs = ts" "\<forall>h \<in> set hs. fit_hdr h"
    using Cons by auto
  obtain h where h: "atm_str_new (Some t) = Inr (Some h)" "fit_hdr h" "str_abs h = t"
    using str_new_fit [of t] Cons.prems by auto
  show ?case
    by (rule exI [of _ "h # hs"]) (use hs h Cons.prems in \<open>simp add: atm_str_mtrim_def\<close>)
qed simp

lemma atm_str_split_fit:
  fixes sep :: char
  assumes wf: "wf_hdr h" and len: "length (str_abs h) < 2 ^ 31 - 1"
  defines "ws \<equiv> split_tokens sep (str_abs h)"
  shows "if ws = [] then atm_str_split (str_val h) sep (unat (str_len h)) = Inr None
    else \<exists>hs. atm_str_split (str_val h) sep (unat (str_len h)) = Inr (Some (map Some hs @ [None]))
      \<and> map str_abs hs = ws \<and> (\<forall>h \<in> set hs. fit_hdr h)"
proof -
  have rd: "mem_read (str_val h) 0 (unat (str_len h)) = Inr (str_abs h)"
    using wf by (simp add: str_abs_def wf_hdr_def)
  note ok = split_tokens_ok [of sep "str_abs h", folded ws_def]
  have "\<forall>t \<in> set ws. NUL \<notin> set t \<and> length t < 2 ^ 31 - 1" using ok len by fastforce
  then obtain hs where "new_all ws = Inr (map Some hs)" "map str_abs hs = ws" "\<forall>h \<in> set hs. fit_hdr h"
    using new_all_fit by blast
  then show ?thesis using rd by (auto simp: atm_str_split_def Let_def ws_def)
qed

lemma atm_str_split_words:
  fixes sep :: char
  assumes "wf_hdr h" "length (str_abs h) < 2 ^ 31 - 1"
  defines "ws \<equiv> split_tokens sep (str_abs h)"
  shows "if ws = [] then atm_str_split (str_val h) sep (unat (str_len h)) = Inr None
    else \<exists>hs. atm_str_split (str_val h) sep (unat (str_len h)) = Inr (Some (map Some hs @ [None]))
      \<and> map str_abs hs = ws \<and> (\<forall>h \<in> set hs. wf_hdr h \<and> length (str_abs h) < 2 ^ 31 - 1)"
  using atm_str_split_fit [OF assms(1,2), of sep] unfolding ws_def fit_hdr_def by (auto split: if_splits)

text \<open>A text that does not begin with the separator has a word.\<close>

lemma split_fold_some:
  "sp_tok st \<noteq> [] \<or> sp_toks st \<noteq> [] \<Longrightarrow>
   sp_tok (fold (split_step sep) cs st) \<noteq> [] \<or> sp_toks (fold (split_step sep) cs st) \<noteq> []"
proof (induction cs arbitrary: st)
  case (Cons c cs)
  have "sp_tok (split_step sep c st) \<noteq> [] \<or> sp_toks (split_step sep c st) \<noteq> []"
    by (rule split_step_cases [of sep c st]) (use Cons.prems in auto)
  then show ?case using Cons.IH by simp
qed simp

lemma split_tokens_some:
  assumes "t \<noteq> []" "hd t \<noteq> sep" "hd t \<noteq> NUL"
  shows "split_tokens sep t \<noteq> []"
proof -
  obtain c cs where t: "t = c # cs" using assms(1) by (cases t) auto
  have "sp_tok (split_step sep c split_init) \<noteq> []"
    using assms t by (simp add: split_step_def split_init_def Let_def)
  then show ?thesis using split_fold_some [of "split_step sep c split_init" sep cs] t
    by (auto simp: split_tokens_def Let_def)
qed

section \<open>Comparing with a literal\<close>

lemma atm_str_eqs_text:
  assumes "wf_hdr h" "NUL \<notin> set n" "length n < 2 ^ 31 - 1"
  shows "atm_str_eqs (Some h) n = Inr (str_abs h = n)"
proof -
  obtain h2 where h2: "atm_str_new (Some n) = Inr (Some h2)" "fit_hdr h2" "str_abs h2 = n"
    using str_new_fit [OF assms(2,3)] by blast
  have "wf_hdr h2" using h2(2) by (simp add: fit_hdr_def)
  from atm_str_match_id [OF assms(1) this] h2(1,3) show ?thesis
    by (simp add: atm_str_eqs_def atm_str_match_def atm_str_eq_def)
qed

section \<open>Strings with a wrong length\<close>

text \<open>
  After an append that had to grow the string, its length field can be larger than the
  allocation. Then the spare room wraps around, so appending never grows the string again.
\<close>

definition swollen :: "nat \<Rightarrow> atm_str_hdr \<Rightarrow> bool" where
  "swollen n h \<longleftrightarrow> unat (str_len h) = n \<and> Suc (unat (str_cap h)) < n \<and> length (str_val h) = Suc (unat (str_cap h))
     \<and> NUL \<in> set (str_val h)"

lemma cats_swollen:
  assumes sw: "swollen n h" and s: "NUL \<notin> set s" and sm: "n + length s < 2 ^ 31"
  shows "atm_str_cats (Some h) (Some s) = Inl Bad_access
    \<or> (\<exists>h'. atm_str_cats (Some h) (Some s) = Inr (Some h') \<and> swollen (n + length s) h')"
proof -
  define m :: u32 where "m = of_nat (length s)"
  have m: "unat m = length s" using sm by (simp add: m_def)
  have lt: "unat (str_cap h) < unat (str_len h)" and n: "unat (str_len h) = n" using sw by (simp_all add: swollen_def)
  have "unat (str_cap h - str_len h) = 2 ^ 32 + unat (str_cap h) - unat (str_len h)"
    using lt by (subst unat_sub_if') (simp add: word_le_nat_alt)
  then have "\<not> str_cap h - str_len h < m" using m n sm lt by (simp add: word_less_nat_alt)
  then have g: "atm_str_grow (Some h) m = Inr (Some h)"
    by (simp add: atm_str_grow_def str_grow_hdr_def Let_def)
  have c: "atm_str_cats (Some h) (Some s) =
      res_map (\<lambda>v. Some (h\<lparr>str_len := str_len h + m, str_val := v\<rparr>)) (buf_strcat (str_val h) s)"
    unfolding atm_str_cats_def option.case str_append_def c_strlen_no_NUL [OF s] m_def [symmetric] g
    by (simp add: Let_def)
  have "buf_strcat (str_val h) s = Inl Bad_access
      \<or> (\<exists>v. buf_strcat (str_val h) s = Inr v \<and> length v = length (str_val h) \<and> NUL \<in> set v)"
    using sw by (auto simp: buf_strcat_def buf_strlen_def swollen_def mem_write_def)
  moreover have "unat (str_len h + m) = n + length s" using n m sm by (simp add: unat_word_ariths)
  ultimately show ?thesis using sw c by (auto simp: swollen_def)
qed

lemma cats_swells:
  assumes wf: "wf_hdr h" and s: "NUL \<notin> set s" and grow: "unat (str_cap h) - unat (str_len h) < length s"
    and big: "9 < length s" and sm: "unat (str_len h) + 2 * length s < 2 ^ 31"
  shows "\<exists>h'. atm_str_cats (Some h) (Some s) = Inr (Some h') \<and> swollen (unat (str_len h) + 2 * length s) h'"
proof -
  have sm': "unat (str_len h) + 2 * length s < 2 ^ 32 - 32" using sm by simp
  define k where "k = unat (str_len h) + length s"
  define n :: u32 where "n = of_nat (length s)"
  have n: "unat n = length s" using sm by (simp add: n_def)
  obtain h1 where h1: "str_grow_hdr h n = Inr h1" "unat (str_len h1) = k" "unat (str_cap h1) = str_room k"
      "str_val h1 = str_abs h @ NUL # replicate (str_room k - unat (str_len h)) NUL"
    using str_grow_grows [OF wf, of n] grow n sm unfolding k_def by auto
  have n0: "0 < n" using big n by (auto simp add: word_less_nat_alt)
  have fit: "length s \<le> str_room k - unat (str_len h)" using str_room_bounds(1) [of k] by (simp add: k_def)
  let ?v = "str_abs h @ s @ NUL # replicate (str_room k - unat (str_len h) - length s) NUL"
  let ?h = "h1\<lparr>str_len := str_len h1 + n, str_val := ?v\<rparr>"
  have c: "atm_str_cats (Some h) (Some s) = Inr (Some ?h)"
    using h1(1,4) n0 fit s str_abs_NUL [OF wf]
    by (simp add: atm_str_cats_def str_append_def n_def [symmetric] atm_str_grow_def buf_strcat_text)
  have "unat (str_len h1 + n) = unat (str_len h) + 2 * length s"
    using h1(2) n sm by (simp add: unat_word_ariths k_def)
  moreover have "length ?v = Suc (unat (str_cap h1))"
    using h1(3) fit str_abs_length [OF wf] str_room_bounds(1) [of k] by (simp add: k_def)
  moreover have "Suc (str_room k) < unat (str_len h) + 2 * length s"
    using str_room_bounds(2) [of k] big by (simp add: k_def)
  ultimately have "swollen (unat (str_len h) + 2 * length s) ?h" using h1(3) by (simp add: swollen_def)
  then show ?thesis using c by blast
qed

lemma split_swollen:
  "swollen n h \<Longrightarrow> atm_str_split (str_val h) sep (unat (str_len h)) = Inl Bad_access"
  by (simp add: swollen_def atm_str_split_def mem_read_def)

end
