(* ===== verification/Atm_Arr.thy ===== *)
theory Atm_Arr
  imports Atm_Core
begin

text \<open>
  \<^verbatim>\<open>src/core/atm_arr.c\<close>: the growable array, as bytes, with the part of
  \<^verbatim>\<open>src/os/unix/atm_alloc.c\<close> it uses. Offsets are products of 32-bit words and wrap around as
  in the code; under the invariant (the allocation is smaller than 4 GiB) they do not. The
  refinement: each operation is the list operation on the elements that its name says, and
  the invariant that makes every \<^verbatim>\<open>memcpy\<close> stay inside the allocation is kept.
\<close>

section \<open>Allocation\<close>

definition atm_alloc :: "u32 \<Rightarrow> u8 list" where
  "atm_alloc sz = replicate (unat sz) 0"

definition atm_calloc :: "u32 \<Rightarrow> u32 \<Rightarrow> u8 list" where
  "atm_calloc nmemb sz = replicate (unat nmemb * unat sz) 0"

definition atm_realloc :: "u8 list \<Rightarrow> u32 \<Rightarrow> u32 \<Rightarrow> u8 list res" where
  "atm_realloc p osz nsz =
     (let len = min osz nsz; ptr = atm_alloc nsz in
      if 0 < len then res_bind (mem_read p 0 (unat len)) (mem_write ptr 0) else Inr ptr)"

section \<open>The array and its operations\<close>

definition ATM_ARR_INITIAL_LEN :: u32 where "ATM_ARR_INITIAL_LEN = 32"

record atm_arr =
  arr_vals :: "u8 list"
  arr_cap :: u32
  arr_len :: u32
  arr_tsize :: u32

definition atm_arr_new :: "u32 \<Rightarrow> atm_arr option" where
  "atm_arr_new tsize =
     (if 0 < tsize then
        Some \<lparr>arr_vals = atm_calloc ATM_ARR_INITIAL_LEN tsize, arr_cap = ATM_ARR_INITIAL_LEN,
              arr_len = 0, arr_tsize = tsize\<rparr>
      else None)"

text \<open>
  The new block of \<^verbatim>\<open>atm_realloc\<close> is never the old one, which is still allocated, so the
  branch that exits when the two addresses agree is not reachable.
\<close>

definition atm_arr_grow :: "atm_arr \<Rightarrow> atm_arr res" where
  "atm_arr_grow a =
     (if arr_len a * 3 div 2 + 1 > arr_cap a then
        let osz = arr_cap a * arr_tsize a; nsz = arr_cap a * arr_tsize a * 2 in
        res_map (\<lambda>p. a\<lparr>arr_vals := p, arr_cap := arr_cap a * 2\<rparr>) (atm_realloc (arr_vals a) osz nsz)
      else Inr a)"

definition atm_arr_add :: "atm_arr \<Rightarrow> u8 list option \<Rightarrow> (u32 \<times> atm_arr) res" where
  "atm_arr_add a v =
     (case v of None \<Rightarrow> Inr (0, a)
      | Some w \<Rightarrow>
          res_bind (atm_arr_grow a) (\<lambda>a.
          res_bind (mem_read w 0 (unat (arr_tsize a))) (\<lambda>b.
          res_map (\<lambda>p. (arr_len a, a\<lparr>arr_vals := p, arr_len := arr_len a + 1\<rparr>))
            (mem_write (arr_vals a) (unat (arr_tsize a * arr_len a)) b))))"

text \<open>The result is a pointer into the array: its offset.\<close>

definition atm_arr_get :: "atm_arr \<Rightarrow> u32 \<Rightarrow> nat option" where
  "atm_arr_get a i = (if i < arr_len a then Some (unat (arr_tsize a * i)) else None)"

definition atm_arr_set :: "atm_arr option \<Rightarrow> u32 \<Rightarrow> u8 list \<Rightarrow> (int \<times> atm_arr option) res" where
  "atm_arr_set arr i v =
     (case arr of None \<Rightarrow> Inr (ATM_ERROR, None)
      | Some a \<Rightarrow>
          if i < arr_len a then
            res_bind (mem_read v 0 (unat (arr_tsize a))) (\<lambda>b.
            res_map (\<lambda>p. (ATM_OK, Some (a\<lparr>arr_vals := p\<rparr>)))
              (mem_write (arr_vals a) (unat (i * arr_tsize a)) b))
          else Inr (ATM_ERROR, arr))"

text \<open>The two \<^verbatim>\<open>memcpy\<close> calls of \<^verbatim>\<open>atm_arr_del\<close> into the new block, each only for \<^verbatim>\<open>l > 0\<close>.\<close>

definition copy_part :: "u8 list \<Rightarrow> u32 \<Rightarrow> u32 \<Rightarrow> u32 \<Rightarrow> u8 list \<Rightarrow> u8 list res" where
  "copy_part src so d l dst =
     (if 0 < l then res_bind (mem_read src (unat so) (unat l)) (mem_write dst (unat d)) else Inr dst)"

definition atm_arr_del :: "atm_arr option \<Rightarrow> u32 \<Rightarrow> (int \<times> atm_arr option) res" where
  "atm_arr_del arr i =
     (case arr of None \<Rightarrow> Inr (ATM_ERROR, None)
      | Some a \<Rightarrow>
          let tsize = arr_tsize a; currlen = arr_len a; currcap = arr_cap a in
          if i < currlen then
            let newcap = (if currlen * 4 < currcap \<and> ATM_ARR_INITIAL_LEN * 2 \<le> currcap
                          then currcap div 2 else currcap);
                vn = atm_calloc newcap tsize
            in res_bind (copy_part (arr_vals a) 0 0 (i * tsize) vn) (\<lambda>vn.
               res_map (\<lambda>vn. (ATM_OK, Some (a\<lparr>arr_vals := vn, arr_len := currlen - 1, arr_cap := newcap\<rparr>)))
                 (copy_part (arr_vals a) ((i + 1) * tsize) (i * tsize) (((currlen - 1) - i) * tsize) vn))
          else Inr (ATM_ERROR, arr))"

section \<open>The invariant and the elements\<close>

text \<open>
  The allocation holds the capacity, fits in 32-bit offsets even when doubled, and has room
  for the elements. \<^verbatim>\<open>arr_elems\<close> are the elements, each a block of \<^verbatim>\<open>tsize\<close> bytes.
\<close>

definition wf_arr :: "atm_arr \<Rightarrow> bool" where
  "wf_arr a \<longleftrightarrow> 0 < unat (arr_tsize a) \<and> 32 \<le> unat (arr_cap a)
     \<and> unat (arr_len a) \<le> unat (arr_cap a) \<and> 4 * unat (arr_cap a) < 2 ^ 32
     \<and> unat (arr_cap a) * unat (arr_tsize a) < 2 ^ 32
     \<and> length (arr_vals a) = unat (arr_cap a) * unat (arr_tsize a)"

definition elem_at :: "nat \<Rightarrow> u8 list \<Rightarrow> nat \<Rightarrow> u8 list" where
  "elem_at ts bs i = take ts (drop (i * ts) bs)"

definition arr_elems :: "atm_arr \<Rightarrow> u8 list list" where
  "arr_elems a = map (elem_at (unat (arr_tsize a)) (arr_vals a)) [0..<unat (arr_len a)]"

lemma arr_elems_length [simp]: "length (arr_elems a) = unat (arr_len a)"
  by (simp add: arr_elems_def)

lemma elem_fits: "i < n \<Longrightarrow> i * ts + ts \<le> n * (ts :: nat)"
  using mult_le_mono1 [of "Suc i" n ts] by simp

lemma elem_at_write:
  assumes "i < n" "length bs = n * ts" "length b = ts" "j < n"
  shows "elem_at ts (take (i * ts) bs @ b @ drop (i * ts + ts) bs) j =
    (if j = i then b else elem_at ts bs j)"
proof -
  have len: "length (take (i * ts) bs) = i * ts" using elem_fits [OF assms(1), of ts] assms(2) by simp
  consider "j < i" | "j = i" | "i < j" by linarith
  then show ?thesis
  proof cases
    case 1
    have "j * ts + ts \<le> i * ts" using elem_fits [OF 1] by simp
    then show ?thesis using 1 len by (simp add: elem_at_def drop_take)
  next
    case 2
    then show ?thesis using len assms(3) by (simp add: elem_at_def)
  next
    case 3
    have "i * ts + ts \<le> j * ts" using elem_fits [OF 3] by simp
    then show ?thesis using 3 len assms(3) by (simp add: elem_at_def algebra_simps)
  qed
qed

lemma elem_at_prefix:
  assumes "i < n" "n * ts \<le> length bs"
  shows "elem_at ts (take (n * ts) bs @ r) i = elem_at ts bs i"
  using elem_fits [OF assms(1), of ts] assms(2) by (simp add: elem_at_def drop_take)

lemma unat_mult_small:
  "unat (x :: u32) * unat y < 2 ^ 32 \<Longrightarrow> unat (x * y) = unat x * unat y"
  by (simp add: unat_word_ariths)

lemma arr_offset:
  assumes "wf_arr a" "unat i \<le> unat (arr_cap a)"
  shows "unat (arr_tsize a * i) = unat i * unat (arr_tsize a)"
    and "unat (i * arr_tsize a) = unat i * unat (arr_tsize a)"
proof -
  have "unat i * unat (arr_tsize a) \<le> unat (arr_cap a) * unat (arr_tsize a)"
    using assms(2) by (rule mult_le_mono1)
  moreover have "unat (arr_cap a) * unat (arr_tsize a) < 2 ^ 32" using assms(1) by (simp only: wf_arr_def)
  ultimately have lt: "unat i * unat (arr_tsize a) < 2 ^ 32" by (rule order.strict_trans1)
  then show "unat (i * arr_tsize a) = unat i * unat (arr_tsize a)" by (rule unat_mult_small)
  then show "unat (arr_tsize a * i) = unat i * unat (arr_tsize a)" by (simp add: mult.commute)
qed

lemma wf_arr_new:
  assumes "unat ts < 2 ^ 27" "0 < unat ts"
  shows "\<exists>a. atm_arr_new ts = Some a \<and> wf_arr a \<and> arr_elems a = [] \<and> arr_tsize a = ts"
  using assms
  by (simp add: atm_arr_new_def wf_arr_def arr_elems_def atm_calloc_def ATM_ARR_INITIAL_LEN_def
      word_less_nat_alt)

text \<open>Adding may double the allocation once; \<^verbatim>\<open>arr_room\<close> says that doubling stays below 4 GiB.\<close>

definition arr_room :: "atm_arr \<Rightarrow> bool" where
  "arr_room a \<longleftrightarrow> 8 * unat (arr_cap a) < 2 ^ 32 \<and> 2 * (unat (arr_cap a) * unat (arr_tsize a)) < 2 ^ 32"

lemma arr_elems_cong:
  assumes "arr_tsize b = arr_tsize a" "arr_len b = arr_len a"
    "\<And>j. j < unat (arr_len a) \<Longrightarrow>
      elem_at (unat (arr_tsize a)) (arr_vals b) j = elem_at (unat (arr_tsize a)) (arr_vals a) j"
  shows "arr_elems b = arr_elems a"
  using assms by (simp add: arr_elems_def)

lemma atm_arr_grow_spec:
  assumes wf: "wf_arr a" and room: "arr_room a"
  shows "\<exists>b. atm_arr_grow a = Inr b \<and> wf_arr b \<and> arr_elems b = arr_elems a
    \<and> arr_tsize b = arr_tsize a \<and> arr_len b = arr_len a \<and> unat (arr_len b) < unat (arr_cap b)"
proof -
  let ?ts = "unat (arr_tsize a)" and ?c = "unat (arr_cap a)" and ?n = "unat (arr_len a)"
  note w = wf [unfolded wf_arr_def] and r = room [unfolded arr_room_def]
  have s: "unat (arr_len a * 3 div 2 + 1) = ?n * 3 div 2 + 1"
  proof -
    have "unat (arr_len a * 3) = ?n * 3" using w by (simp add: unat_word_ariths)
    moreover have "Suc (?n * 3 div 2) < 2 ^ 32" using w by linarith
    ultimately show ?thesis by (simp add: unat_word_ariths unat_div)
  qed
  show ?thesis
  proof (cases "arr_len a * 3 div 2 + 1 > arr_cap a")
    case False
    then have "?n < ?c" using s by (simp add: word_less_nat_alt)
    then show ?thesis using False wf by (simp add: atm_arr_grow_def)
  next
    case True
    have osz: "unat (arr_cap a * arr_tsize a) = ?c * ?ts" using w by (intro unat_mult_small) simp
    have nsz: "unat (arr_cap a * arr_tsize a * 2) = 2 * (?c * ?ts)"
      using osz r by (simp add: unat_word_ariths)
    have cap: "unat (arr_cap a * 2) = 2 * ?c" using r by (simp add: unat_word_ariths)
    have pos: "0 < ?c * ?ts" using w by simp
    have mn: "min (arr_cap a * arr_tsize a) (arr_cap a * arr_tsize a * 2) = arr_cap a * arr_tsize a"
      using osz nsz by (simp add: min_def word_le_nat_alt)
    have re: "atm_realloc (arr_vals a) (arr_cap a * arr_tsize a) (arr_cap a * arr_tsize a * 2) =
        Inr (arr_vals a @ replicate (?c * ?ts) 0)"
      using osz nsz pos w mn
      by (simp add: atm_realloc_def Let_def atm_alloc_def word_less_nat_alt)
    let ?b = "a\<lparr>arr_vals := arr_vals a @ replicate (?c * ?ts) 0, arr_cap := arr_cap a * 2\<rparr>"
    have g: "atm_arr_grow a = Inr ?b" using True re by (simp add: atm_arr_grow_def Let_def)
    have "wf_arr ?b" using w r cap by (simp add: wf_arr_def)
    moreover have "arr_elems ?b = arr_elems a"
    proof (rule arr_elems_cong)
      fix j assume "j < ?n"
      then have "j < ?c" using w by simp
      then show "elem_at ?ts (arr_vals ?b) j = elem_at ?ts (arr_vals a) j"
        using elem_at_prefix [of j ?c ?ts "arr_vals a"] w by simp
    qed simp_all
    moreover have "?n < unat (arr_cap ?b)" using cap w by simp
    ultimately show ?thesis using g by auto
  qed
qed

text \<open>
  \<^verbatim>\<open>atm_arr_add\<close> appends the element and returns its index, growing the
  allocation when it has to; the invariant is kept, so no \<^verbatim>\<open>memcpy\<close> leaves the allocation.
\<close>

theorem atm_arr_add_appends:
  assumes "wf_arr a" "arr_room a" "unat (arr_tsize a) \<le> length v"
  shows "\<exists>b. atm_arr_add a (Some v) = Inr (arr_len a, b) \<and> wf_arr b
    \<and> arr_elems b = arr_elems a @ [take (unat (arr_tsize a)) v] \<and> arr_tsize b = arr_tsize a"
proof -
  obtain b where b: "atm_arr_grow a = Inr b" "wf_arr b" "arr_elems b = arr_elems a"
      "arr_tsize b = arr_tsize a" "arr_len b = arr_len a" "unat (arr_len b) < unat (arr_cap b)"
    using atm_arr_grow_spec [OF assms(1,2)] by blast
  let ?ts = "unat (arr_tsize a)" and ?c = "unat (arr_cap b)" and ?n = "unat (arr_len a)"
  let ?e = "take ?ts v"
  note w = b(2) [unfolded wf_arr_def b(4)]
  have off: "unat (arr_tsize b * arr_len b) = ?n * ?ts" using arr_offset [OF b(2), of "arr_len b"] b(4,5,6) by simp
  have fit: "?n * ?ts + ?ts \<le> length (arr_vals b)" using elem_fits [of ?n ?c ?ts] b(5,6) w by simp
  let ?v = "take (?n * ?ts) (arr_vals b) @ ?e @ drop (?n * ?ts + ?ts) (arr_vals b)"
  let ?r = "b\<lparr>arr_vals := ?v, arr_len := arr_len b + 1\<rparr>"
  have res: "atm_arr_add a (Some v) = Inr (arr_len a, ?r)"
    using b(1,4,5) off fit assms(3) by (simp add: atm_arr_add_def min_absorb2)
  have len: "unat (arr_len b + 1) = Suc ?n" using b(5,6) w by (simp add: unat_word_ariths)
  have "wf_arr ?r" using w len b(4,5,6) fit assms(3) by (simp add: wf_arr_def)
  moreover have "arr_elems ?r = arr_elems a @ [?e]"
  proof -
    have el: "elem_at ?ts ?v j = (if j = ?n then ?e else elem_at ?ts (arr_vals b) j)" if "j < ?c" for j
      by (rule elem_at_write [of _ ?c]) (use b(5,6) w assms(3) that in simp_all)
    have "arr_elems ?r = map (elem_at ?ts ?v) [0..<?n] @ [elem_at ?ts ?v ?n]"
      using len b(4) by (simp add: arr_elems_def)
    also have "map (elem_at ?ts ?v) [0..<?n] = map (elem_at ?ts (arr_vals b)) [0..<?n]"
      using el b(5,6) by (intro map_cong) auto
    also have "\<dots> = arr_elems a" using b(3,4,5) by (simp add: arr_elems_def)
    finally show ?thesis using el [of ?n] b(5,6) by simp
  qed
  ultimately show ?thesis using res b(4) by auto
qed

text \<open>The capacity stays within three times the length, so a bound on the length gives the room.\<close>

lemma atm_arr_add_cap:
  assumes wf: "wf_arr a" and b: "atm_arr_add a (Some v) = Inr (i, b)"
  shows "unat (arr_cap b) \<le> max (unat (arr_cap a)) (3 * unat (arr_len a) + 2)"
proof -
  let ?n = "unat (arr_len a)"
  note w = wf [unfolded wf_arr_def]
  have "unat (arr_len a * 3) = ?n * 3" using w by (simp add: unat_word_ariths)
  moreover have "Suc (?n * 3 div 2) < 2 ^ 32" using w by linarith
  ultimately have s: "unat (arr_len a * 3 div 2 + 1) = ?n * 3 div 2 + 1"
    by (simp add: unat_word_ariths unat_div)
  have c: "unat (arr_cap a * 2) = 2 * unat (arr_cap a)" using w by (simp add: unat_word_ariths)
  obtain g where g: "atm_arr_grow a = Inr g" "arr_cap b = arr_cap g"
    using b by (auto simp: atm_arr_add_def res_bind_eq_Inr res_map_eq_Inr)
  have "arr_cap g = (if arr_len a * 3 div 2 + 1 > arr_cap a then arr_cap a * 2 else arr_cap a)"
    using g(1) by (auto simp: atm_arr_grow_def Let_def res_map_eq_Inr split: if_splits)
  then show ?thesis using g(2) s c by (auto simp: word_less_nat_alt)
qed

text \<open>Copying a part: with the bounds of the offsets it is a write of a read.\<close>

lemma copy_part_Inr:
  assumes "unat so + unat l \<le> length src" "unat d + unat l \<le> length dst"
  shows "copy_part src so d l dst =
    Inr (take (unat d) dst @ take (unat l) (drop (unat so) src) @ drop (unat d + unat l) dst)"
proof (cases "0 < l")
  case True
  then show ?thesis using assms by (simp add: copy_part_def min_absorb2)
next
  case False
  then have "unat l = 0" by (simp add: word_less_nat_alt)
  then show ?thesis using False by (simp add: copy_part_def)
qed

lemma copy_part_length: "copy_part src so d l dst = Inr r \<Longrightarrow> length r = length dst"
  by (auto simp: copy_part_def res_bind_eq_Inr dest: mem_write_length split: if_splits)

lemma elem_at_del:
  assumes "i < k" "k * ts \<le> length bs" "j < k - 1"
  shows "elem_at ts (take (i * ts) bs @ take ((k - 1 - i) * ts) (drop (Suc i * ts) bs) @ r) j
    = elem_at ts bs (if j < i then j else Suc j)"
proof (cases "j < i")
  case True
  have "i * ts \<le> k * ts" using assms(1) by simp
  then have "elem_at ts (take (i * ts) bs @ (take ((k - 1 - i) * ts) (drop (Suc i * ts) bs) @ r)) j
      = elem_at ts bs j"
    by (intro elem_at_prefix True) (use assms(2) in linarith)
  then show ?thesis using True by simp
next
  case False
  define d where "d = j - i"
  have j: "j = i + d" using False by (simp add: d_def)
  have "i * ts \<le> length bs"
    using assms(2) mult_le_mono1 [OF less_imp_le [OF assms(1)], of ts] by linarith
  then have len: "length (take (i * ts) bs) = i * ts" by simp
  have m: "(k - 1 - i) * ts \<le> length (drop (Suc i * ts) bs)"
  proof -
    have "k * ts = (k - 1 - i) * ts + Suc i * ts"
      using assms(1) by (metis Suc_leI add.commute add_mult_distrib diff_Suc_eq_diff_pred
          diff_commute le_add_diff_inverse)
    then show ?thesis using assms(2) by simp
  qed
  have dk: "d < k - 1 - i" using assms(3) j by linarith
  have "elem_at ts (take (i * ts) bs @ take ((k - 1 - i) * ts) (drop (Suc i * ts) bs) @ r) j
      = elem_at ts (take ((k - 1 - i) * ts) (drop (Suc i * ts) bs) @ r) d"
    using len by (simp add: elem_at_def j add_mult_distrib)
  also have "\<dots> = elem_at ts (drop (Suc i * ts) bs) d"
    by (rule elem_at_prefix [OF dk m])
  also have "\<dots> = elem_at ts bs (Suc j)"
    by (simp add: elem_at_def j algebra_simps)
  finally show ?thesis using False by simp
qed

lemma u32_halve: "unat (n div 2 :: u32) = unat n div 2"
  by (simp add: unat_div)

text \<open>The new capacity of a deletion still holds the elements.\<close>

lemma del_newcap:
  assumes "wf_arr a" "0 < unat (arr_len a)"
  defines "nc \<equiv> if arr_len a * 4 < arr_cap a \<and> ATM_ARR_INITIAL_LEN * 2 \<le> arr_cap a
      then arr_cap a div 2 else arr_cap a"
  shows "unat (arr_len a) \<le> unat nc" "32 \<le> unat nc" "unat nc \<le> unat (arr_cap a)"
proof -
  note w = assms(1) [unfolded wf_arr_def]
  have l4: "unat (arr_len a * 4) = unat (arr_len a) * 4" using w by (simp add: unat_word_ariths)
  show "unat (arr_len a) \<le> unat nc" "32 \<le> unat nc" "unat nc \<le> unat (arr_cap a)"
    using w l4 by (auto simp: nc_def u32_halve word_less_nat_alt word_le_nat_alt ATM_ARR_INITIAL_LEN_def)
qed

text \<open>
  \<^verbatim>\<open>atm_arr_del\<close> removes exactly the element at the index and keeps the others
  in order, whether or not it halves the allocation, and the invariant is kept; an index out
  of range is an error that changes nothing.
\<close>

theorem atm_arr_del_removes:
  assumes "wf_arr a"
  shows "if i < arr_len a
    then \<exists>b. atm_arr_del (Some a) i = Inr (ATM_OK, Some b) \<and> wf_arr b \<and> arr_tsize b = arr_tsize a
      \<and> arr_elems b = take (unat i) (arr_elems a) @ drop (Suc (unat i)) (arr_elems a)
    else atm_arr_del (Some a) i = Inr (ATM_ERROR, Some a)"
proof (cases "i < arr_len a")
  case True
  let ?ts = "unat (arr_tsize a)" and ?k = "unat (arr_len a)" and ?i = "unat i"
  define nc where "nc = (if arr_len a * 4 < arr_cap a \<and> ATM_ARR_INITIAL_LEN * 2 \<le> arr_cap a
      then arr_cap a div 2 else arr_cap a)"
  note w = assms [unfolded wf_arr_def]
  have ik: "?i < ?k" using True by (simp add: word_less_nat_alt)
  then have nc: "?k \<le> unat nc" "32 \<le> unat nc" "unat nc \<le> unat (arr_cap a)"
    using del_newcap [OF assms] by (simp_all add: nc_def)
  have i1: "unat (i + 1) = Suc ?i" using ik w by (simp add: unat_word_ariths)
  have k1: "unat (arr_len a - 1 - i) = ?k - 1 - ?i"
  proof -
    have "unat (arr_len a - 1) = ?k - 1" using ik by (subst unat_sub) (auto simp: word_le_nat_alt)
    then show ?thesis using ik by (subst unat_sub) (auto simp: word_le_nat_alt)
  qed
  have o1: "unat (i * arr_tsize a) = ?i * ?ts" using arr_offset(2) [OF assms, of i] ik w by simp
  have o2: "unat ((i + 1) * arr_tsize a) = Suc ?i * ?ts"
    using arr_offset(2) [OF assms, of "i + 1"] ik w i1 by simp
  have o3: "unat ((arr_len a - 1 - i) * arr_tsize a) = (?k - 1 - ?i) * ?ts"
  proof -
    have "unat (arr_len a - 1 - i) \<le> unat (arr_cap a)" unfolding k1 using w by linarith
    from arr_offset(2) [OF assms this] show ?thesis unfolding k1 .
  qed
  have kc: "?k * ?ts \<le> length (arr_vals a)" using w mult_le_mono1 by simp
  have kn: "?k * ?ts \<le> unat nc * ?ts" using nc(1) by simp
  have sum: "Suc ?i * ?ts + (?k - 1 - ?i) * ?ts = ?k * ?ts"
    using ik by (metis Suc_leI add_mult_distrib diff_Suc_eq_diff_pred diff_commute le_add_diff_inverse)
  let ?zs = "replicate (unat nc * ?ts) (0 :: u8)"
  let ?v1 = "take (?i * ?ts) (arr_vals a) @ drop (?i * ?ts) ?zs"
  have il: "?i * ?ts \<le> length (arr_vals a)" and iz: "?i * ?ts \<le> unat nc * ?ts"
    using sum kc kn by (simp_all only: length_replicate mult_Suc)
  have c1: "copy_part (arr_vals a) 0 0 (i * arr_tsize a) (atm_calloc nc (arr_tsize a)) = Inr ?v1"
    using copy_part_Inr [of 0 "i * arr_tsize a" "arr_vals a" 0 ?zs] o1 il iz
    by (simp add: atm_calloc_def del: drop_replicate mult_le_cancel2)
  have l1: "length ?v1 = unat nc * ?ts" using il iz by (simp del: mult_le_cancel2)
  let ?v2 = "take (?i * ?ts) (arr_vals a) @ take ((?k - 1 - ?i) * ?ts) (drop (Suc ?i * ?ts) (arr_vals a))
      @ drop (?i * ?ts + (?k - 1 - ?i) * ?ts) ?v1"
  have c2: "copy_part (arr_vals a) ((i + 1) * arr_tsize a) (i * arr_tsize a)
      ((arr_len a - 1 - i) * arr_tsize a) ?v1 = Inr ?v2"
  proof -
    have tk: "take (?i * ?ts) ?v1 = take (?i * ?ts) (arr_vals a)" using il by simp
    have p1: "unat ((i + 1) * arr_tsize a) + unat ((arr_len a - 1 - i) * arr_tsize a) \<le> length (arr_vals a)"
      unfolding o2 o3 using sum kc by linarith
    have p2: "unat (i * arr_tsize a) + unat ((arr_len a - 1 - i) * arr_tsize a) \<le> length ?v1"
      unfolding o1 o3 l1 using sum kn by (simp only: mult_Suc)
    show ?thesis using copy_part_Inr [OF p1 p2] unfolding o1 o2 o3 tk .
  qed
  define v2 where "v2 = ?v2"
  note c2 = c2 [folded v2_def]
  let ?b = "a\<lparr>arr_vals := v2, arr_len := arr_len a - 1, arr_cap := nc\<rparr>"
  have res: "atm_arr_del (Some a) i = Inr (ATM_OK, Some ?b)"
    using True c1 c2 unfolding atm_arr_del_def option.case Let_def nc_def [symmetric] by simp
  have len: "unat (arr_len a - 1) = ?k - 1" using ik by (subst unat_sub) (auto simp: word_le_nat_alt)
  have lv: "length v2 = unat nc * ?ts" using copy_part_length [OF c2] l1 by (simp only:)
  have "wf_arr ?b"
  proof -
    have "unat nc * ?ts \<le> unat (arr_cap a) * ?ts" using nc(3) by simp
    then have c: "unat nc * ?ts < 2 ^ 32" using w by linarith
    show ?thesis unfolding wf_arr_def atm_arr.simps atm_arr.update_convs
      using w nc len lv c by auto
  qed
  moreover have "arr_elems ?b = take ?i (arr_elems a) @ drop (Suc ?i) (arr_elems a)"
  proof (rule nth_equalityI)
    show "length (arr_elems ?b) = length (take ?i (arr_elems a) @ drop (Suc ?i) (arr_elems a))"
      using ik len by simp
    fix j assume "j < length (arr_elems ?b)"
    then have j: "j < ?k - 1" using len by simp
    then have "arr_elems ?b ! j = elem_at ?ts v2 j" using len by (simp add: arr_elems_def)
    also have "\<dots> = elem_at ?ts (arr_vals a) (if j < ?i then j else Suc j)"
      unfolding v2_def by (rule elem_at_del [OF ik kc j])
    finally show "arr_elems ?b ! j = (take ?i (arr_elems a) @ drop (Suc ?i) (arr_elems a)) ! j"
      using j ik by (auto simp: arr_elems_def nth_append)
  qed
  ultimately show ?thesis using res True by auto
qed (simp add: atm_arr_del_def Let_def)

theorem atm_arr_del_removes_witness:
  "\<exists>a. atm_arr_new 4 = Some a \<and> atm_arr_del (Some a) 0 = Inr (ATM_ERROR, Some a)"
proof -
  obtain a where a: "atm_arr_new 4 = Some a" "wf_arr a" using wf_arr_new [of 4] by auto
  then have "arr_len a = 0" by (auto simp: atm_arr_new_def)
  then show ?thesis using atm_arr_del_removes [OF a(2), of 0] a(1) by simp
qed

text \<open>Reading and storing an element.\<close>

lemma atm_arr_get_elem:
  assumes "wf_arr a" "i < arr_len a"
  shows "\<exists>off. atm_arr_get a i = Some off
    \<and> mem_read (arr_vals a) off (unat (arr_tsize a)) = Inr (arr_elems a ! unat i)"
proof -
  have i: "unat i < unat (arr_len a)" "unat i < unat (arr_cap a)"
    using assms by (auto simp: word_less_nat_alt wf_arr_def)
  then show ?thesis
    using assms arr_offset(1) [OF assms(1), of i] elem_fits [OF i(2), of "unat (arr_tsize a)"]
    by (simp add: atm_arr_get_def arr_elems_def elem_at_def wf_arr_def)
qed

lemma atm_arr_set_elem:
  assumes "wf_arr a" "i < arr_len a" "unat (arr_tsize a) \<le> length v"
  shows "\<exists>b. atm_arr_set (Some a) i v = Inr (ATM_OK, Some b) \<and> wf_arr b
    \<and> arr_elems b = (arr_elems a)[unat i := take (unat (arr_tsize a)) v]"
proof -
  let ?ts = "unat (arr_tsize a)"
  have i: "unat i < unat (arr_len a)" "unat i < unat (arr_cap a)"
    using assms by (auto simp: word_less_nat_alt wf_arr_def)
  note fit = elem_fits [OF i(2), of ?ts]
  let ?v = "take (unat i * ?ts) (arr_vals a) @ take ?ts v @ drop (unat i * ?ts + ?ts) (arr_vals a)"
  have lv: "length (arr_vals a) = unat (arr_cap a) * ?ts" using assms(1) by (simp add: wf_arr_def)
  have res: "atm_arr_set (Some a) i v = Inr (ATM_OK, Some (a\<lparr>arr_vals := ?v\<rparr>))"
    using assms arr_offset(2) [OF assms(1), of i] i fit lv
    by (simp add: atm_arr_set_def min_absorb2)
  have "wf_arr (a\<lparr>arr_vals := ?v\<rparr>)" using assms fit lv by (simp add: wf_arr_def min_absorb2)
  moreover have "arr_elems (a\<lparr>arr_vals := ?v\<rparr>) = (arr_elems a)[unat i := take ?ts v]"
  proof (rule nth_equalityI)
    fix j assume "j < length (arr_elems (a\<lparr>arr_vals := ?v\<rparr>))"
    then have j: "j < unat (arr_len a)" "j < unat (arr_cap a)" using assms(1) by (auto simp: wf_arr_def)
    have "elem_at ?ts ?v j = (if j = unat i then take ?ts v else elem_at ?ts (arr_vals a) j)"
      by (rule elem_at_write [OF i(2) lv _ j(2)]) (use assms(3) in simp)
    then show "arr_elems (a\<lparr>arr_vals := ?v\<rparr>) ! j = (arr_elems a)[unat i := take ?ts v] ! j"
      using j(1) by (simp add: arr_elems_def nth_list_update)
  qed simp
  ultimately show ?thesis using res by blast
qed

end
