(* ===== verification/Atm_Blk.thy ===== *)
theory Atm_Blk
  imports Atm_List
begin

text \<open>
  \<^verbatim>\<open>src/core/atm_blk.c\<close>: the fixed-size blocks of the socket buffers and the pool that
  recycles them. The pool is the model's \<^verbatim>\<open>atm_blk atm_list option\<close> (NULL before
  \<^verbatim>\<open>atm_blk_init\<close>); each function under \<^verbatim>\<open>bp_lock\<close> is one atomic step on it. The indices of a
  block are natural numbers: they stay at most 65536, as \<^verbatim>\<open>wf_blk\<close> says.
\<close>

definition ATM_BLK_DFT_LEN :: nat where "ATM_BLK_DFT_LEN = 65536"
definition ATM_BLK_POOL_THRESHOLD :: u32 where "ATM_BLK_POOL_THRESHOLD = 64"

record atm_blk =
  blk_size :: nat
  blk_head :: "u8 list"
  blk_ridx :: nat
  blk_widx :: nat

type_synonym blk_pool = "atm_blk atm_list option"

definition ATM_BLK_T :: "atm_blk atm_T" where
  "ATM_BLK_T = \<lparr>T_id = ''ATM_BLK_TYPE'', T_match = None, T_hash = None, T_compare = None,
     T_str = None, T_free = True\<rparr>"

definition atm_blk_reset :: "atm_blk \<Rightarrow> atm_blk" where
  "atm_blk_reset b = b\<lparr>blk_ridx := 0, blk_widx := 0\<rparr>"

definition atm_blk_pool_release :: "atm_blk \<Rightarrow> blk_pool \<Rightarrow> (bool \<times> blk_pool) res" where
  "atm_blk_pool_release b pool =
     (case pool of None \<Rightarrow> Inr (False, None)
      | Some p \<Rightarrow>
          let b = atm_blk_reset b in
          if l_size p < ATM_BLK_POOL_THRESHOLD
          then res_map (\<lambda>p. (True, Some p)) (atm_list_push p b)
          else Inr (False, pool))"

definition atm_blk_pool_fetch :: "blk_pool \<Rightarrow> (atm_blk option \<times> blk_pool) res" where
  "atm_blk_pool_fetch pool =
     (case pool of None \<Rightarrow> Inr (None, None)
      | Some p \<Rightarrow> res_map (\<lambda>(b, p). (b, Some p)) (atm_list_lpop p))"

definition atm_blk_new_raw :: atm_blk where
  "atm_blk_new_raw = \<lparr>blk_size = ATM_BLK_DFT_LEN, blk_head = replicate ATM_BLK_DFT_LEN 0,
     blk_ridx = 0, blk_widx = 0\<rparr>"

definition atm_blk_init :: blk_pool where
  "atm_blk_init = Some (atm_list_new (Some ATM_BLK_T) ATM_FREE_SHALLOW)"

definition atm_blk_new :: "blk_pool \<Rightarrow> (atm_blk \<times> blk_pool) res" where
  "atm_blk_new pool =
     res_map (\<lambda>(b, pool). (case b of None \<Rightarrow> atm_blk_new_raw | Some b \<Rightarrow> b, pool))
       (atm_blk_pool_fetch pool)"

text \<open>What \<^verbatim>\<open>atm_blk_free_raw\<close> gives back to the allocator leaves no trace in the model.\<close>

definition atm_blk_free :: "atm_blk option \<Rightarrow> blk_pool \<Rightarrow> blk_pool res" where
  "atm_blk_free block pool =
     (case block of None \<Rightarrow> Inr pool | Some b \<Rightarrow> res_map snd (atm_blk_pool_release b pool))"

section \<open>The pool invariant\<close>

definition wf_blk :: "atm_blk \<Rightarrow> bool" where
  "wf_blk b \<longleftrightarrow> blk_size b = ATM_BLK_DFT_LEN \<and> length (blk_head b) = blk_size b
     \<and> blk_ridx b \<le> blk_widx b \<and> blk_widx b \<le> blk_size b"

definition fresh_blk :: "atm_blk \<Rightarrow> bool" where
  "fresh_blk b \<longleftrightarrow> wf_blk b \<and> blk_ridx b = 0 \<and> blk_widx b = 0"

definition pool_vals :: "blk_pool \<Rightarrow> atm_blk list" where
  "pool_vals pool = (case pool of None \<Rightarrow> [] | Some p \<Rightarrow> list_vals p)"

definition wf_pool :: "blk_pool \<Rightarrow> bool" where
  "wf_pool pool \<longleftrightarrow> (case pool of None \<Rightarrow> True | Some p \<Rightarrow> wf_list p)
     \<and> length (pool_vals pool) \<le> 64 \<and> (\<forall>b \<in> set (pool_vals pool). fresh_blk b)"

lemma fresh_new_raw [simp]: "fresh_blk atm_blk_new_raw"
  by (simp add: fresh_blk_def wf_blk_def atm_blk_new_raw_def)

lemma fresh_reset [simp]: "wf_blk b \<Longrightarrow> fresh_blk (atm_blk_reset b)"
  by (simp add: fresh_blk_def wf_blk_def atm_blk_reset_def)

lemma wf_pool_init [simp]: "wf_pool atm_blk_init"
  by (simp add: wf_pool_def atm_blk_init_def pool_vals_def)

lemma atm_blk_new_pool:
  assumes "wf_pool pool"
  shows "\<exists>b pool'. atm_blk_new pool = Inr (b, pool') \<and> fresh_blk b \<and> wf_pool pool'
    \<and> (case pool_vals pool of [] \<Rightarrow> b = atm_blk_new_raw \<and> pool_vals pool' = []
       | x # xs \<Rightarrow> b = x \<and> pool_vals pool' = xs)"
proof (cases pool)
  case None
  then show ?thesis
    by (simp add: atm_blk_new_def atm_blk_pool_fetch_def wf_pool_def pool_vals_def)
next
  case (Some p)
  then have wf: "wf_list p" using assms by (simp add: wf_pool_def)
  show ?thesis
  proof (cases "list_vals p")
    case Nil
    then show ?thesis using assms Some atm_list_lpop_vals [OF wf]
      by (simp add: atm_blk_new_def atm_blk_pool_fetch_def wf_pool_def pool_vals_def)
  next
    case (Cons x xs)
    then show ?thesis using assms Some atm_list_lpop_vals [OF wf]
      by (auto simp: atm_blk_new_def atm_blk_pool_fetch_def wf_pool_def pool_vals_def)
  qed
qed

lemma atm_blk_free_pool:
  assumes "wf_pool pool" "wf_blk b"
  shows "\<exists>pool'. atm_blk_free (Some b) pool = Inr pool' \<and> wf_pool pool'
    \<and> (pool' = None \<longleftrightarrow> pool = None)
    \<and> pool_vals pool' = (if pool \<noteq> None \<and> length (pool_vals pool) < 64
        then pool_vals pool @ [atm_blk_reset b] else pool_vals pool)"
proof (cases pool)
  case None
  then show ?thesis
    by (simp add: atm_blk_free_def atm_blk_pool_release_def wf_pool_def pool_vals_def)
next
  case (Some p)
  then have wf: "wf_list p" and le: "length (list_vals p) \<le> 64"
    using assms(1) by (simp_all add: wf_pool_def pool_vals_def)
  have "unat (l_size p) = length (list_vals p)" using l_size_vals [OF wf] le by simp
  then have lt: "l_size p < ATM_BLK_POOL_THRESHOLD \<longleftrightarrow> length (list_vals p) < 64"
    by (simp add: word_less_nat_alt ATM_BLK_POOL_THRESHOLD_def)
  show ?thesis
    using atm_list_push_vals [OF wf, of "atm_blk_reset b"] assms Some lt
    by (cases "length (list_vals p) < 64")
       (auto simp: atm_blk_free_def atm_blk_pool_release_def wf_pool_def pool_vals_def)
qed

text \<open>
  The traffic of blocks between the pool and the buffers: \<^verbatim>\<open>out\<close> holds the blocks in use.
\<close>

inductive blk_step :: "blk_pool \<times> atm_blk list \<Rightarrow> blk_pool \<times> atm_blk list \<Rightarrow> bool" where
  take: "atm_blk_new pool = Inr (b, pool') \<Longrightarrow> blk_step (pool, out) (pool', b # out)"
| use: "wf_blk b' \<Longrightarrow> blk_step (pool, xs @ b # ys) (pool, xs @ b' # ys)"
| give: "atm_blk_free (Some b) pool = Inr pool' \<Longrightarrow>
    blk_step (pool, xs @ b # ys) (pool', xs @ ys)"

inductive_cases blk_stepE: "blk_step (pool, out) s"

lemma blk_step_inv:
  assumes "blk_step s s'" "wf_pool (fst s)" "\<forall>b \<in> set (snd s). wf_blk b"
  shows "wf_pool (fst s') \<and> (\<forall>b \<in> set (snd s'). wf_blk b)"
  using assms
proof cases
  case (take pool b pool' out)
  then show ?thesis using assms(2,3) atm_blk_new_pool [of pool] by (auto simp: fresh_blk_def)
next
  case (use b' pool xs b ys)
  then show ?thesis using assms(2,3) by auto
next
  case (give b pool pool' xs ys)
  then have "wf_pool pool" "wf_blk b" using assms(2,3) by auto
  then have "wf_pool pool'" using give(3) atm_blk_free_pool [of pool b] by auto
  then show ?thesis using give assms(3) by auto
qed

text \<open>
  Property C38. In every run that starts with the initialised pool, the pool never holds more
  than 64 blocks, and every block that a buffer takes has the full size and both of its
  indices at 0, whatever was done to the block before it was given back.
\<close>

theorem blk_pool_bounded:
  assumes "blk_step\<^sup>*\<^sup>* (atm_blk_init, []) (pool, out)"
  shows "length (pool_vals pool) \<le> 64
    \<and> (\<exists>b pool'. atm_blk_new pool = Inr (b, pool') \<and> blk_size b = ATM_BLK_DFT_LEN
        \<and> length (blk_head b) = ATM_BLK_DFT_LEN \<and> blk_ridx b = 0 \<and> blk_widx b = 0)"
proof -
  have "wf_pool (fst (pool, out)) \<and> (\<forall>b \<in> set (snd (pool, out)). wf_blk b)"
    using assms
  proof (induction rule: rtranclp_induct)
    case (step y z)
    then show ?case using blk_step_inv by blast
  qed simp
  then have "wf_pool pool" by simp
  then show ?thesis using atm_blk_new_pool [of pool]
    by (auto simp: wf_pool_def fresh_blk_def wf_blk_def)
qed

theorem blk_pool_bounded_witness:
  "\<exists>pool pool'. atm_blk_free (Some (atm_blk_new_raw\<lparr>blk_ridx := 3, blk_widx := 9\<rparr>)) atm_blk_init
      = Inr pool \<and> atm_blk_new pool = Inr (atm_blk_new_raw, pool')
      \<and> length (pool_vals pool) \<le> 64"
proof -
  let ?b = "atm_blk_new_raw\<lparr>blk_ridx := 3, blk_widx := 9\<rparr>"
  have wb: "wf_blk ?b" by (simp add: wf_blk_def atm_blk_new_raw_def ATM_BLK_DFT_LEN_def)
  obtain pool where p: "atm_blk_free (Some ?b) atm_blk_init = Inr pool" "wf_pool pool"
      "pool_vals pool = [atm_blk_reset ?b]"
    using atm_blk_free_pool [OF wf_pool_init wb]
    by (auto simp: pool_vals_def atm_blk_init_def split: if_splits)
  have r: "atm_blk_reset ?b = atm_blk_new_raw" by (simp add: atm_blk_reset_def atm_blk_new_raw_def)
  obtain b0 p0 where s0: "atm_blk_new atm_blk_init = Inr (b0, p0)" "p0 = atm_blk_init"
    by (auto simp: atm_blk_new_def atm_blk_pool_fetch_def atm_blk_init_def atm_list_lpop_def
        atm_list_lpop_entry_def atm_list_new_def)
  have "blk_step (atm_blk_init, []) (atm_blk_init, [b0])"
    using blk_step.take [OF s0(1), of "[]"] s0(2) by simp
  moreover have "blk_step (atm_blk_init, [b0]) (atm_blk_init, [?b])"
    using blk_step.use [OF wb, of atm_blk_init "[]" b0 "[]"] by simp
  moreover have "blk_step (atm_blk_init, [?b]) (pool, [])"
    using blk_step.give [OF p(1), of "[]" "[]"] by simp
  ultimately have "blk_step\<^sup>*\<^sup>* (atm_blk_init, []) (pool, [])"
    by (meson converse_rtranclp_into_rtranclp rtranclp.rtrancl_refl)
  then have "length (pool_vals pool) \<le> 64" using blk_pool_bounded by blast
  then show ?thesis using p r atm_blk_new_pool [OF p(2)] by auto
qed

end
