(* ===== verification/Atm_Buf.thy ===== *)
theory Atm_Buf
  imports Atm_Blk
begin

text \<open>
  \<^verbatim>\<open>src/core/atm_buf.c\<close>: the buffer between a socket and its session, a list of blocks with a
  read index and a write index each. A block is a value in its list node, and moving an
  index writes through the node. The byte stream \<^verbatim>\<open>buf_stream\<close> is the abstraction: writing
  appends to it, reading takes a prefix off it, \<^verbatim>\<open>aval\<close> counts it, and a line is its part
  before the first line end. The results of the system calls \<^verbatim>\<open>read\<close> and \<^verbatim>\<open>write\<close> on the
  socket are parameters.
\<close>

section \<open>The buffer and its operations\<close>

record atm_buf =
  buf_aval :: u64
  buf_blks :: "atm_blk atm_list"

text \<open>The state of the operations: the buffer and the block pool of the process.\<close>

type_synonym buf_st = "atm_buf \<times> blk_pool"

definition atm_buf_new :: atm_buf where
  "atm_buf_new = \<lparr>buf_aval = 0, buf_blks = atm_list_new (Some ATM_BLK_T) ATM_FREE_DEEP\<rparr>"

text \<open>Freeing clears the list; the deep list passes each block to \<^verbatim>\<open>atm_blk_free\<close>.\<close>

fun free_blks :: "atm_blk list \<Rightarrow> blk_pool \<Rightarrow> blk_pool res" where
  "free_blks [] pool = Inr pool"
| "free_blks (b # bs) pool = res_bind (atm_blk_free (Some b) pool) (free_blks bs)"

definition atm_buf_free :: "atm_buf option \<Rightarrow> blk_pool \<Rightarrow> blk_pool res" where
  "atm_buf_free buf pool =
     (case buf of None \<Rightarrow> Inr pool
      | Some b \<Rightarrow> res_bind (atm_list_free (buf_blks b)) (\<lambda>bs. free_blks bs pool))"

text \<open>The block behind a pointer is the value of its list node.\<close>

definition blk_get :: "buf_st \<Rightarrow> addr \<Rightarrow> atm_blk res" where
  "blk_get st a = res_map le_val (get_ent (buf_blks (fst st)) a)"

definition blk_put :: "buf_st \<Rightarrow> addr \<Rightarrow> atm_blk \<Rightarrow> buf_st res" where
  "blk_put st a b =
     res_map (\<lambda>l. ((fst st)\<lparr>buf_blks := l\<rparr>, snd st)) (list_poke (buf_blks (fst st)) a b)"

definition aval_add :: "int \<Rightarrow> buf_st \<Rightarrow> buf_st" where
  "aval_add d st = ((fst st)\<lparr>buf_aval := buf_aval (fst st) + of_int d\<rparr>, snd st)"

definition atm_buf_get_rblk :: "buf_st \<Rightarrow> (addr option \<times> buf_st) res" where
  "atm_buf_get_rblk st =
     res_bind (atm_list_lpeek (buf_blks (fst st))) (\<lambda>bk.
     case bk of None \<Rightarrow> Inr (None, st)
     | Some b \<Rightarrow>
         res_bind
           (if blk_ridx b = blk_widx b \<and> blk_widx b = blk_size b then
              res_bind (atm_list_lpop (buf_blks (fst st))) (\<lambda>(bk, l).
              res_bind (atm_blk_free bk (snd st)) (\<lambda>pool.
              let st = ((fst st)\<lparr>buf_blks := l\<rparr>, pool)
              in res_map (\<lambda>bk. (bk, st)) (atm_list_lpeek l)))
            else Inr (Some b, st))
           (\<lambda>(bk, st).
              Inr (case bk of None \<Rightarrow> None
                   | Some b \<Rightarrow> if blk_ridx b < blk_widx b then l_head (buf_blks (fst st)) else None,
                   st)))"

definition atm_buf_get_wblk :: "buf_st \<Rightarrow> (addr \<times> buf_st) res" where
  "atm_buf_get_wblk st =
     res_bind (atm_list_rpeek (buf_blks (fst st))) (\<lambda>bk.
     res_bind
       (if (case bk of None \<Rightarrow> True | Some b \<Rightarrow> blk_size b = blk_widx b) then
          res_bind (atm_blk_new (snd st)) (\<lambda>(b, pool).
          res_map (\<lambda>l. ((fst st)\<lparr>buf_blks := l\<rparr>, pool)) (atm_list_push (buf_blks (fst st)) b))
        else Inr st)
       (\<lambda>st. res_map (\<lambda>a. (a, st)) (of_some Null_deref (l_tail (buf_blks (fst st))))))"

text \<open>
  A socket is given by its state and the system call on it: \<^verbatim>\<open>read(fd, p, len)\<close> gives the
  return value, the bytes it stored and the next state; \<^verbatim>\<open>write(fd, p, len)\<close> gets the bytes.
\<close>

type_synonym 's sys_read = "'s \<Rightarrow> nat \<Rightarrow> int \<times> u8 list \<times> 's"
type_synonym 's sys_write = "'s \<Rightarrow> u8 list \<Rightarrow> int \<times> 's"

text \<open>The loops on a socket end when the system call stops them; the fuel counts the calls.\<close>

fun read_sock_loop ::
  "'s sys_read \<Rightarrow> nat \<Rightarrow> 's \<Rightarrow> buf_st \<Rightarrow> int \<Rightarrow> (int \<times> 's \<times> buf_st) res" where
  "read_sock_loop rd 0 s st tot = Inl No_return"
| "read_sock_loop rd (Suc n) s st tot =
     res_bind (atm_buf_get_wblk st) (\<lambda>(a, st).
     res_bind (blk_get st a) (\<lambda>b.
     case rd s (blk_size b - blk_widx b) of (ret, bytes, s) \<Rightarrow>
       if 0 < ret then
         res_bind (mem_write (blk_head b) (blk_widx b) bytes) (\<lambda>h.
         res_bind (blk_put st a (b\<lparr>blk_head := h, blk_widx := blk_widx b + nat ret\<rparr>)) (\<lambda>st.
           read_sock_loop rd n s (aval_add ret st) (tot + ret)))
       else Inr (if 0 < tot then tot else ret, s, st)))"

definition atm_buf_read_sock :: "'s sys_read \<Rightarrow> nat \<Rightarrow> 's \<Rightarrow> buf_st \<Rightarrow> (int \<times> 's \<times> buf_st) res" where
  "atm_buf_read_sock rd fuel s st = read_sock_loop rd fuel s st 0"

text \<open>\<^verbatim>\<open>ret\<close> keeps the value of the last call of \<^verbatim>\<open>write\<close> when the buffer runs out of bytes.\<close>

fun write_sock_loop ::
  "'s sys_write \<Rightarrow> nat \<Rightarrow> 's \<Rightarrow> buf_st \<Rightarrow> int \<Rightarrow> int \<Rightarrow> (int \<times> 's \<times> buf_st) res" where
  "write_sock_loop wr 0 s st tot ret = Inl No_return"
| "write_sock_loop wr (Suc n) s st tot ret =
     res_bind (atm_buf_get_rblk st) (\<lambda>(bk, st).
     case bk of None \<Rightarrow> Inr (if 0 < tot then tot else ret, s, st)
     | Some a \<Rightarrow>
         res_bind (blk_get st a) (\<lambda>b.
         res_bind (mem_read (blk_head b) (blk_ridx b) (blk_widx b - blk_ridx b)) (\<lambda>bytes.
         if bytes = [] then Inr (if 0 < tot then tot else ret, s, st) else
         case wr s bytes of (ret, s) \<Rightarrow>
           if 0 < ret then
             res_bind (blk_put st a (b\<lparr>blk_ridx := blk_ridx b + nat ret\<rparr>)) (\<lambda>st.
               write_sock_loop wr n s (aval_add (- ret) st) (tot + ret) ret)
           else Inr (if 0 < tot then tot else ret, s, st))))"

definition atm_buf_write_sock :: "'s sys_write \<Rightarrow> nat \<Rightarrow> 's \<Rightarrow> buf_st \<Rightarrow> (int \<times> 's \<times> buf_st) res" where
  "atm_buf_write_sock wr fuel s st = write_sock_loop wr fuel s st 0 0"

text \<open>
  Reading \<^verbatim>\<open>rmn\<close> bytes: a negative \<^verbatim>\<open>l\<close> (for \<^verbatim>\<open>nbyte\<close> at least \<^verbatim>\<open>2^31\<close>) would be the length of
  the \<^verbatim>\<open>memcpy\<close>. The result is the tot with the bytes stored at \<^verbatim>\<open>dest\<close>.
\<close>

function buf_read_loop :: "buf_st \<Rightarrow> int \<Rightarrow> int \<Rightarrow> u8 list \<Rightarrow> (int \<times> u8 list \<times> buf_st) res" where
  "buf_read_loop st rmn tot dest =
     res_bind (atm_buf_get_rblk st) (\<lambda>(bk, st).
     case bk of None \<Rightarrow> Inr (tot, dest, st)
     | Some a \<Rightarrow>
         res_bind (blk_get st a) (\<lambda>b.
         let avl = int (blk_widx b) - int (blk_ridx b) in
         if 0 < avl then
           let l = min avl rmn in
           if l < 0 then Inl Bad_access else
           res_bind (mem_read (blk_head b) (blk_ridx b) (nat l)) (\<lambda>bytes.
           res_bind (blk_put st a (b\<lparr>blk_ridx := blk_ridx b + nat l\<rparr>)) (\<lambda>st.
           let st = aval_add (- l) st in
           if 0 < rmn - l then buf_read_loop st (rmn - l) (tot + l) (dest @ bytes)
           else Inr (tot + l, dest @ bytes, st)))
         else Inr (tot, dest, st)))"
  by pat_completeness auto
termination
  by (relation "measure (\<lambda>(st, rmn, tot, dest). nat rmn)") (auto simp: min_def split: if_splits)

definition atm_buf_read :: "buf_st \<Rightarrow> u32 \<Rightarrow> (int \<times> u8 list \<times> buf_st) res" where
  "atm_buf_read st nbyte = buf_read_loop st (sint nbyte) 0 []"

function buf_write_loop :: "buf_st \<Rightarrow> int \<Rightarrow> int \<Rightarrow> u8 list \<Rightarrow> (int \<times> buf_st) res" where
  "buf_write_loop st rmn tot src =
     res_bind (atm_buf_get_wblk st) (\<lambda>(a, st).
     res_bind (blk_get st a) (\<lambda>b.
     let avl = int (blk_size b) - int (blk_widx b) in
     if 0 < avl then
       let l = min avl rmn in
       if l < 0 then Inl Bad_access else
       res_bind (mem_read src 0 (nat l)) (\<lambda>bytes.
       res_bind (mem_write (blk_head b) (blk_widx b) bytes) (\<lambda>h.
       res_bind (blk_put st a (b\<lparr>blk_head := h, blk_widx := blk_widx b + nat l\<rparr>)) (\<lambda>st.
       let st = aval_add l st in
       if 0 < rmn - l then buf_write_loop st (rmn - l) (tot + l) (drop (nat l) src)
       else Inr (tot + l, st))))
     else Inr (tot, st)))"
  by pat_completeness auto
termination
  by (relation "measure (\<lambda>(st, rmn, tot, src). nat rmn)") (auto simp: min_def split: if_splits)

definition atm_buf_write :: "buf_st \<Rightarrow> u8 list \<Rightarrow> u32 \<Rightarrow> (int \<times> buf_st) res" where
  "atm_buf_write st src nbyte = buf_write_loop st (sint nbyte) 0 src"

declare buf_read_loop.simps [simp del] buf_write_loop.simps [simp del]

text \<open>
  The scan of \<^verbatim>\<open>atm_buf_read_line\<close>: \<^verbatim>\<open>strchr\<close> on the two line end characters also finds the
  terminator of its set, so a 0 byte ends a line. The jump to \<^verbatim>\<open>start_build\<close> is the flag.
\<close>

definition is_nl :: "u8 \<Rightarrow> bool" where
  "is_nl c \<longleftrightarrow> c = 13 \<or> c = 10 \<or> c = 0"

record line_st =
  ln_len :: nat
  ln_strlen :: nat
  ln_find_end :: bool
  ln_stop :: bool

fun scan_blk :: "u8 list \<Rightarrow> line_st \<Rightarrow> line_st" where
  "scan_blk [] s = s"
| "scan_blk (c # cs) s =
     (if ln_stop s then s
      else if \<not> ln_find_end s then
        if is_nl c then scan_blk cs (s\<lparr>ln_find_end := True, ln_len := ln_len s + 1\<rparr>)
        else scan_blk cs (s\<lparr>ln_strlen := ln_strlen s + 1, ln_len := ln_len s + 1\<rparr>)
      else if \<not> is_nl c then s\<lparr>ln_stop := True\<rparr>
      else scan_blk cs (s\<lparr>ln_len := ln_len s + 1\<rparr>))"

fun scan_list :: "nat \<Rightarrow> atm_blk atm_list \<Rightarrow> list_iter \<Rightarrow> line_st \<Rightarrow> line_st res" where
  "scan_list 0 l it s = Inl No_return"
| "scan_list (Suc n) l it s =
     (if ln_stop s then Inr s else
      res_bind (atm_list_next l it) (\<lambda>(bk, it).
      case bk of None \<Rightarrow> Inr s
      | Some b \<Rightarrow>
          res_bind (mem_read (blk_head b) (blk_ridx b) (blk_widx b - blk_ridx b)) (\<lambda>bytes.
            scan_list n l it (scan_blk bytes s))))"

text \<open>The line that is returned, up to the bytes that the final \<^verbatim>\<open>memset\<close> zeroes.\<close>

definition atm_buf_read_line :: "buf_st \<Rightarrow> (u8 list option \<times> buf_st) res" where
  "atm_buf_read_line st =
     (let l = buf_blks (fst st) in
      res_bind (scan_list (Suc (Suc (l_brk l))) l (atm_list_iter_new l)
          \<lparr>ln_len = 0, ln_strlen = 0, ln_find_end = False, ln_stop = False\<rparr>) (\<lambda>s.
      if 0 < ln_len s \<and> ln_find_end s then
        res_bind (atm_buf_read st (of_nat (ln_len s))) (\<lambda>(tot, bytes, st).
        res_map (\<lambda>z. (Some z, st))
          (mem_write (bytes @ replicate (Suc (ln_len s) - length bytes) 0) (ln_strlen s)
             (replicate (ln_len s - ln_strlen s) 0)))
      else Inr (None, st)))"

section \<open>The byte stream\<close>

definition blk_bytes :: "atm_blk \<Rightarrow> u8 list" where
  "blk_bytes b = take (blk_widx b - blk_ridx b) (drop (blk_ridx b) (blk_head b))"

definition buf_vals :: "buf_st \<Rightarrow> atm_blk list" where
  "buf_vals st = list_vals (buf_blks (fst st))"

definition buf_stream :: "buf_st \<Rightarrow> u8 list" where
  "buf_stream st = concat (map blk_bytes (buf_vals st))"

text \<open>Only the last block has room, only the first has been read from.\<close>

definition wf_blks :: "atm_blk list \<Rightarrow> bool" where
  "wf_blks bs \<longleftrightarrow> (\<forall>b \<in> set bs. wf_blk b) \<and> (\<forall>b \<in> set (butlast bs). blk_widx b = blk_size b)
     \<and> (\<forall>b \<in> set (tl bs). blk_ridx b = 0)"

definition wf_buf :: "buf_st \<Rightarrow> bool" where
  "wf_buf st \<longleftrightarrow> wf_list (buf_blks (fst st)) \<and> list_type (buf_blks (fst st)) = (ATM_FREE_DEEP, Some ATM_BLK_T)
     \<and> wf_blks (buf_vals st) \<and> wf_pool (snd st)
     \<and> buf_aval (fst st) = of_nat (length (buf_stream st))"

lemma wf_buf_new [simp]:
  "wf_pool pool \<Longrightarrow> wf_buf (atm_buf_new, pool)" "buf_stream (atm_buf_new, pool) = []"
  by (simp_all add: wf_buf_def atm_buf_new_def wf_blks_def buf_vals_def buf_stream_def)

lemma blk_bytes_fresh [simp]: "fresh_blk b \<Longrightarrow> blk_bytes b = []"
  by (simp add: blk_bytes_def fresh_blk_def)

lemma blk_bytes_length: "wf_blk b \<Longrightarrow> length (blk_bytes b) = blk_widx b - blk_ridx b"
  by (auto simp: blk_bytes_def wf_blk_def min_def)

lemma wf_blks_snoc:
  "wf_blks (bs @ [b]) \<longleftrightarrow> wf_blk b \<and> (bs \<noteq> [] \<longrightarrow> blk_ridx b = 0)
    \<and> (\<forall>x \<in> set bs. wf_blk x \<and> blk_widx x = blk_size x) \<and> (\<forall>x \<in> set (tl bs). blk_ridx x = 0)"
  by (cases bs) (auto simp: wf_blks_def)

lemma wf_blks_Cons:
  "wf_blks (b # bs) \<longleftrightarrow> wf_blk b \<and> (bs \<noteq> [] \<longrightarrow> blk_widx b = blk_size b)
    \<and> (\<forall>x \<in> set bs. wf_blk x \<and> blk_ridx x = 0) \<and> (\<forall>x \<in> set (butlast bs). blk_widx x = blk_size x)"
  by (auto simp: wf_blks_def)

lemma wf_buf_list:
  "wf_buf st \<Longrightarrow> \<exists>ps. list_rep (buf_blks (fst st)) ps \<and> buf_vals st = map snd ps"
  using wf_list_rep by (auto simp: wf_buf_def buf_vals_def)

lemma blk_get_rep:
  "list_rep (buf_blks (fst st)) (ps @ (a, b) # qs) \<Longrightarrow> blk_get st a = Inr b"
  by (simp add: blk_get_def list_rep_get)

text \<open>
  Moving the indices of one block: for the new contents of the blocks only the conditions of
  \<^verbatim>\<open>wf_buf\<close> have to be checked.
\<close>

lemma blk_put_rep:
  assumes wf: "wf_buf st" and rep: "list_rep (buf_blks (fst st)) (ps @ (a, b) # qs)"
    and new: "wf_blks (map snd ps @ b' # map snd qs)"
    and len: "int (length (blk_bytes b')) = int (length (blk_bytes b)) + d"
  shows "\<exists>st'. blk_put st a b' = Inr st' \<and> wf_buf (aval_add d st')
    \<and> buf_stream (aval_add d st') =
        concat (map (blk_bytes \<circ> snd) ps) @ blk_bytes b' @ concat (map (blk_bytes \<circ> snd) qs)"
proof -
  obtain l where l: "list_poke (buf_blks (fst st)) a b' = Inr l"
      "list_rep l (ps @ (a, b') # qs)" "list_type l = list_type (buf_blks (fst st))"
    using list_rep_poke [OF rep] by blast
  let ?st = "((fst st)\<lparr>buf_blks := l\<rparr>, snd st)"
  have old: "buf_vals st = map snd ps @ b # map snd qs"
    using list_rep_wf [OF rep] by (simp add: buf_vals_def)
  have vals: "buf_vals (aval_add d ?st) = map snd ps @ b' # map snd qs" "wf_list l"
    using list_rep_wf [OF l(2)] by (simp_all add: buf_vals_def aval_add_def)
  have n: "int (length (buf_stream (aval_add d ?st))) = int (length (buf_stream st)) + d"
    using len by (simp add: buf_stream_def vals old)
  have "buf_aval (fst st) + of_int d = (of_int (int (length (buf_stream st)) + d) :: u64)"
    using wf by (simp add: wf_buf_def)
  also have "\<dots> = of_nat (length (buf_stream (aval_add d ?st)))" unfolding n [symmetric] by simp
  finally have aval: "buf_aval (fst st) + of_int d = (of_nat (length (buf_stream (aval_add d ?st))) :: u64)" .
  have "wf_buf (aval_add d ?st)"
    using wf new vals l(3) aval unfolding wf_buf_def by (simp add: aval_add_def)
  moreover have "blk_put st a b' = Inr ?st" using l(1) by (simp add: blk_put_def)
  ultimately show ?thesis using vals(1) by (auto simp: buf_stream_def comp_def)
qed

lemma list_rep_head: "list_rep l ((a, b) # ps) \<Longrightarrow> l_head l = Some a"
  by (simp add: list_rep_def)

lemma list_rep_last: "list_rep l (ps @ [(a, b)]) \<Longrightarrow> l_tail l = Some a"
  by (simp add: list_rep_def)

text \<open>The block to read from: there is one exactly when the stream is not empty.\<close>

lemma readable_iff:
  assumes "wf_blks (b # bs)" "\<not> (blk_ridx b = blk_widx b \<and> blk_widx b = blk_size b)"
  shows "blk_ridx b < blk_widx b \<longleftrightarrow> concat (map blk_bytes (b # bs)) \<noteq> []"
proof (cases "blk_ridx b < blk_widx b")
  case True
  then have "blk_bytes b \<noteq> []" using assms(1) blk_bytes_length [of b] by (auto simp: wf_blks_Cons)
  then show ?thesis using True by simp
next
  case False
  then have e: "blk_ridx b = blk_widx b" using assms(1) by (auto simp: wf_blks_Cons wf_blk_def)
  then have "bs = []" using assms by (auto simp: wf_blks_Cons)
  moreover have "blk_bytes b = []" using e by (simp add: blk_bytes_def)
  ultimately show ?thesis using False by simp
qed

lemma wf_blks_tail:
  assumes "wf_blks (b # bs)" "bs = c # cs"
  shows "wf_blks bs \<and> \<not> (blk_ridx c = blk_widx c \<and> blk_widx c = blk_size c)"
  using assms by (auto simp: wf_blks_def wf_blk_def ATM_BLK_DFT_LEN_def split: if_splits)

text \<open>The choice that \<^verbatim>\<open>atm_buf_get_rblk\<close> makes after a spent block was recycled.\<close>

definition rblk_choice :: "atm_blk option \<Rightarrow> buf_st \<Rightarrow> addr option" where
  "rblk_choice bk st = (case bk of None \<Rightarrow> None
     | Some b \<Rightarrow> if blk_ridx b < blk_widx b then l_head (buf_blks (fst st)) else None)"

definition peek_ok :: "buf_st \<Rightarrow> addr option \<Rightarrow> bool" where
  "peek_ok st r \<longleftrightarrow> (case r of None \<Rightarrow> buf_stream st = []
     | Some a \<Rightarrow> \<exists>b qs. list_rep (buf_blks (fst st)) ((a, b) # qs) \<and> blk_ridx b < blk_widx b)"

lemma rblk_choice_ok:
  assumes wf: "wf_buf st" and bk: "atm_list_lpeek (buf_blks (fst st)) = Inr bk"
    and spent: "\<And>b. bk = Some b \<Longrightarrow> \<not> (blk_ridx b = blk_widx b \<and> blk_widx b = blk_size b)"
  shows "peek_ok st (rblk_choice bk st)"
proof -
  obtain ps where ps: "list_rep (buf_blks (fst st)) ps" "buf_vals st = map snd ps"
    using wf_buf_list [OF wf] by blast
  show ?thesis
  proof (cases ps)
    case Nil
    then show ?thesis using ps bk list_rep_lpeek [OF ps(1)]
      by (auto simp: peek_ok_def rblk_choice_def buf_stream_def)
  next
    case (Cons p qs)
    obtain a b where p: "p = (a, b)" by (cases p)
    have b: "bk = Some b" using bk list_rep_lpeek [OF ps(1)] Cons p by simp
    have "wf_blks (b # map snd qs)" using wf ps(2) Cons p by (simp add: wf_buf_def)
    from readable_iff [OF this spent [OF b]] show ?thesis
      using b ps Cons p list_rep_head [of "buf_blks (fst st)" a b qs]
      by (auto simp: peek_ok_def rblk_choice_def buf_stream_def)
  qed
qed

lemma atm_buf_get_rblk_ok:
  assumes wf: "wf_buf st"
  shows "\<exists>r st'. atm_buf_get_rblk st = Inr (r, st') \<and> wf_buf st' \<and> buf_stream st' = buf_stream st
    \<and> peek_ok st' r"
proof -
  obtain ps where ps: "list_rep (buf_blks (fst st)) ps" "buf_vals st = map snd ps"
    using wf_buf_list [OF wf] by blast
  have wl: "wf_list (buf_blks (fst st))" using wf by (simp add: wf_buf_def)
  obtain bk where bk: "atm_list_lpeek (buf_blks (fst st)) = Inr bk"
      "bk = (case ps of [] \<Rightarrow> None | x # _ \<Rightarrow> Some (snd x))"
    using list_rep_lpeek [OF ps(1)] by blast
  show ?thesis
  proof (cases "\<exists>b. bk = Some b \<and> blk_ridx b = blk_widx b \<and> blk_widx b = blk_size b")
    case False
    have "peek_ok st (rblk_choice bk st)" by (rule rblk_choice_ok [OF wf bk(1)]) (use False in blast)
    moreover have "atm_buf_get_rblk st = Inr (rblk_choice bk st, st)"
      using bk(1) False by (cases bk) (auto simp: atm_buf_get_rblk_def rblk_choice_def)
    ultimately show ?thesis using wf by auto
  next
    case True
    then obtain b where b: "bk = Some b" "blk_ridx b = blk_widx b" "blk_widx b = blk_size b" by blast
    then obtain a qs where q: "ps = (a, b) # qs" using bk(2) by (auto split: list.splits)
    have vals: "buf_vals st = b # map snd qs" using ps(2) q by simp
    obtain l where l: "atm_list_lpop (buf_blks (fst st)) = Inr (Some b, l)" "wf_list l"
        "list_vals l = map snd qs" "list_type l = list_type (buf_blks (fst st))"
      using atm_list_lpop_vals [OF wl] vals by (auto simp: buf_vals_def)
    have wfb: "wf_blks (b # map snd qs)" using wf vals by (simp add: wf_buf_def)
    then obtain pool where pool: "atm_blk_free (Some b) (snd st) = Inr pool" "wf_pool pool"
      using atm_blk_free_pool [of "snd st" b] wf by (auto simp: wf_buf_def wf_blks_Cons)
    let ?st = "((fst st)\<lparr>buf_blks := l\<rparr>, pool)"
    have v': "buf_vals ?st = map snd qs" using l(3) by (simp add: buf_vals_def)
    have str: "buf_stream ?st = buf_stream st"
      using b(2) by (simp add: buf_stream_def vals v' blk_bytes_def)
    have wfq: "wf_blks (map snd qs)"
    proof (cases "map snd qs")
      case (Cons c cs)
      show ?thesis using wf_blks_tail [OF wfb Cons] by (rule conjunct1)
    qed (simp add: wf_blks_def)
    have wf': "wf_buf ?st"
      using wf l pool str v' wfq unfolding wf_buf_def by simp
    obtain bk' where bk': "atm_list_lpeek l = Inr bk'"
        "bk' = (case map snd qs of [] \<Rightarrow> None | x # _ \<Rightarrow> Some x)"
      using atm_list_lpeek_vals [OF l(2)] l(3) by simp
    have "peek_ok ?st (rblk_choice bk' ?st)"
    proof (rule rblk_choice_ok [OF wf'])
      show "atm_list_lpeek (buf_blks (fst ?st)) = Inr bk'" using bk' by simp
    next
      fix c assume "bk' = Some c"
      then obtain cs where cs: "map snd qs = c # cs" using bk'(2) by (auto split: list.splits)
      show "\<not> (blk_ridx c = blk_widx c \<and> blk_widx c = blk_size c)"
        using wf_blks_tail [OF wfb cs] by (rule conjunct2)
    qed
    moreover have "atm_buf_get_rblk st = Inr (rblk_choice bk' ?st, ?st)"
      using bk(1) b l(1) pool(1) bk'(1) by (simp add: atm_buf_get_rblk_def rblk_choice_def)
    ultimately show ?thesis using wf' str by auto
  qed
qed

text \<open>Taking \<^verbatim>\<open>k\<close> bytes off the block that was found takes them off the stream.\<close>

lemma rblk_take:
  assumes wf: "wf_buf st" and rep: "list_rep (buf_blks (fst st)) ((a, b) # qs)"
    and k: "k \<le> blk_widx b - blk_ridx b"
  shows "\<exists>st'. blk_put st a (b\<lparr>blk_ridx := blk_ridx b + k\<rparr>) = Inr st' \<and> wf_buf (aval_add (- int k) st')
    \<and> buf_stream (aval_add (- int k) st') = drop k (buf_stream st)
    \<and> mem_read (blk_head b) (blk_ridx b) k = Inr (take k (buf_stream st))
    \<and> blk_widx b - blk_ridx b \<le> length (buf_stream st)"
proof -
  have v: "buf_vals st = b # map snd qs" using list_rep_wf [OF rep] by (simp add: buf_vals_def)
  then have w: "wf_blks (b # map snd qs)" using wf by (simp add: wf_buf_def)
  then have wb: "wf_blk b" by (simp add: wf_blks_Cons)
  let ?b = "b\<lparr>blk_ridx := blk_ridx b + k\<rparr>"
  have str: "buf_stream st = blk_bytes b @ concat (map (blk_bytes \<circ> snd) qs)"
    by (simp add: buf_stream_def v comp_def)
  have wb': "wf_blk ?b" using wb k by (auto simp: wf_blk_def)
  have new: "wf_blks (map snd [] @ ?b # map snd qs)" using w wb' by (simp add: wf_blks_Cons)
  have lb: "length (blk_bytes b) = blk_widx b - blk_ridx b" using wb by (rule blk_bytes_length)
  have bb: "blk_bytes ?b = drop k (blk_bytes b)"
    by (simp add: blk_bytes_def drop_take add.commute)
  have len: "int (length (blk_bytes ?b)) = int (length (blk_bytes b)) + (- int k)"
    using k lb unfolding bb by simp
  have rd: "mem_read (blk_head b) (blk_ridx b) k = Inr (take k (buf_stream st))"
    using wb k lb by (auto simp: str wf_blk_def blk_bytes_def min_def)
  show ?thesis
    using blk_put_rep [of st "[]" a b qs ?b "- int k", OF wf _ new len] rep rd bb k lb
    by (auto simp: str)
qed

text \<open>The block to write to: the last one, or a new one behind it when it is full.\<close>

lemma atm_buf_get_wblk_ok:
  assumes wf: "wf_buf st"
  shows "\<exists>a b ps st'. atm_buf_get_wblk st = Inr (a, st') \<and> wf_buf st' \<and> buf_stream st' = buf_stream st
    \<and> list_rep (buf_blks (fst st')) (ps @ [(a, b)]) \<and> blk_widx b < blk_size b"
proof -
  obtain ps where ps: "list_rep (buf_blks (fst st)) ps" "buf_vals st = map snd ps"
    using wf_buf_list [OF wf] by blast
  have wl: "wf_list (buf_blks (fst st))" using wf by (simp add: wf_buf_def)
  have wb: "wf_blks (map snd ps)" using wf ps(2) by (simp add: wf_buf_def)
  obtain bk where bk: "atm_list_rpeek (buf_blks (fst st)) = Inr bk"
      "bk = (if ps = [] then None else Some (snd (last ps)))"
    using list_rep_rpeek [OF ps(1)] by blast
  show ?thesis
  proof (cases "case bk of None \<Rightarrow> True | Some b \<Rightarrow> blk_size b = blk_widx b")
    case False
    then obtain b where b: "bk = Some b" "blk_size b \<noteq> blk_widx b" by (cases bk) auto
    then obtain qs a where q: "ps = qs @ [(a, b)]"
      using bk(2) by (cases ps rule: rev_cases) (auto split: if_splits)
    have "wf_blk b" using wb by (simp add: q wf_blks_snoc)
    then have lt: "blk_widx b < blk_size b" using b(2) by (simp add: wf_blk_def)
    have rep: "list_rep (buf_blks (fst st)) (qs @ [(a, b)])" using ps(1) q by simp
    have "atm_buf_get_wblk st = Inr (a, st)"
      using bk(1) b(1) False list_rep_last [OF rep] by (simp add: atm_buf_get_wblk_def)
    then show ?thesis using wf lt rep by blast
  next
    case True
    obtain b pool where b: "atm_blk_new (snd st) = Inr (b, pool)" "fresh_blk b" "wf_pool pool"
      using atm_blk_new_pool [of "snd st"] wf by (auto simp: wf_buf_def)
    obtain l where l: "atm_list_push (buf_blks (fst st)) b = Inr l"
        "list_rep l (ps @ [(l_brk (buf_blks (fst st)), b)])"
        "list_type l = list_type (buf_blks (fst st))"
      using list_rep_push [OF ps(1), of b] by (auto simp: list_type_def)
    let ?st = "((fst st)\<lparr>buf_blks := l\<rparr>, pool)"
    have wll: "wf_list l" "list_vals l = map snd ps @ [b]" using list_rep_wf [OF l(2)] by simp_all
    then have v: "buf_vals ?st = map snd ps @ [b]" by (simp add: buf_vals_def)
    have str: "buf_stream ?st = buf_stream st" using b(2) by (simp add: buf_stream_def v ps(2))
    have full: "blk_widx x = blk_size x" if "x \<in> set (map snd ps)" for x
    proof (cases ps rule: rev_cases)
      case (snoc qs y)
      then show ?thesis using that True bk(2) wb by (auto simp: wf_blks_snoc)
    qed (use that in simp)
    have "wf_blks (map snd ps @ [b])"
      using b(2) full wb unfolding wf_blks_snoc by (auto simp: wf_blks_def fresh_blk_def)
    then have wf': "wf_buf ?st" using wf l(3) b(3) str v wll unfolding wf_buf_def by simp
    have w0: "blk_widx b < blk_size b"
      using b(2) by (simp add: fresh_blk_def wf_blk_def ATM_BLK_DFT_LEN_def)
    have "atm_buf_get_wblk st = Inr (l_brk (buf_blks (fst st)), ?st)"
      using bk(1) True b(1) l(1) list_rep_last [OF l(2)]
      by (cases bk) (simp_all add: atm_buf_get_wblk_def)
    moreover have "list_rep (buf_blks (fst ?st)) (ps @ [(l_brk (buf_blks (fst st)), b)])"
      using l(2) by simp
    ultimately show ?thesis using wf' str w0 by blast
  qed
qed

text \<open>Storing bytes at the write index of the last block appends them to the stream.\<close>

lemma wblk_append:
  assumes wf: "wf_buf st" and rep: "list_rep (buf_blks (fst st)) (ps @ [(a, b)])"
    and fit: "blk_widx b + length bs \<le> blk_size b"
  shows "\<exists>h st'. mem_write (blk_head b) (blk_widx b) bs = Inr h
    \<and> blk_put st a (b\<lparr>blk_head := h, blk_widx := blk_widx b + length bs\<rparr>) = Inr st'
    \<and> wf_buf (aval_add (int (length bs)) st')
    \<and> buf_stream (aval_add (int (length bs)) st') = buf_stream st @ bs"
proof -
  have v: "buf_vals st = map snd ps @ [b]" using list_rep_wf [OF rep] by (simp add: buf_vals_def)
  then have w: "wf_blks (map snd ps @ [b])" using wf by (simp add: wf_buf_def)
  then have wb: "wf_blk b" by (simp add: wf_blks_snoc)
  let ?h = "take (blk_widx b) (blk_head b) @ bs @ drop (blk_widx b + length bs) (blk_head b)"
  let ?b = "b\<lparr>blk_head := ?h, blk_widx := blk_widx b + length bs\<rparr>"
  have h: "mem_write (blk_head b) (blk_widx b) bs = Inr ?h" using wb fit by (simp add: wf_blk_def)
  have bb: "blk_bytes ?b = blk_bytes b @ bs"
    using wb fit by (simp add: blk_bytes_def wf_blk_def drop_take)
  have wb': "wf_blk ?b" using wb fit by (auto simp: wf_blk_def)
  have new: "wf_blks (map snd ps @ ?b # map snd [])" using w wb' by (simp add: wf_blks_snoc)
  have len: "int (length (blk_bytes ?b)) = int (length (blk_bytes b)) + int (length bs)"
    unfolding bb by simp
  show ?thesis
    using blk_put_rep [OF wf _ new len, of a] rep h bb
    by (auto simp: buf_stream_def v comp_def)
qed

section \<open>The loops\<close>

lemma buf_write_loop_ok:
  "wf_buf st \<Longrightarrow> 0 \<le> rmn \<Longrightarrow> nat rmn \<le> length src \<Longrightarrow>
   \<exists>st'. buf_write_loop st rmn t src = Inr (t + rmn, st') \<and> wf_buf st'
     \<and> buf_stream st' = buf_stream st @ take (nat rmn) src"
proof (induction "nat rmn" arbitrary: st rmn t src rule: less_induct)
  case less
  obtain a b ps st1 where w: "atm_buf_get_wblk st = Inr (a, st1)" "wf_buf st1"
      "buf_stream st1 = buf_stream st" "list_rep (buf_blks (fst st1)) (ps @ [(a, b)])"
      "blk_widx b < blk_size b"
    using atm_buf_get_wblk_ok [OF less.prems(1)] by blast
  have g: "blk_get st1 a = Inr b" using blk_get_rep [OF w(4)] by simp
  define l where "l = min (int (blk_size b) - int (blk_widx b)) rmn"
  let ?bs = "take (nat l) src"
  have l: "0 \<le> l" "l \<le> rmn" using w(5) less.prems(2) by (auto simp: l_def)
  have rd: "mem_read src 0 (nat l) = Inr ?bs" using l less.prems(3) by simp
  have lbs: "int (length ?bs) = l" using l less.prems(3) by simp
  have lens: "length ?bs = nat l" "int (nat l) = l" using lbs l(1) by linarith+
  have fit: "blk_widx b + length ?bs \<le> blk_size b" using lbs unfolding l_def by linarith
  obtain h st2 where h: "mem_write (blk_head b) (blk_widx b) ?bs = Inr h"
      "blk_put st1 a (b\<lparr>blk_head := h, blk_widx := blk_widx b + nat l\<rparr>) = Inr st2"
      "wf_buf (aval_add l st2)" "buf_stream (aval_add l st2) = buf_stream st @ ?bs"
    using wblk_append [OF w(2,4) fit] w(3) lens by auto
  have av: "0 < int (blk_size b) - int (blk_widx b)" using w(5) by simp
  show ?case
  proof (cases "0 < rmn - l")
    case True
    have "0 < l" using av True by (simp add: l_def min_def split: if_splits)
    then have dec: "nat (rmn - l) < nat rmn" using l by linarith
    have fit': "nat (rmn - l) \<le> length (drop (nat l) src)" using less.prems(3) l by simp
    obtain st3 where st3: "buf_write_loop (aval_add l st2) (rmn - l) (t + l) (drop (nat l) src)
          = Inr (t + l + (rmn - l), st3)" "wf_buf st3"
        "buf_stream st3 = buf_stream (aval_add l st2) @ take (nat (rmn - l)) (drop (nat l) src)"
      using less.hyps [OF dec h(3) _ fit', of "t + l"] True by (meson less_imp_le)
    have "nat rmn = nat l + nat (rmn - l)" using l by linarith
    then have "take (nat rmn) src = ?bs @ take (nat (rmn - l)) (drop (nat l) src)"
      by (simp only: take_add)
    then show ?thesis using w(1) g rd h(1,2,4) av l True st3
      by (subst buf_write_loop.simps) (simp add: Let_def flip: l_def)
  next
    case False
    then have e: "l = rmn" using l by linarith
    show ?thesis
      using w(1) g rd h av less.prems(2) False
      by (subst buf_write_loop.simps) (simp add: Let_def e flip: l_def)
  qed
qed

lemma buf_read_loop_ok:
  "wf_buf st \<Longrightarrow> 0 \<le> rmn \<Longrightarrow>
   \<exists>st'. buf_read_loop st rmn t dst =
       Inr (t + int (min (nat rmn) (length (buf_stream st))), dst @ take (nat rmn) (buf_stream st), st')
     \<and> wf_buf st' \<and> buf_stream st' = drop (nat rmn) (buf_stream st)"
proof (induction "nat rmn" arbitrary: st rmn t dst rule: less_induct)
  case less
  obtain r st1 where r: "atm_buf_get_rblk st = Inr (r, st1)" "wf_buf st1"
      "buf_stream st1 = buf_stream st" "peek_ok st1 r"
    using atm_buf_get_rblk_ok [OF less.prems(1)] by blast
  show ?case
  proof (cases r)
    case None
    then have "buf_stream st = []" using r(3,4) by (simp add: peek_ok_def)
    then show ?thesis using r None by (subst buf_read_loop.simps) simp
  next
    case (Some a)
    then obtain b qs where b: "list_rep (buf_blks (fst st1)) ((a, b) # qs)" "blk_ridx b < blk_widx b"
      using r(4) by (auto simp: peek_ok_def)
    have g: "blk_get st1 a = Inr b" using blk_get_rep [of st1 "[]"] b(1) by simp
    define l where "l = min (int (blk_widx b) - int (blk_ridx b)) rmn"
    have l: "0 \<le> l" "l \<le> rmn" using b(2) less.prems(2) by (auto simp: l_def)
    have k: "nat l \<le> blk_widx b - blk_ridx b" using b(2) unfolding l_def by linarith
    obtain st2 where p: "blk_put st1 a (b\<lparr>blk_ridx := blk_ridx b + nat l\<rparr>) = Inr st2"
        "wf_buf (aval_add (- l) st2)" "buf_stream (aval_add (- l) st2) = drop (nat l) (buf_stream st)"
        "mem_read (blk_head b) (blk_ridx b) (nat l) = Inr (take (nat l) (buf_stream st))"
        "blk_widx b - blk_ridx b \<le> length (buf_stream st)"
      using rblk_take [OF r(2) b(1) k] r(3) int_nat_eq [of l] l(1) by auto
    have ll: "nat l \<le> length (buf_stream st)" using p(5) k by linarith
    have av: "0 < int (blk_widx b) - int (blk_ridx b)" using b(2) by simp
    show ?thesis
    proof (cases "0 < rmn - l")
      case True
      have "0 < l" using av True by (simp add: l_def min_def split: if_splits)
      then have dec: "nat (rmn - l) < nat rmn" using l by linarith
      have nr: "nat rmn = nat l + nat (rmn - l)" using l by linarith
      let ?d = "dst @ take (nat l) (buf_stream st)"
      obtain st3 where st3: "buf_read_loop (aval_add (- l) st2) (rmn - l) (t + l) ?d
          = Inr (t + l + int (min (nat (rmn - l)) (length (drop (nat l) (buf_stream st)))),
                 ?d @ take (nat (rmn - l)) (drop (nat l) (buf_stream st)), st3)" "wf_buf st3"
          "buf_stream st3 = drop (nat (rmn - l)) (drop (nat l) (buf_stream st))"
        using less.hyps [OF dec p(2), of "t + l" ?d] True unfolding p(3)
        by (meson less_imp_le)
      have c1: "t + l + int (min (nat (rmn - l)) (length (drop (nat l) (buf_stream st))))
          = t + int (min (nat rmn) (length (buf_stream st)))"
      proof -
        have "min (nat rmn) (length (buf_stream st))
            = nat l + min (nat (rmn - l)) (length (buf_stream st) - nat l)"
          using ll nr by linarith
        then show ?thesis using l(1) by simp
      qed
      have c2: "?d @ take (nat (rmn - l)) (drop (nat l) (buf_stream st)) = dst @ take (nat rmn) (buf_stream st)"
        unfolding nr by (simp only: take_add append.assoc)
      have c3: "drop (nat (rmn - l)) (drop (nat l) (buf_stream st)) = drop (nat rmn) (buf_stream st)"
        unfolding nr by (simp add: add.commute)
      have "buf_read_loop st rmn t dst = buf_read_loop (aval_add (- l) st2) (rmn - l) (t + l) ?d"
        using r(1) Some g p(1,4) av l True by (subst buf_read_loop.simps) (simp add: Let_def flip: l_def)
      then show ?thesis using st3 unfolding c1 c2 c3 by auto
    next
      case False
      then have e: "l = rmn" using l by linarith
      have "buf_read_loop st rmn t dst = Inr (t + rmn, dst @ take (nat rmn) (buf_stream st), aval_add (- rmn) st2)"
        using r(1) Some g p(1,4) av less.prems(2) False
        by (subst buf_read_loop.simps) (simp add: Let_def e flip: l_def)
      then show ?thesis using p(2,3) ll less.prems(2) unfolding e by auto
    qed
  qed
qed

section \<open>Sockets\<close>

text \<open>
  What is relied on of \<^verbatim>\<open>read\<close>: for a positive length it stores at most that many of the
  pending bytes, in order, and returns their number, or a number that is not positive and
  stores nothing. Likewise \<^verbatim>\<open>write\<close> takes a prefix of what it is given, or nothing.
\<close>

definition sock_source :: "'s sys_read \<Rightarrow> ('s \<Rightarrow> u8 list) \<Rightarrow> bool" where
  "sock_source rd pend \<longleftrightarrow> (\<forall>s n. 0 < n \<longrightarrow> (case rd s n of (ret, bytes, s') \<Rightarrow>
     if 0 < ret then ret \<le> int n \<and> nat ret \<le> length (pend s)
       \<and> bytes = take (nat ret) (pend s) \<and> pend s' = drop (nat ret) (pend s)
     else pend s' = pend s))"

definition sock_sink :: "'s sys_write \<Rightarrow> ('s \<Rightarrow> u8 list) \<Rightarrow> bool" where
  "sock_sink wr sent \<longleftrightarrow> (\<forall>s bs. bs \<noteq> [] \<longrightarrow> (case wr s bs of (ret, s') \<Rightarrow>
     if 0 < ret then ret \<le> int (length bs) \<and> sent s' = sent s @ take (nat ret) bs
     else sent s' = sent s))"

text \<open>A socket that takes something in each call, at least for the next \<^verbatim>\<open>n\<close> bytes.\<close>

definition sock_eager :: "'s sys_write \<Rightarrow> ('s \<Rightarrow> nat \<Rightarrow> bool) \<Rightarrow> bool" where
  "sock_eager wr good \<longleftrightarrow> (\<forall>s bs n. good s n \<longrightarrow> bs \<noteq> [] \<longrightarrow> length bs \<le> n \<longrightarrow>
     (case wr s bs of (ret, s') \<Rightarrow> 0 < ret \<and> good s' (n - nat ret)))"

lemma sock_eagerD:
  assumes "sock_eager wr good" "good s n" "bs \<noteq> []" "length bs \<le> n" "wr s bs = (ret, s')"
  shows "0 < ret \<and> good s' (n - nat ret)"
  using assms(1) [unfolded sock_eager_def, rule_format, OF assms(2-4)] assms(5) by simp

lemma sock_sourceD:
  assumes "sock_source rd pend" "0 < n" "rd s n = (ret, bytes, s')"
  shows "if 0 < ret then ret \<le> int n \<and> nat ret \<le> length (pend s)
       \<and> bytes = take (nat ret) (pend s) \<and> pend s' = drop (nat ret) (pend s)
     else pend s' = pend s"
  using assms(1) [unfolded sock_source_def, rule_format, OF assms(2), of s] assms(3) by simp

lemma sock_sinkD:
  assumes "sock_sink wr sent" "bs \<noteq> []" "wr s bs = (ret, s')"
  shows "if 0 < ret then ret \<le> int (length bs) \<and> sent s' = sent s @ take (nat ret) bs
     else sent s' = sent s"
  using assms(1) [unfolded sock_sink_def, rule_format, OF assms(2), of s] assms(3) by simp

lemma read_sock_loop_ok:
  assumes src: "sock_source rd pend"
  shows "wf_buf st \<Longrightarrow> length (pend s) < n \<Longrightarrow> 0 \<le> t \<Longrightarrow>
    \<exists>k r s' st'. read_sock_loop rd n s st t = Inr (r, s', st') \<and> wf_buf st'
      \<and> k \<le> length (pend s) \<and> pend s' = drop k (pend s)
      \<and> buf_stream st' = buf_stream st @ take k (pend s)
      \<and> (if 0 < t + int k then r = t + int k else r \<le> 0)
      \<and> (\<exists>s0 m. 0 < m \<and> fst (rd s0 m) \<le> 0 \<and> pend s0 = pend s')"
proof (induction n arbitrary: s st t)
  case (Suc n)
  obtain a b ps st1 where w: "atm_buf_get_wblk st = Inr (a, st1)" "wf_buf st1"
      "buf_stream st1 = buf_stream st" "list_rep (buf_blks (fst st1)) (ps @ [(a, b)])"
      "blk_widx b < blk_size b"
    using atm_buf_get_wblk_ok [OF Suc.prems(1)] by blast
  have g: "blk_get st1 a = Inr b" using blk_get_rep [OF w(4)] by simp
  obtain ret bs s1 where rd: "rd s (blk_size b - blk_widx b) = (ret, bs, s1)"
    by (metis surj_pair)
  have sp: "if 0 < ret then ret \<le> int (blk_size b - blk_widx b) \<and> nat ret \<le> length (pend s)
      \<and> bs = take (nat ret) (pend s) \<and> pend s1 = drop (nat ret) (pend s) else pend s1 = pend s"
    using sock_sourceD [OF src _ rd] w(5) by simp
  show ?case
  proof (cases "0 < ret")
    case False
    then have "read_sock_loop rd (Suc n) s st t = Inr (if 0 < t then t else ret, s1, st1)"
      using w(1) g rd by simp
    moreover have "\<exists>s0 m. 0 < m \<and> fst (rd s0 m) \<le> 0 \<and> pend s0 = pend s1"
      using False rd w(5) sp by (intro exI [of _ s] exI [of _ "blk_size b - blk_widx b"]) simp
    ultimately show ?thesis using w(2,3) sp False Suc.prems(3)
      by (intro exI [of _ 0] exI [of _ "if 0 < t then t else ret"] exI [of _ s1] exI [of _ st1]) simp
  next
    case True
    then have r: "ret \<le> int (blk_size b - blk_widx b)" "nat ret \<le> length (pend s)"
        "bs = take (nat ret) (pend s)" "pend s1 = drop (nat ret) (pend s)" using sp by auto
    have lb: "length bs = nat ret" "int (length bs) = ret" using r True by simp_all
    have fit: "blk_widx b + length bs \<le> blk_size b" using r(1) lb w(5) by linarith
    obtain h st2 where h: "mem_write (blk_head b) (blk_widx b) bs = Inr h"
        "blk_put st1 a (b\<lparr>blk_head := h, blk_widx := blk_widx b + nat ret\<rparr>) = Inr st2"
        "wf_buf (aval_add ret st2)" "buf_stream (aval_add ret st2) = buf_stream st @ bs"
      using wblk_append [OF w(2,4) fit] w(3) lb by auto
    have lt: "length (pend s1) < n" using Suc.prems(2) r(2,4) True by simp
    obtain k x s' st' where ih: "read_sock_loop rd n s1 (aval_add ret st2) (t + ret) = Inr (x, s', st')"
        "wf_buf st'" "k \<le> length (pend s1)" "pend s' = drop k (pend s1)"
        "buf_stream st' = buf_stream (aval_add ret st2) @ take k (pend s1)"
        "if 0 < t + ret + int k then x = t + ret + int k else x \<le> 0"
        "\<exists>s0 m. 0 < m \<and> fst (rd s0 m) \<le> 0 \<and> pend s0 = pend s'"
      using Suc.IH [OF h(3) lt add_nonneg_nonneg [OF Suc.prems(3) less_imp_le [OF True]]] by blast
    have "read_sock_loop rd (Suc n) s st t = Inr (x, s', st')"
      using w(1) g rd h(1,2) True ih(1) by simp
    moreover have "take (nat ret + k) (pend s) = bs @ take k (pend s1)"
      using r(3,4) by (simp only: take_add)
    ultimately show ?thesis using ih r True h(4)
      by (intro exI [of _ "nat ret + k"] exI [of _ x] exI [of _ s'] exI [of _ st'])
         (auto simp: add.commute)
  qed
qed simp

lemma write_sock_loop_ok:
  assumes snk: "sock_sink wr sent"
  shows "wf_buf st \<Longrightarrow> length (buf_stream st) < n \<Longrightarrow> 0 \<le> t \<Longrightarrow>
    \<exists>k r s' st'. write_sock_loop wr n s st t ret0 = Inr (r, s', st') \<and> wf_buf st'
      \<and> k \<le> length (buf_stream st) \<and> sent s' = sent s @ take k (buf_stream st)
      \<and> buf_stream st' = drop k (buf_stream st) \<and> (0 < t + int k \<longrightarrow> r = t + int k)
      \<and> (sock_eager wr good \<and> good s (length (buf_stream st)) \<longrightarrow> k = length (buf_stream st))"
proof (induction n arbitrary: s st t ret0)
  case (Suc n)
  obtain q st1 where q: "atm_buf_get_rblk st = Inr (q, st1)" "wf_buf st1"
      "buf_stream st1 = buf_stream st" "peek_ok st1 q"
    using atm_buf_get_rblk_ok [OF Suc.prems(1)] by blast
  show ?case
  proof (cases q)
    case None
    then show ?thesis using q Suc.prems(3)
      by (intro exI [of _ 0] exI [of _ "if 0 < t then t else ret0"] exI [of _ s] exI [of _ st1]) (auto simp: peek_ok_def)
  next
    case (Some a)
    then obtain b qs where b: "list_rep (buf_blks (fst st1)) ((a, b) # qs)" "blk_ridx b < blk_widx b"
      using q(4) by (auto simp: peek_ok_def)
    have g: "blk_get st1 a = Inr b" using blk_get_rep [of st1 "[]"] b(1) by simp
    let ?m = "blk_widx b - blk_ridx b"
    let ?bs = "take ?m (buf_stream st)"
    have rd: "mem_read (blk_head b) (blk_ridx b) ?m = Inr ?bs" "?m \<le> length (buf_stream st)"
      using rblk_take [OF q(2) b(1) order_refl] q(3) by auto
    have ne: "?bs \<noteq> []" and lbs: "length ?bs = ?m" using b(2) rd(2) by auto
    obtain ret s1 where wr: "wr s ?bs = (ret, s1)" by (metis surj_pair)
    have sp: "if 0 < ret then ret \<le> int (length ?bs) \<and> sent s1 = sent s @ take (nat ret) ?bs
        else sent s1 = sent s"
      by (rule sock_sinkD [OF snk ne wr])
    have eg: "0 < ret \<and> good s1 (length (buf_stream st) - nat ret)"
      if "sock_eager wr good" "good s (length (buf_stream st))"
      by (rule sock_eagerD [where good = good, OF that ne _ wr]) simp
    show ?thesis
    proof (cases "0 < ret")
      case False
      then have "write_sock_loop wr (Suc n) s st t ret0 = Inr (if 0 < t then t else ret, s1, st1)"
        using q(1) Some g rd(1) ne wr by simp
      moreover have "\<not> (sock_eager wr good \<and> good s (length (buf_stream st)))"
        using eg False by blast
      ultimately show ?thesis using q sp False
        by (intro exI [of _ 0] exI [of _ "if 0 < t then t else ret"] exI [of _ s1] exI [of _ st1]) auto
    next
      case True
      then have r: "nat ret \<le> ?m" "sent s1 = sent s @ take (nat ret) (buf_stream st)"
        using sp lbs by (auto simp: min_def)
      obtain st2 where p: "blk_put st1 a (b\<lparr>blk_ridx := blk_ridx b + nat ret\<rparr>) = Inr st2"
          "wf_buf (aval_add (- ret) st2)" "buf_stream (aval_add (- ret) st2) = drop (nat ret) (buf_stream st)"
        using rblk_take [OF q(2) b(1) r(1)] q(3) True by auto
      have lt: "length (buf_stream (aval_add (- ret) st2)) < n"
        using Suc.prems(2) p(3) True rd(2) b(2) by simp
      have tr: "0 \<le> t + ret" using Suc.prems(3) True by simp
      from Suc.IH [OF p(2) lt tr, of s1 ret] obtain k x s' st' where ih: "write_sock_loop wr n s1 (aval_add (- ret) st2) (t + ret) ret = Inr (x, s', st')"
          "wf_buf st'" "k \<le> length (buf_stream (aval_add (- ret) st2))"
          "sent s' = sent s1 @ take k (buf_stream (aval_add (- ret) st2))"
          "buf_stream st' = drop k (buf_stream (aval_add (- ret) st2))"
          "0 < t + ret + int k \<longrightarrow> x = t + ret + int k"
          "sock_eager wr good \<and> good s1 (length (buf_stream (aval_add (- ret) st2))) \<longrightarrow> k = length (buf_stream (aval_add (- ret) st2))"
        by (elim exE conjE) (rule that)
      have "write_sock_loop wr (Suc n) s st t ret0 = Inr (x, s', st')"
        using q(1) Some g rd(1) ne wr True p(1) ih(1) by simp
      moreover have "take (nat ret + k) (buf_stream st) = take (nat ret) (buf_stream st)
          @ take k (drop (nat ret) (buf_stream st))" by (simp only: take_add)
      moreover have "nat ret + k \<le> length (buf_stream st)" using ih(3) p(3) r(1) rd(2) by simp
      moreover have "nat ret + k = length (buf_stream st)" if e: "sock_eager wr good" "good s (length (buf_stream st))"
      proof -
        have "good s1 (length (buf_stream st) - nat ret)" using eg [OF e] by simp
        then have "k = length (buf_stream st) - nat ret" using ih(7) e(1) p(3) by simp
        then show ?thesis using r(1) rd(2) by simp
      qed
      ultimately show ?thesis using ih(2-6) r True p(3)
        by (intro exI [of _ "nat ret + k"] exI [of _ x] exI [of _ s'] exI [of _ st'])
           (auto simp: add.commute)
    qed
  qed
qed simp

section \<open>Reading a line\<close>

lemma scan_blk_append: "scan_blk (xs @ ys) s = scan_blk ys (scan_blk xs s)"
proof (induction xs s rule: scan_blk.induct)
  case (2 c cs s)
  have stop: "ln_stop s \<Longrightarrow> scan_blk ys s = s" for ys s by (cases ys) simp_all
  show ?case using 2 stop by simp
qed simp

lemma scan_blk_text:
  "\<forall>c \<in> set xs. \<not> is_nl c \<Longrightarrow> \<not> ln_stop s \<Longrightarrow> \<not> ln_find_end s \<Longrightarrow>
   scan_blk xs s = s\<lparr>ln_len := ln_len s + length xs, ln_strlen := ln_strlen s + length xs\<rparr>"
  by (induction xs arbitrary: s) simp_all

lemma scan_blk_nls:
  "\<forall>c \<in> set xs. is_nl c \<Longrightarrow> \<not> ln_stop s \<Longrightarrow> ln_find_end s \<Longrightarrow>
   scan_blk xs s = s\<lparr>ln_len := ln_len s + length xs\<rparr>"
  by (induction xs arbitrary: s) simp_all

lemma scan_list_blks:
  "dll (l_heap l) p ps None \<Longrightarrow> \<forall>b \<in> snd ` set ps. wf_blk b \<Longrightarrow> length ps < n \<Longrightarrow>
   scan_list n l \<lparr>it_curr = first_addr None ps\<rparr> s = Inr (scan_blk (concat (map (blk_bytes \<circ> snd) ps)) s)"
proof (induction ps arbitrary: n p s)
  case Nil
  then show ?case by (cases n) (simp_all add: atm_list_next_def)
next
  case (Cons x ps)
  obtain m where n: "n = Suc m" using Cons.prems(3) by (cases n) simp_all
  obtain a b where x: "x = (a, b)" by (cases x)
  have nx: "atm_list_next l \<lparr>it_curr = Some a\<rparr> = Inr (Some b, \<lparr>it_curr = first_addr None ps\<rparr>)"
    using Cons.prems(1) x by (simp add: atm_list_next_def get_ent_def)
  have rd: "mem_read (blk_head b) (blk_ridx b) (blk_widx b - blk_ridx b) = Inr (blk_bytes b)"
    using Cons.prems(2) x by (auto simp: blk_bytes_def wf_blk_def)
  have ih: "scan_list m l \<lparr>it_curr = first_addr None ps\<rparr> s'
      = Inr (scan_blk (concat (map (blk_bytes \<circ> snd) ps)) s')" for s'
    by (rule Cons.IH [of "Some a"]) (use Cons.prems x n in auto)
  have stop: "ln_stop s \<Longrightarrow> scan_blk ys s = s" for ys by (cases ys) simp_all
  show ?case using nx rd ih x n stop by (simp add: scan_blk_append comp_def)
qed

text \<open>The decomposition of the stream that a line is read from.\<close>

definition line_of :: "u8 list \<Rightarrow> u8 list" where
  "line_of bs = takeWhile (\<lambda>c. \<not> is_nl c) bs"

definition after_line :: "u8 list \<Rightarrow> u8 list" where
  "after_line bs = dropWhile is_nl (dropWhile (\<lambda>c. \<not> is_nl c) bs)"

definition has_line :: "u8 list \<Rightarrow> bool" where
  "has_line bs \<longleftrightarrow> (\<exists>c \<in> set bs. is_nl c)"

lemma scan_line:
  "scan_blk bs \<lparr>ln_len = 0, ln_strlen = 0, ln_find_end = False, ln_stop = False\<rparr> =
   (if has_line bs then \<lparr>ln_len = length bs - length (after_line bs), ln_strlen = length (line_of bs),
      ln_find_end = True, ln_stop = after_line bs \<noteq> []\<rparr>
    else \<lparr>ln_len = length bs, ln_strlen = length bs, ln_find_end = False, ln_stop = False\<rparr>)"
proof (cases "has_line bs")
  case False
  then show ?thesis using scan_blk_text [of bs] by (auto simp: has_line_def)
next
  case True
  let ?s0 = "\<lparr>ln_len = 0, ln_strlen = 0, ln_find_end = False, ln_stop = False\<rparr>"
  let ?r = "dropWhile (\<lambda>c. \<not> is_nl c) bs"
  obtain c r where r: "?r = c # r" using True
    by (cases ?r) (auto simp: has_line_def dropWhile_eq_Nil_conv)
  have c: "is_nl c" using r hd_dropWhile [of "\<lambda>c. \<not> is_nl c" bs] by simp
  let ?n = "takeWhile is_nl r" and ?z = "dropWhile is_nl r"
  have al: "after_line bs = ?z" using r c by (simp add: after_line_def)
  have bs: "bs = line_of bs @ [c] @ ?n @ ?z"
    using r unfolding line_of_def by (metis append_Cons append_Nil takeWhile_dropWhile_id)
  have len: "length bs - length ?z = Suc (length (line_of bs) + length ?n)"
  proof -
    have "length r = length ?n + length ?z" by (metis length_append takeWhile_dropWhile_id)
    then show ?thesis by (subst bs) simp
  qed
  have s1: "scan_blk (line_of bs) ?s0 =
      \<lparr>ln_len = length (line_of bs), ln_strlen = length (line_of bs), ln_find_end = False, ln_stop = False\<rparr>"
    using scan_blk_text [of "line_of bs" ?s0] by (auto simp: line_of_def dest: set_takeWhileD)
  have s2: "scan_blk ?n s = s\<lparr>ln_len := ln_len s + length ?n\<rparr>" if "\<not> ln_stop s" "ln_find_end s" for s
    using scan_blk_nls [of ?n s] that by (auto dest: set_takeWhileD)
  have s3: "scan_blk ?z s = s\<lparr>ln_stop := ?z \<noteq> []\<rparr>" if "\<not> ln_stop s" "ln_find_end s" for s
  proof (cases ?z)
    case (Cons d ds)
    then have "\<not> is_nl d" using hd_dropWhile [of is_nl r] by simp
    then show ?thesis using Cons that by simp
  next
    case Nil
    show ?thesis unfolding Nil using that by (cases s) simp
  qed
  have "scan_blk bs ?s0 = scan_blk ?z (scan_blk ?n (scan_blk [c] (scan_blk (line_of bs) ?s0)))"
    by (subst bs) (simp only: scan_blk_append)
  then show ?thesis using True c len by (simp add: s1 s2 s3 al)
qed

lemma after_line_suffix: "after_line bs = drop (length bs - length (after_line bs)) bs"
proof -
  have "bs = (takeWhile (\<lambda>c. \<not> is_nl c) bs @ takeWhile is_nl (dropWhile (\<lambda>c. \<not> is_nl c) bs)) @ after_line bs"
    by (simp add: after_line_def)
  then obtain p where "bs = p @ after_line bs" by blast
  then show ?thesis by (metis append_eq_conv_conj length_append diff_add_inverse2)
qed

lemma line_prefix:
  assumes "has_line bs"
  shows "length (line_of bs) < length bs - length (after_line bs)"
    and "take (length (line_of bs)) bs = line_of bs"
proof -
  let ?r = "dropWhile (\<lambda>c. \<not> is_nl c) bs"
  obtain c r where r: "?r = c # r" using assms
    by (cases ?r) (auto simp: has_line_def dropWhile_eq_Nil_conv)
  have c: "is_nl c" using r hd_dropWhile [of "\<lambda>c. \<not> is_nl c" bs] by simp
  have "length (after_line bs) \<le> length r"
    using r c by (simp add: after_line_def length_dropWhile_le)
  moreover have "length bs = length (line_of bs) + Suc (length r)"
    using arg_cong [OF takeWhile_dropWhile_id [of "\<lambda>c. \<not> is_nl c" bs], of length] r
    by (simp add: line_of_def)
  ultimately show "length (line_of bs) < length bs - length (after_line bs)" by linarith
  show "take (length (line_of bs)) bs = line_of bs"
    unfolding line_of_def by (metis append_eq_conv_conj takeWhile_dropWhile_id)
qed

lemma atm_buf_read_take:
  assumes "wf_buf st" "n < 2 ^ 31"
  shows "\<exists>st'. atm_buf_read st (of_nat n) = Inr (int (min n (length (buf_stream st))), take n (buf_stream st), st')
    \<and> wf_buf st' \<and> buf_stream st' = drop n (buf_stream st)"
proof -
  have "sint (of_nat n :: u32) = int n"
    using assms(2) by (simp add: signed_of_nat signed_take_bit_int_eq_self)
  then show ?thesis using buf_read_loop_ok [OF assms(1), of "int n" 0 "[]"] by (simp add: atm_buf_read_def)
qed

lemma atm_buf_write_append:
  assumes "wf_buf st" "n < 2 ^ 31" "n \<le> length src"
  shows "\<exists>st'. atm_buf_write st src (of_nat n) = Inr (int n, st')
    \<and> wf_buf st' \<and> buf_stream st' = buf_stream st @ take n src"
proof -
  have "sint (of_nat n :: u32) = int n"
    using assms(2) by (simp add: signed_of_nat signed_take_bit_int_eq_self)
  then show ?thesis using buf_write_loop_ok [OF assms(1), of "int n" src 0] assms(3)
    by (simp add: atm_buf_write_def)
qed

text \<open>The line as it is returned: \<^verbatim>\<open>strlen\<close> bytes, then zeroes.\<close>

lemma atm_buf_read_line_ok:
  assumes wf: "wf_buf st" and len: "length (buf_stream st) < 2 ^ 31"
  shows "if has_line (buf_stream st)
    then \<exists>n st'. atm_buf_read_line st = Inr (Some (line_of (buf_stream st) @ replicate (Suc n) 0), st')
      \<and> wf_buf st' \<and> buf_stream st' = after_line (buf_stream st)
    else atm_buf_read_line st = Inr (None, st)"
proof -
  let ?S = "buf_stream st" and ?l = "buf_blks (fst st)"
  obtain ps where ps: "list_rep ?l ps" "buf_vals st = map snd ps" using wf_buf_list [OF wf] by blast
  have S: "concat (map (blk_bytes \<circ> snd) ps) = ?S" by (simp add: buf_stream_def ps(2) comp_def)
  have sc: "scan_list (Suc (Suc (l_brk ?l))) ?l (atm_list_iter_new ?l) s = Inr (scan_blk ?S s)" for s
  proof -
    have "\<forall>b \<in> snd ` set ps. wf_blk b" using wf ps(2) by (auto simp: wf_buf_def wf_blks_def)
    moreover have "length ps < Suc (Suc (l_brk ?l))" using list_rep_length [OF ps(1)] by simp
    moreover have "atm_list_iter_new ?l = \<lparr>it_curr = first_addr None ps\<rparr>"
      using ps(1) by (simp add: atm_list_iter_new_def list_rep_def)
    ultimately show ?thesis
      using scan_list_blks [of ?l None ps "Suc (Suc (l_brk ?l))" s] ps(1) S by (simp add: list_rep_def)
  qed
  show ?thesis
  proof (cases "has_line ?S")
    case False
    then show ?thesis unfolding atm_buf_read_line_def Let_def sc res_bind_simps scan_line by simp
  next
    case True
    let ?n = "length ?S - length (after_line ?S)" and ?k = "length (line_of ?S)"
    note lp = line_prefix [OF True]
    have nl: "?n < 2 ^ 31" "?n \<le> length ?S" using len by linarith+
    obtain st' where st': "atm_buf_read st (of_nat ?n) = Inr (int (min ?n (length ?S)), take ?n ?S, st')"
        "wf_buf st'" "buf_stream st' = drop ?n ?S"
      using atm_buf_read_take [OF wf nl(1)] by blast
    have lt: "length (take ?n ?S) = ?n" using nl(2) by simp
    have mw: "mem_write (take ?n ?S @ replicate (Suc ?n - length (take ?n ?S)) 0) ?k (replicate (?n - ?k) 0)
        = Inr (line_of ?S @ replicate (Suc (?n - ?k)) 0)"
    proof -
      have "take ?k (take ?n ?S @ [0]) = line_of ?S" using lp nl by simp
      then show ?thesis using lp(1) unfolding lt
        by (simp add: replicate_append_same less_imp_le)
    qed
    have "atm_buf_read_line st = Inr (Some (line_of ?S @ replicate (Suc (?n - ?k)) 0), st')"
      using st'(1) mw True lp(1) unfolding atm_buf_read_line_def Let_def sc res_bind_simps scan_line by simp
    moreover have "buf_stream st' = after_line ?S" using st'(3) after_line_suffix by metis
    ultimately show ?thesis using st'(2) True by auto
  qed
qed

section \<open>The contract of a buffer\<close>

fun put_all :: "('b \<Rightarrow> u8 list \<Rightarrow> 'b res) \<Rightarrow> 'b \<Rightarrow> u8 list list \<Rightarrow> 'b res" where
  "put_all f b [] = Inr b"
| "put_all f b (p # ps) = res_bind (f b p) (\<lambda>b. put_all f b ps)"

fun get_all :: "('b \<Rightarrow> nat \<Rightarrow> (u8 list \<times> 'b) res) \<Rightarrow> 'b \<Rightarrow> nat list \<Rightarrow> (u8 list \<times> 'b) res" where
  "get_all f b [] = Inr ([], b)"
| "get_all f b (n # ns) =
     res_bind (f b n) (\<lambda>(p, b). res_map (\<lambda>(ps, b). (p @ ps, b)) (get_all f b ns))"

text \<open>
  What the connection and the session rely on: a stream of bytes to which writing appends
  and from which reading takes. Whatever the sizes of the pieces, the bytes come out in the
  order in which they went in.
\<close>

locale byte_stream =
  fixes wf :: "'b \<Rightarrow> bool" and stream :: "'b \<Rightarrow> u8 list"
    and put :: "'b \<Rightarrow> u8 list \<Rightarrow> 'b res" and get :: "'b \<Rightarrow> nat \<Rightarrow> (u8 list \<times> 'b) res"
    and small :: "nat \<Rightarrow> bool"
  assumes put_law: "wf b \<Longrightarrow> small (length bs) \<Longrightarrow>
      \<exists>b'. put b bs = Inr b' \<and> wf b' \<and> stream b' = stream b @ bs"
    and get_law: "wf b \<Longrightarrow> small n \<Longrightarrow>
      \<exists>b'. get b n = Inr (take n (stream b), b') \<and> wf b' \<and> stream b' = drop n (stream b)"
begin

lemma put_all_stream:
  "wf b \<Longrightarrow> \<forall>p \<in> set ps. small (length p) \<Longrightarrow>
   \<exists>b'. put_all put b ps = Inr b' \<and> wf b' \<and> stream b' = stream b @ concat ps"
proof (induction ps arbitrary: b)
  case (Cons p ps)
  then obtain b1 where b1: "put b p = Inr b1" "wf b1" "stream b1 = stream b @ p"
    using put_law [of b p] by auto
  then show ?case using Cons.IH [of b1] Cons.prems by auto
qed simp

lemma get_all_stream:
  "wf b \<Longrightarrow> \<forall>n \<in> set ns. small n \<Longrightarrow>
   \<exists>b'. get_all get b ns = Inr (take (sum_list ns) (stream b), b') \<and> wf b'
     \<and> stream b' = drop (sum_list ns) (stream b)"
proof (induction ns arbitrary: b)
  case (Cons n ns)
  then obtain b1 where b1: "get b n = Inr (take n (stream b), b1)" "wf b1" "stream b1 = drop n (stream b)"
    using get_law [of b n] by auto
  obtain b2 where "get_all get b1 ns = Inr (take (sum_list ns) (stream b1), b2)" "wf b2"
      "stream b2 = drop (sum_list ns) (stream b1)"
    using Cons.IH [of b1] b1(2) Cons.prems by auto
  then show ?case using b1 by (simp add: take_add add.commute)
qed simp

lemma pieces_in_order:
  assumes "wf b" "stream b = []" "\<forall>p \<in> set ps. small (length p)" "\<forall>n \<in> set ns. small n"
  shows "\<exists>b1 b2. put_all put b ps = Inr b1 \<and> get_all get b1 ns = Inr (take (sum_list ns) (concat ps), b2)
    \<and> stream b2 = drop (sum_list ns) (concat ps)"
proof -
  obtain b1 where b1: "put_all put b ps = Inr b1" "wf b1" "stream b1 = concat ps"
    using put_all_stream [OF assms(1,3)] assms(2) by auto
  then show ?thesis using get_all_stream [OF b1(2) assms(4)] by auto
qed

end

definition buf_put :: "buf_st \<Rightarrow> u8 list \<Rightarrow> buf_st res" where
  "buf_put st bs = res_map snd (atm_buf_write st bs (of_nat (length bs)))"

definition buf_get :: "buf_st \<Rightarrow> nat \<Rightarrow> (u8 list \<times> buf_st) res" where
  "buf_get st n = res_map snd (atm_buf_read st (of_nat n))"

interpretation bs: byte_stream wf_buf buf_stream buf_put buf_get "\<lambda>n. n < 2 ^ 31"
proof unfold_locales
  fix b bs
  assume "wf_buf b" "length (bs :: u8 list) < 2 ^ 31"
  then show "\<exists>b'. buf_put b bs = Inr b' \<and> wf_buf b' \<and> buf_stream b' = buf_stream b @ bs"
    using atm_buf_write_append [of b "length bs" bs] by (auto simp: buf_put_def)
next
  fix b and n :: nat
  assume "wf_buf b" "n < 2 ^ 31"
  then show "\<exists>b'. buf_get b n = Inr (take n (buf_stream b), b') \<and> wf_buf b'
      \<and> buf_stream b' = drop n (buf_stream b)"
    using atm_buf_read_take [of b n] by (auto simp: buf_get_def)
qed

text \<open>
  Property C32. Bytes written to an empty buffer in pieces of any sizes, over any number of
  64 KiB blocks, are read back in the same order by reads of any sizes; what the reads do not
  ask for stays in the buffer.
\<close>

theorem atm_buf_pieces_in_order:
  assumes "wf_pool pool" "\<forall>p \<in> set ps. length p < 2 ^ 31" "\<forall>n \<in> set ns. n < 2 ^ 31"
  shows "\<exists>b1 b2. put_all buf_put (atm_buf_new, pool) ps = Inr b1
    \<and> get_all buf_get b1 ns = Inr (take (sum_list ns) (concat ps), b2)
    \<and> buf_stream b2 = drop (sum_list ns) (concat ps)"
  using assms by (intro bs.pieces_in_order) simp_all

theorem atm_buf_pieces_in_order_witness:
  "\<exists>b1 b2. put_all buf_put (atm_buf_new, atm_blk_init) [[1, 2], [3], [4, 5, 6]] = Inr b1
    \<and> get_all buf_get b1 [1, 3] = Inr ([1, 2, 3, 4], b2) \<and> buf_stream b2 = [5, 6]"
proof -
  have "\<exists>b1 b2. put_all buf_put (atm_buf_new, atm_blk_init) [[1, 2], [3], [4, 5, 6]] = Inr b1
      \<and> get_all buf_get b1 [1, 3] = Inr (take (sum_list [1, 3]) (concat [[1, 2], [3], [4, 5, 6]]), b2)
      \<and> buf_stream b2 = drop (sum_list [1, 3]) (concat [[1, 2], [3], [4, 5, 6]])"
    by (rule atm_buf_pieces_in_order) simp_all
  then show ?thesis by simp
qed

text \<open>
  Property C33. \<^verbatim>\<open>atm_buf_read_line\<close> takes exactly the first line off the stream, with all of
  the CR, LF and NUL bytes behind it, and returns its text as a C string; a stream without a
  line end is left as it is and gives NULL.
\<close>

theorem atm_buf_read_line_spec:
  assumes "wf_buf st" "length (buf_stream st) < 2 ^ 31"
  shows "if has_line (buf_stream st)
    then \<exists>n st'. atm_buf_read_line st = Inr (Some (line_of (buf_stream st) @ replicate (Suc n) 0), st')
      \<and> 0 \<notin> set (line_of (buf_stream st)) \<and> wf_buf st' \<and> buf_stream st' = after_line (buf_stream st)
    else atm_buf_read_line st = Inr (None, st)"
proof -
  have "0 \<notin> set (line_of (buf_stream st))" by (auto simp: line_of_def is_nl_def dest: set_takeWhileD)
  then show ?thesis using atm_buf_read_line_ok [OF assms] by auto
qed

theorem atm_buf_read_line_spec_witness:
  "\<exists>st n st'. buf_put (atm_buf_new, atm_blk_init) [103, 13, 10, 104] = Inr st
    \<and> atm_buf_read_line st = Inr (Some ([103] @ replicate (Suc n) 0), st') \<and> buf_stream st' = [104]"
proof -
  obtain st where st: "buf_put (atm_buf_new, atm_blk_init) [103, 13, 10, 104] = Inr st" "wf_buf st"
      "buf_stream st = [103, 13, 10, 104]"
    using bs.put_law [of "(atm_buf_new, atm_blk_init)" "[103, 13, 10, 104]"] by auto
  have "length (buf_stream st) < 2 ^ 31" using st(3) by simp
  from atm_buf_read_line_spec [OF st(2) this] show ?thesis
    using st by (auto simp: has_line_def line_of_def after_line_def is_nl_def)
qed


text \<open>A socket with all of its pending bytes there, and one that takes two bytes per call.\<close>

definition pend_read :: "u8 list sys_read" where
  "pend_read s n = (if s = [] then (-1, [], s) else (int (min n (length s)), take n s, drop n s))"

definition two_write :: "u8 list sys_write" where
  "two_write s bs = (int (length (take 2 bs)), s @ take 2 bs)"


end
