(* ===== verification/Atm_Dict.thy ===== *)
theory Atm_Dict
  imports Atm_List Atm_Util
begin

text \<open>
  \<^verbatim>\<open>src/core/atm_dict.c\<close>: the hash table with two bucket tables and incremental rehashing. A
  bucket slot is NULL, a bucket (its list of entries) or a pointer to a freed bucket, which
  \<^verbatim>\<open>atm_dict_table_clear\<close> leaves behind; entries are values in the list nodes. The back
  pointers of entries, buckets and tables to the dictionary are the argument \<^verbatim>\<open>kt\<close> (its key
  type), an entry only records whether its \<^verbatim>\<open>dict\<close> field is set. Each operation under the lock
  is one step. The lemmas are proved once for every key type that keeps the contract
  \<^verbatim>\<open>key_type\<close>.
\<close>

section \<open>The data\<close>

definition ATM_DICT_INITIAL_BUCKET_SIZE :: u32 where "ATM_DICT_INITIAL_BUCKET_SIZE = 256"
definition force_resize_ratio :: u32 where "force_resize_ratio = 5"
definition rehash_loop_time :: nat where "rehash_loop_time = 1"

record ('k, 'v) dict_entry =
  de_dict :: bool
  de_key :: 'k
  de_val :: "'v option"

datatype ('k, 'v) bslot = Slot_null | Slot_bkt "('k, 'v) dict_entry atm_list" | Slot_freed

record ('k, 'v) dict_table =
  tb_bktab :: "('k, 'v) bslot list"
  tb_bktab_size :: u32
  tb_bktab_used :: u32
  tb_size :: u32

record ('k, 'v) atm_dict =
  d_free_type :: u32
  d_active :: "('k, 'v) dict_table"
  d_backup :: "('k, 'v) dict_table option"
  d_k_type :: "'k atm_T"
  d_v_type :: "'v atm_T option"
  d_enable_resize :: bool
  d_rehash_index :: u32

section \<open>Entries\<close>

definition atm_dict_entry_new :: "'k \<Rightarrow> 'v option \<Rightarrow> ('k, 'v) dict_entry" where
  "atm_dict_entry_new key val = \<lparr>de_dict = False, de_key = key, de_val = val\<rparr>"

definition atm_dict_entry_match ::
  "'k atm_T \<Rightarrow> ('k, 'v) dict_entry \<Rightarrow> ('k, 'v) dict_entry \<Rightarrow> bool res" where
  "atm_dict_entry_match kt e h =
     (if de_dict e then
        (case T_match kt of None \<Rightarrow> Inl Null_deref | Some m \<Rightarrow> m (de_key e) (de_key h))
      else Inl Null_deref)"

text \<open>The table of an entry; \<^verbatim>\<open>hash\<close> and \<^verbatim>\<open>str\<close> of an entry print its address and are not modelled.\<close>

definition ATM_DICT_ENTRY_T :: "'k atm_T \<Rightarrow> ('k, 'v) dict_entry atm_T" where
  "ATM_DICT_ENTRY_T kt = \<lparr>T_id = ''ATM_DICT_ENTRY_TYPE'', T_match = Some (atm_dict_entry_match kt),
     T_hash = None, T_compare = Some (\<lambda>_ _. Inr 0), T_str = None, T_free = True\<rparr>"

text \<open>The keys and the values that are handed to the free functions of their types.\<close>

definition atm_dict_entry_free ::
  "('k, 'v) atm_dict \<Rightarrow> ('k, 'v) dict_entry \<Rightarrow> 'k list \<times> 'v list" where
  "atm_dict_entry_free d e =
     (if de_dict e \<and> d_free_type d = ATM_FREE_DEEP then
        (if T_free (d_k_type d) then [de_key e] else [],
         case (de_val e, d_v_type d) of
           (Some v, Some t) \<Rightarrow> if T_free t then [v] else []
         | _ \<Rightarrow> [])
      else ([], []))"

section \<open>Buckets\<close>

definition atm_dict_bucket_new :: "'k atm_T \<Rightarrow> ('k, 'v) dict_entry atm_list" where
  "atm_dict_bucket_new kt = atm_list_new (Some (ATM_DICT_ENTRY_T kt)) ATM_FREE_SHALLOW"

definition atm_dict_hkey :: "'k atm_T \<Rightarrow> ('k, 'v) dict_table \<Rightarrow> 'k \<Rightarrow> u32 res" where
  "atm_dict_hkey kt t k =
     res_bind (of_some Null_deref (T_hash kt)) (\<lambda>h.
     res_bind (h k) (\<lambda>hash_key.
       if tb_bktab_size t = 0 then Inl Div_zero
       else Inr (ucast (hash_key mod ucast (tb_bktab_size t)))))"

definition slot_list :: "('k, 'v) bslot \<Rightarrow> ('k, 'v) dict_entry atm_list option res" where
  "slot_list s = (case s of Slot_null \<Rightarrow> Inr None | Slot_bkt l \<Rightarrow> Inr (Some l)
     | Slot_freed \<Rightarrow> Inl Bad_access)"

text \<open>The bucket of a key, with its index in the table.\<close>

definition atm_dict_bucket ::
  "'k atm_T \<Rightarrow> ('k, 'v) dict_table \<Rightarrow> 'k \<Rightarrow> (nat \<times> ('k, 'v) dict_entry atm_list option) res" where
  "atm_dict_bucket kt t key =
     res_bind (atm_dict_hkey kt t key) (\<lambda>i.
     res_bind (read_at (tb_bktab t) (unat i)) (\<lambda>s.
       res_map (Pair (unat i)) (slot_list s)))"

definition atm_dict_bucket_free :: "('k, 'v) bslot \<Rightarrow> ('k, 'v) bslot res" where
  "atm_dict_bucket_free s =
     (case s of Slot_null \<Rightarrow> Inr Slot_null
      | Slot_bkt l \<Rightarrow> if l_free_type l = ATM_FREE_SHALLOW
                     then res_map (\<lambda>_. Slot_freed) (atm_list_free l) else Inl (Exit ATM_ERROR)
      | Slot_freed \<Rightarrow> Inl Bad_access)"

text \<open>
  Searching: the pointer to the entry that is found is its place, the index of the bucket, the
  bucket and the address of the node.
\<close>

type_synonym ('k, 'v) entry_place = "nat \<times> ('k, 'v) dict_entry atm_list \<times> addr"

definition atm_dict_entry ::
  "'k atm_T \<Rightarrow> ('k, 'v) dict_table \<Rightarrow> 'k \<Rightarrow> ('k, 'v) entry_place option res" where
  "atm_dict_entry kt t key =
     res_bind (atm_dict_bucket kt t key) (\<lambda>(i, bkt).
       case bkt of None \<Rightarrow> Inr None
       | Some l \<Rightarrow> res_map (map_option (\<lambda>a. (i, l, a)))
           (atm_list_find_entry l (atm_dict_entry_new key None)))"

section \<open>Tables\<close>

text \<open>
  \<^verbatim>\<open>atm_alloc(sizeof(atm_dict_bucket_t *)*bsz)\<close>: the product is truncated to 32 bits, and the
  table has as many slots as fit in it.
\<close>

definition atm_dict_table_new :: "u32 \<Rightarrow> ('k, 'v) dict_table" where
  "atm_dict_table_new bsz =
     \<lparr>tb_bktab = replicate (unat (8 * bsz) div 8) Slot_null, tb_bktab_size = bsz,
      tb_bktab_used = 0, tb_size = 0\<rparr>"

definition atm_dict_table_contains :: "'k atm_T \<Rightarrow> ('k, 'v) dict_table option \<Rightarrow> 'k \<Rightarrow> bool res" where
  "atm_dict_table_contains kt table key =
     (case table of None \<Rightarrow> Inr False
      | Some t \<Rightarrow> res_map (\<lambda>e. e \<noteq> None) (atm_dict_entry kt t key))"

definition atm_dict_table_get :: "'k atm_T \<Rightarrow> ('k, 'v) dict_table option \<Rightarrow> 'k \<Rightarrow> 'v option res" where
  "atm_dict_table_get kt table key =
     (case table of None \<Rightarrow> Inr None
      | Some t \<Rightarrow>
          res_bind (atm_dict_entry kt t key) (\<lambda>e.
            case e of None \<Rightarrow> Inr None
            | Some (i, l, a) \<Rightarrow> res_map (\<lambda>x. de_val (le_val x)) (get_ent l a)))"

definition atm_dict_table_push_entry ::
  "'k atm_T \<Rightarrow> ('k, 'v) dict_table \<Rightarrow> ('k, 'v) dict_entry \<Rightarrow> ('k, 'v) dict_table res" where
  "atm_dict_table_push_entry kt t e =
     res_bind (atm_dict_bucket kt t (de_key e)) (\<lambda>(i, bkt).
     let l = (case bkt of None \<Rightarrow> atm_dict_bucket_new kt | Some l \<Rightarrow> l);
         used = (if bkt = None then tb_bktab_used t + 1 else tb_bktab_used t)
     in res_bind (atm_list_push l e) (\<lambda>l.
        res_map (\<lambda>tab. t\<lparr>tb_bktab := tab, tb_bktab_used := used, tb_size := tb_size t + 1\<rparr>)
          (write_at (tb_bktab t) i (Slot_bkt l))))"

definition atm_dict_table_set ::
  "'k atm_T \<Rightarrow> ('k, 'v) dict_table \<Rightarrow> 'k \<Rightarrow> 'v option \<Rightarrow> ('k, 'v) dict_table res" where
  "atm_dict_table_set kt t key val =
     res_bind (atm_dict_entry kt t key) (\<lambda>e.
       case e of
         Some (i, l, a) \<Rightarrow>
           res_bind (get_ent l a) (\<lambda>x.
           res_bind (list_poke l a ((le_val x)\<lparr>de_val := val\<rparr>)) (\<lambda>l.
           res_map (\<lambda>tab. t\<lparr>tb_bktab := tab\<rparr>) (write_at (tb_bktab t) i (Slot_bkt l))))
       | None \<Rightarrow>
           atm_dict_table_push_entry kt t ((atm_dict_entry_new key val)\<lparr>de_dict := True\<rparr>))"

text \<open>Returns whether an entry was there, and the entry that was unlinked and freed.\<close>

definition atm_dict_table_del ::
  "'k atm_T \<Rightarrow> ('k, 'v) dict_table \<Rightarrow> 'k \<Rightarrow> (('k, 'v) dict_entry option \<times> ('k, 'v) dict_table) res" where
  "atm_dict_table_del kt t key =
     res_bind (atm_dict_entry kt t key) (\<lambda>e.
       case e of None \<Rightarrow> Inr (None, t)
       | Some (i, l, a) \<Rightarrow>
           res_bind (get_ent l a) (\<lambda>x.
           res_bind (atm_list_del l (le_val x)) (\<lambda>(_, l).
           res_map (\<lambda>tab. (Some (le_val x), t\<lparr>tb_bktab := tab, tb_size := tb_size t - 1\<rparr>))
             (write_at (tb_bktab t) i (Slot_bkt l)))))"

fun free_slots :: "('k, 'v) bslot list \<Rightarrow> ('k, 'v) bslot list res" where
  "free_slots [] = Inr []"
| "free_slots (s # ss) =
     res_bind (atm_dict_bucket_free s) (\<lambda>s. res_map ((#) s) (free_slots ss))"

text \<open>
  \<^verbatim>\<open>memset(table->bktab, 0, table->bktab_size)\<close> takes the number of slots for the number of
  bytes: only one slot in eight is set to NULL.
\<close>

definition clear_memset :: "u32 \<Rightarrow> ('k, 'v) bslot list \<Rightarrow> ('k, 'v) bslot list" where
  "clear_memset n tab =
     replicate (min (unat n div 8) (length tab)) Slot_null @ drop (unat n div 8) tab"

definition atm_dict_table_clear :: "('k, 'v) dict_table \<Rightarrow> ('k, 'v) dict_table res" where
  "atm_dict_table_clear t =
     res_bind (mem_read (tb_bktab t) 0 (unat (tb_bktab_size t))) (\<lambda>slots.
     res_map (\<lambda>slots. t\<lparr>tb_bktab := clear_memset (tb_bktab_size t) slots,
                        tb_bktab_used := 0, tb_size := 0\<rparr>)
       (free_slots slots))"

definition atm_dict_table_free :: "('k, 'v) dict_table option \<Rightarrow> unit res" where
  "atm_dict_table_free table =
     (case table of None \<Rightarrow> Inr () | Some t \<Rightarrow> res_map (\<lambda>_. ()) (atm_dict_table_clear t))"

section \<open>Rehashing\<close>

definition atm_dict_rehash_needed :: "('k, 'v) atm_dict \<Rightarrow> bool res" where
  "atm_dict_rehash_needed d =
     (let t = d_active d in
      if d_backup d \<noteq> None then Inr True
      else if d_enable_resize d then Inr (tb_size t \<ge> tb_bktab_size t)
      else if tb_bktab_size t = 0 then Inl Div_zero
      else Inr (tb_size t div tb_bktab_size t \<ge> force_resize_ratio))"

text \<open>The inner loop: every entry of a bucket moves to the backup table. The fuel is the
  number of addresses the bucket has given, which the length of the list does not exceed.\<close>

fun move_entries ::
  "'k atm_T \<Rightarrow> nat \<Rightarrow> ('k, 'v) dict_entry atm_list \<Rightarrow> u32 \<Rightarrow> ('k, 'v) dict_table \<Rightarrow>
   (('k, 'v) dict_entry atm_list \<times> u32 \<times> ('k, 'v) dict_table) res" where
  "move_entries kt 0 l sz b = Inl No_return"
| "move_entries kt (Suc n) l sz b =
     res_bind (atm_list_lpop l) (\<lambda>(e, l).
       case e of None \<Rightarrow> Inr (l, sz, b)
       | Some e \<Rightarrow>
           res_bind (atm_dict_table_push_entry kt b e) (\<lambda>b. move_entries kt n l (sz - 1) b))"

text \<open>One round of the loop over the buckets: \<^verbatim>\<open>False\<close> for a \<^verbatim>\<open>break\<close>.\<close>

definition rehash_round ::
  "'k atm_T \<Rightarrow> ('k, 'v) dict_table \<Rightarrow> ('k, 'v) dict_table \<Rightarrow> u32 \<Rightarrow>
   (bool \<times> ('k, 'v) dict_table \<times> ('k, 'v) dict_table \<times> u32) res" where
  "rehash_round kt t b i =
     (if i = tb_bktab_size t then Inr (False, t, b, i)
      else if tb_bktab_used t = 0 then
        (if tb_size t \<noteq> 0 then Inl (Exit ATM_ERROR) else Inr (False, t, b, i))
      else if tb_size t = 0 then
        (if tb_bktab_size t \<noteq> 0 then Inl (Exit ATM_ERROR) else Inr (False, t, b, i))
      else
        res_bind (read_at (tb_bktab t) (unat i)) (\<lambda>s.
        res_bind (slot_list s) (\<lambda>bkt.
          case bkt of None \<Rightarrow> Inr (True, t, b, i + 1)
          | Some l \<Rightarrow>
              res_bind (move_entries kt (Suc (l_brk l)) l (tb_size t) b) (\<lambda>(l, sz, b).
              res_map (\<lambda>tab. (True, t\<lparr>tb_bktab := tab, tb_size := sz,
                  tb_bktab_used := tb_bktab_used t - 1\<rparr>, b, i + 1))
                (write_at (tb_bktab t) (unat i) (Slot_bkt l))))))"

fun rehash_rounds ::
  "nat \<Rightarrow> 'k atm_T \<Rightarrow> ('k, 'v) dict_table \<Rightarrow> ('k, 'v) dict_table \<Rightarrow> u32 \<Rightarrow>
   (('k, 'v) dict_table \<times> ('k, 'v) dict_table \<times> u32) res" where
  "rehash_rounds 0 kt t b i = Inr (t, b, i)"
| "rehash_rounds (Suc n) kt t b i =
     res_bind (rehash_round kt t b i) (\<lambda>(go, t, b, i).
       if go then rehash_rounds n kt t b i else Inr (t, b, i))"

definition rehash_start :: "('k, 'v) atm_dict \<Rightarrow> ('k, 'v) dict_table res" where
  "rehash_start d =
     (case d_backup d of Some b \<Rightarrow> Inr b
      | None \<Rightarrow>
          if d_rehash_index d \<noteq> 0 then Inl (Exit ATM_ERROR)
          else (case atm_util_next_power (tb_size (d_active d) * 2) of
                  None \<Rightarrow> Inl No_return
                | Some bsz \<Rightarrow> Inr (atm_dict_table_new bsz)))"

text \<open>\<open>dict->ht_active = dict->ht_backup\<close> when the active table has run empty.\<close>

definition rehash_finish ::
  "('k, 'v) atm_dict \<Rightarrow> ('k, 'v) dict_table \<Rightarrow> ('k, 'v) dict_table \<Rightarrow> u32 \<Rightarrow> ('k, 'v) atm_dict res" where
  "rehash_finish d t b i =
     (if tb_size t = 0 then
        if i > tb_bktab_size t then Inl (Exit ATM_ERROR)
        else if tb_bktab_used t \<noteq> 0 then Inl (Exit ATM_ERROR)
        else res_map (\<lambda>_. d\<lparr>d_active := b, d_backup := None, d_rehash_index := 0\<rparr>)
               (atm_dict_table_free (Some t))
      else Inr (d\<lparr>d_active := t, d_backup := Some b, d_rehash_index := i\<rparr>))"

definition atm_dict_rehash :: "('k, 'v) atm_dict \<Rightarrow> ('k, 'v) atm_dict res" where
  "atm_dict_rehash d =
     res_bind (atm_dict_rehash_needed d) (\<lambda>needed.
       if \<not> needed then Inr d
       else
         res_bind (rehash_start d) (\<lambda>b.
           if d_rehash_index d < tb_bktab_size (d_active d) then
             res_bind (rehash_rounds rehash_loop_time (d_k_type d) (d_active d) b (d_rehash_index d))
               (\<lambda>(t, b, i). rehash_finish d t b i)
           else Inl (Exit ATM_ERROR)))"

section \<open>The dictionary\<close>

definition atm_dict_new :: "'k atm_T \<Rightarrow> 'v atm_T option \<Rightarrow> u32 \<Rightarrow> ('k, 'v) atm_dict" where
  "atm_dict_new k_type v_type f_type =
     \<lparr>d_free_type = f_type, d_active = atm_dict_table_new ATM_DICT_INITIAL_BUCKET_SIZE,
      d_backup = None, d_k_type = k_type, d_v_type = v_type, d_enable_resize = True,
      d_rehash_index = 0\<rparr>"

definition atm_dict_get_size :: "('k, 'v) atm_dict \<Rightarrow> u32" where
  "atm_dict_get_size d =
     tb_size (d_active d) + (case d_backup d of None \<Rightarrow> 0 | Some t \<Rightarrow> tb_size t)"

definition atm_dict_size :: "('k, 'v) atm_dict \<Rightarrow> u32" where
  "atm_dict_size d = atm_dict_get_size d"

text \<open>The numbers that \<^verbatim>\<open>atm_dict_str\<close> formats: it reads them through \<^verbatim>\<open>ht_backup\<close> too.\<close>

definition atm_dict_str :: "('k, 'v) atm_dict \<Rightarrow> (u32 \<times> u32 \<times> u32 \<times> u32) res" where
  "atm_dict_str d =
     res_map (\<lambda>b. (d_free_type d, tb_bktab_size (d_active d), tb_bktab_size b, atm_dict_get_size d))
       (of_some Null_deref (d_backup d))"

definition atm_dict_contains :: "('k, 'v) atm_dict \<Rightarrow> 'k \<Rightarrow> bool res" where
  "atm_dict_contains d key =
     res_bind (atm_dict_table_contains (d_k_type d) (Some (d_active d)) key) (\<lambda>res.
       if res then Inr True else atm_dict_table_contains (d_k_type d) (d_backup d) key)"

definition atm_dict_get :: "('k, 'v) atm_dict \<Rightarrow> 'k \<Rightarrow> 'v option res" where
  "atm_dict_get d key =
     res_bind (atm_dict_table_get (d_k_type d) (Some (d_active d)) key) (\<lambda>res.
       case res of Some v \<Rightarrow> Inr (Some v)
       | None \<Rightarrow> atm_dict_table_get (d_k_type d) (d_backup d) key)"

definition atm_dict_set :: "('k, 'v) atm_dict \<Rightarrow> 'k \<Rightarrow> 'v option \<Rightarrow> ('k, 'v) atm_dict res" where
  "atm_dict_set d key val =
     res_bind
       (case d_backup d of
          Some b \<Rightarrow> res_map (\<lambda>b. d\<lparr>d_backup := Some b\<rparr>) (atm_dict_table_set (d_k_type d) b key val)
        | None \<Rightarrow> res_map (\<lambda>t. d\<lparr>d_active := t\<rparr>) (atm_dict_table_set (d_k_type d) (d_active d) key val))
       atm_dict_rehash"

text \<open>Returns the keys and values freed with the entry.\<close>

definition atm_dict_del :: "('k, 'v) atm_dict \<Rightarrow> 'k \<Rightarrow> (('k list \<times> 'v list) \<times> ('k, 'v) atm_dict) res" where
  "atm_dict_del d key =
     res_bind (atm_dict_table_del (d_k_type d) (d_active d) key) (\<lambda>(e, t).
     res_bind
       (case e of
          Some e \<Rightarrow> Inr (Some e, d\<lparr>d_active := t\<rparr>)
        | None \<Rightarrow>
            (case d_backup d of
               None \<Rightarrow> Inr (None, d\<lparr>d_active := t\<rparr>)
             | Some b \<Rightarrow>
                 res_map (\<lambda>(e, b). (e, d\<lparr>d_active := t, d_backup := Some b\<rparr>))
                   (atm_dict_table_del (d_k_type d) b key)))
       (\<lambda>(e, d').
          res_map (Pair (case e of None \<Rightarrow> ([], []) | Some e \<Rightarrow> atm_dict_entry_free d e))
            (atm_dict_rehash d')))"

definition atm_dict_clear :: "('k, 'v) atm_dict \<Rightarrow> ('k, 'v) atm_dict res" where
  "atm_dict_clear d =
     res_bind (atm_dict_table_clear (d_active d)) (\<lambda>t.
     res_bind (case d_backup d of None \<Rightarrow> Inr None
               | Some b \<Rightarrow> res_map Some (atm_dict_table_clear b)) (\<lambda>b.
     res_map (\<lambda>_. d\<lparr>d_active := t, d_backup := None, d_rehash_index := 0\<rparr>)
       (atm_dict_table_free b)))"

definition atm_dict_free :: "('k, 'v) atm_dict \<Rightarrow> unit res" where
  "atm_dict_free d =
     res_bind (atm_dict_table_free (Some (d_active d))) (\<lambda>_. atm_dict_table_free (d_backup d))"

definition atm_dict_resize_enable :: "('k, 'v) atm_dict \<Rightarrow> ('k, 'v) atm_dict" where
  "atm_dict_resize_enable d = d\<lparr>d_enable_resize := True\<rparr>"

definition atm_dict_resize_disable :: "('k, 'v) atm_dict \<Rightarrow> ('k, 'v) atm_dict" where
  "atm_dict_resize_disable d = d\<lparr>d_enable_resize := False\<rparr>"

end
