(* ===== verification/Atm_Dict_Table.thy ===== *)
theory Atm_Dict_Table
  imports Atm_Dict
begin

text \<open>
  The bucket tables of \<^verbatim>\<open>src/core/atm_dict.c\<close>: their invariant, and what searching, storing,
  pushing, deleting and moving the entries of a bucket do, for every key type of the
  contract. \<^verbatim>\<open>tb_find\<close> is the abstraction, the first entry with a given identity in the slot
  that its hash selects; every operation is described by the update of \<^verbatim>\<open>tb_find\<close>.
\<close>

section \<open>The abstraction and the invariant\<close>

definition slot_vals :: "('k, 'v) bslot \<Rightarrow> ('k, 'v) dict_entry list" where
  "slot_vals s = (case s of Slot_bkt l \<Rightarrow> list_vals l | _ \<Rightarrow> [])"

definition tb_slots :: "('k, 'v) dict_table \<Rightarrow> nat" where
  "tb_slots t = unat (tb_bktab_size t)"

definition tb_slot :: "('k, 'v) dict_table \<Rightarrow> nat \<Rightarrow> ('k, 'v) dict_entry list" where
  "tb_slot t j = slot_vals (tb_bktab t ! j)"

definition tb_idx :: "('i \<Rightarrow> u64) \<Rightarrow> ('k, 'v) dict_table \<Rightarrow> 'i \<Rightarrow> nat" where
  "tb_idx kh t i = unat (kh i) mod tb_slots t"

definition has_id :: "('k \<Rightarrow> 'i) \<Rightarrow> 'i \<Rightarrow> ('k, 'v) dict_entry \<Rightarrow> bool" where
  "has_id kid i e \<longleftrightarrow> kid (de_key e) = i"

definition tb_find :: "('k \<Rightarrow> 'i) \<Rightarrow> ('i \<Rightarrow> u64) \<Rightarrow> ('k, 'v) dict_table \<Rightarrow> 'i \<Rightarrow> ('k, 'v) dict_entry option" where
  "tb_find kid kh t i = List.find (has_id kid i) (tb_slot t (tb_idx kh t i))"

definition tb_n :: "('k, 'v) dict_table \<Rightarrow> nat" where
  "tb_n t = (\<Sum>s\<leftarrow>tb_bktab t. length (slot_vals s))"

definition wf_slot :: "'k atm_T \<Rightarrow> ('k, 'v) bslot \<Rightarrow> bool" where
  "wf_slot kt s \<longleftrightarrow> (case s of Slot_null \<Rightarrow> True
     | Slot_bkt l \<Rightarrow> wf_list l \<and> list_type l = (ATM_FREE_SHALLOW, Some (ATM_DICT_ENTRY_T kt))
     | Slot_freed \<Rightarrow> False)"

definition wf_entry :: "('k \<Rightarrow> bool) \<Rightarrow> ('k, 'v) dict_entry \<Rightarrow> bool" where
  "wf_entry ok e \<longleftrightarrow> de_dict e \<and> ok (de_key e)"

definition wf_table ::
  "'k atm_T \<Rightarrow> ('k \<Rightarrow> bool) \<Rightarrow> ('k \<Rightarrow> 'i) \<Rightarrow> ('i \<Rightarrow> u64) \<Rightarrow> ('k, 'v) dict_table \<Rightarrow> bool" where
  "wf_table kt ok kid kh t \<longleftrightarrow> length (tb_bktab t) = tb_slots t \<and> 0 < tb_slots t
     \<and> (\<forall>j < tb_slots t. wf_slot kt (tb_bktab t ! j)
         \<and> (\<forall>e \<in> set (tb_slot t j). wf_entry ok e \<and> tb_idx kh t (kid (de_key e)) = j))
     \<and> tb_size t = of_nat (tb_n t)"

text \<open>No identity twice in a table; the buckets from \<^verbatim>\<open>m\<close> on are counted, and not empty.\<close>

definition tb_uniq :: "('k \<Rightarrow> 'i) \<Rightarrow> ('k, 'v) dict_table \<Rightarrow> bool" where
  "tb_uniq kid t \<longleftrightarrow> (\<forall>j < tb_slots t. distinct (map (kid \<circ> de_key) (tb_slot t j)))"

definition tb_nonnull :: "('k, 'v) dict_table \<Rightarrow> nat \<Rightarrow> nat set" where
  "tb_nonnull t m = {j. m \<le> j \<and> j < tb_slots t \<and> tb_bktab t ! j \<noteq> Slot_null}"

definition tb_used_ok :: "('k, 'v) dict_table \<Rightarrow> nat \<Rightarrow> bool" where
  "tb_used_ok t m \<longleftrightarrow> tb_bktab_used t = of_nat (card (tb_nonnull t m))"

definition tb_full :: "('k, 'v) dict_table \<Rightarrow> nat \<Rightarrow> bool" where
  "tb_full t m \<longleftrightarrow> (\<forall>j \<in> tb_nonnull t m. tb_slot t j \<noteq> [])"

lemma tb_nonnull_finite [simp]: "finite (tb_nonnull t m)"
  by (rule finite_subset [of _ "{..<tb_slots t}"]) (auto simp: tb_nonnull_def)

lemma tb_nonnull_card: "card (tb_nonnull t m) < 2 ^ 32"
proof -
  have "card (tb_nonnull t m) \<le> card {..<tb_slots t}"
    by (rule card_mono) (auto simp: tb_nonnull_def)
  also have "\<dots> < 2 ^ 32" using unat_u32 [of "tb_bktab_size t"] by (simp add: tb_slots_def)
  finally show ?thesis .
qed

lemma tb_idx_lt: "0 < tb_slots t \<Longrightarrow> tb_idx kh t i < tb_slots t"
  by (simp add: tb_idx_def)

lemma find_append:
  "List.find P (us @ vs) = (case List.find P us of None \<Rightarrow> List.find P vs | Some x \<Rightarrow> Some x)"
  by (induction us) simp_all

text \<open>A table whose slot \<^verbatim>\<open>j\<close> holds a new bucket.\<close>

definition tb_upd :: "('k, 'v) dict_table \<Rightarrow> nat \<Rightarrow> ('k, 'v) dict_entry atm_list \<Rightarrow> u32 \<Rightarrow> u32 \<Rightarrow> ('k, 'v) dict_table" where
  "tb_upd t j l used sz =
     t\<lparr>tb_bktab := (tb_bktab t)[j := Slot_bkt l], tb_bktab_used := used, tb_size := sz\<rparr>"

lemma tb_upd_fields [simp]:
  "tb_bktab_size (tb_upd t j l u s) = tb_bktab_size t" "tb_slots (tb_upd t j l u s) = tb_slots t"
  "tb_size (tb_upd t j l u s) = s" "tb_bktab_used (tb_upd t j l u s) = u"
  "tb_idx kh (tb_upd t j l u s) i = tb_idx kh t i"
  "length (tb_bktab (tb_upd t j l u s)) = length (tb_bktab t)"
  by (simp_all add: tb_upd_def tb_slots_def tb_idx_def)

lemma tb_upd_slot:
  "j < length (tb_bktab t) \<Longrightarrow>
   tb_slot (tb_upd t j l u s) j' = (if j' = j then list_vals l else tb_slot t j')"
  by (simp add: tb_slot_def tb_upd_def nth_list_update slot_vals_def)

lemma tb_upd_find:
  "j < length (tb_bktab t) \<Longrightarrow> tb_find kid kh (tb_upd t j l u s) i =
    (if tb_idx kh t i = j then List.find (has_id kid i) (list_vals l) else tb_find kid kh t i)"
  by (simp add: tb_find_def tb_upd_slot)

lemma tb_upd_snoc_find:
  assumes "j < length (tb_bktab t)" "list_vals l = tb_slot t j @ [e]" "j = tb_idx kh t (kid (de_key e))"
  shows "tb_find kid kh (tb_upd t j l u s) i = (case tb_find kid kh t i of Some x \<Rightarrow> Some x
      | None \<Rightarrow> if kid (de_key e) = i then Some e else None)"
proof (cases "tb_idx kh t i = j")
  case True
  have "tb_find kid kh t i = List.find (has_id kid i) (tb_slot t j)" using True by (simp add: tb_find_def)
  then show ?thesis unfolding tb_upd_find [OF assms(1)] using True assms(2)
    by (simp add: find_append has_id_def split: option.split)
next
  case False
  then have "kid (de_key e) \<noteq> i" using assms(3) by auto
  then show ?thesis unfolding tb_upd_find [OF assms(1)] using False by (simp split: option.split)
qed

lemma tb_upd_n:
  assumes "j < length (tb_bktab t)"
  shows "tb_n (tb_upd t j l u s) + length (tb_slot t j) = tb_n t + length (list_vals l)"
  using sum_list_update_nat [OF assms, of "\<lambda>s. length (slot_vals s)" "Slot_bkt l"]
  by (simp add: tb_n_def tb_upd_def tb_slot_def slot_vals_def)

lemma tb_upd_nonnull:
  assumes "j < length (tb_bktab t)" "length (tb_bktab t) = tb_slots t"
  shows "tb_nonnull (tb_upd t j l u s) m = (if m \<le> j then insert j (tb_nonnull t m) else tb_nonnull t m)"
  using assms by (auto simp: tb_nonnull_def tb_upd_def nth_list_update tb_slots_def)

lemma tb_upd_wf:
  assumes wf: "wf_table kt ok kid kh t" and j: "j < tb_slots t" and l: "wf_list l"
    and ty: "list_type l = (ATM_FREE_SHALLOW, Some (ATM_DICT_ENTRY_T kt))"
    and es: "\<forall>e \<in> set (list_vals l). wf_entry ok e \<and> tb_idx kh t (kid (de_key e)) = j"
    and sz: "s + of_nat (length (tb_slot t j)) = tb_size t + of_nat (length (list_vals l))"
  shows "wf_table kt ok kid kh (tb_upd t j l u s)"
proof -
  have j': "j < length (tb_bktab t)" using wf j by (simp add: wf_table_def)
  have "s + of_nat (length (tb_slot t j)) = of_nat (tb_n t + length (list_vals l))"
    using sz wf by (simp add: wf_table_def)
  also have "\<dots> = of_nat (tb_n (tb_upd t j l u s)) + of_nat (length (tb_slot t j))"
    using tb_upd_n [OF j', of l u s] by (metis of_nat_add)
  finally have "s = of_nat (tb_n (tb_upd t j l u s))" by simp
  moreover have "wf_slot kt (tb_bktab (tb_upd t j l u s) ! j')" if "j' < tb_slots t" for j'
    using wf that j l ty by (cases "j' = j") (auto simp: wf_table_def tb_upd_def wf_slot_def nth_list_update)
  ultimately show ?thesis
    using wf es tb_upd_slot [OF j', of l u s] unfolding wf_table_def by auto
qed

lemma tb_used_upd:
  assumes "tb_used_ok t m" "m \<le> j" "j < tb_slots t" "length (tb_bktab t) = tb_slots t"
    "u = (if tb_bktab t ! j = Slot_null then tb_bktab_used t + 1 else tb_bktab_used t)"
  shows "tb_used_ok (tb_upd t j l u s) m"
proof -
  have "j \<in> tb_nonnull t m \<longleftrightarrow> tb_bktab t ! j \<noteq> Slot_null"
    using assms(2,3) by (simp add: tb_nonnull_def)
  then show ?thesis
    using assms tb_upd_nonnull [of j t l u s m]
    by (cases "tb_bktab t ! j = Slot_null") (simp_all add: tb_used_ok_def insert_absorb add.commute)
qed

lemma tb_full_upd:
  assumes "tb_full t m" "j < tb_slots t" "length (tb_bktab t) = tb_slots t" "list_vals l \<noteq> []"
  shows "tb_full (tb_upd t j l u s) m"
  using assms tb_upd_nonnull [of j t l u s m] tb_upd_slot [of j t l u s]
  by (auto simp: tb_full_def)

lemma wf_table_new:
  fixes t :: "('k, 'v) dict_table"
  assumes t: "t = atm_dict_table_new bsz" and bsz: "0 < unat bsz" "unat bsz < 2 ^ 29"
  shows "wf_table kt ok kid kh t" "tb_slots t = unat bsz"
    "tb_used_ok t 0" "tb_full t 0"
    "tb_uniq kid t" "tb_find kid kh t i = None"
    "tb_n t = 0"
proof -
  have s: "unat (8 * bsz) div 8 = unat bsz" using bsz(2) by (simp add: unat_word_ariths)
  have sl: "tb_slot t j = []" if "j < unat bsz" for j
    using that s by (simp add: tb_slot_def t atm_dict_table_new_def slot_vals_def)
  have nn: "tb_nonnull t 0 = {}"
    by (auto simp: tb_nonnull_def t atm_dict_table_new_def tb_slots_def s)
  show n: "tb_n t = 0"
    by (simp add: tb_n_def t atm_dict_table_new_def slot_vals_def map_replicate_const sum_list_replicate)
  show sz: "tb_slots t = unat bsz"
    by (simp add: tb_slots_def t atm_dict_table_new_def)
  show "wf_table kt ok kid kh t"
  proof -
    have "tb_bktab t = replicate (unat bsz) Slot_null"
      "tb_size t = 0"
      by (simp_all add: t atm_dict_table_new_def s)
    then show ?thesis using bsz(1) sl n sz unfolding wf_table_def by (auto simp: wf_slot_def)
  qed
  show "tb_used_ok t 0" "tb_full t 0"
    using nn by (simp_all add: tb_used_ok_def tb_full_def t atm_dict_table_new_def)
  show "tb_uniq kid t" using sl sz by (simp add: tb_uniq_def)
  show "tb_find kid kh t i = None"
    using sl tb_idx_lt [of t kh i] sz bsz(1) by (simp add: tb_find_def)
qed

section \<open>The operations of a table\<close>

lemma find_del_first:
  assumes "distinct (map f xs)" "List.find (\<lambda>x. f x = a) xs = Some y"
  shows "List.find (\<lambda>x. f x = b) (del_first (\<lambda>x. f x = a) xs) =
      (if b = a then None else List.find (\<lambda>x. f x = b) xs)"
    and "distinct (map f (del_first (\<lambda>x. f x = a) xs))"
    and "set (del_first (\<lambda>x. f x = a) xs) \<subseteq> set xs"
    and "length (del_first (\<lambda>x. f x = a) xs) + 1 = length xs"
proof -
  obtain ys zs where xs: "xs = ys @ y # zs" "f y = a" "\<forall>x \<in> set ys. f x \<noteq> a"
    using find_Some_split [OF assms(2)] by blast
  have d: "del_first (\<lambda>x. f x = a) xs = ys @ zs"
    unfolding xs(1) by (rule find_split_first(2)) (use xs in auto)
  have "a \<notin> f ` set zs" using assms(1) xs(2) unfolding xs(1) by simp
  then have na: "\<forall>x \<in> set zs. f x \<noteq> a" by blast
  show "List.find (\<lambda>x. f x = b) (del_first (\<lambda>x. f x = a) xs) =
      (if b = a then None else List.find (\<lambda>x. f x = b) xs)"
  proof (cases "b = a")
    case True
    have "List.find (\<lambda>x. f x = a) (ys @ zs) = None" using xs(3) na by (auto simp: find_None_iff)
    then show ?thesis using True by (simp add: d)
  next
    case False
    then have "List.find (\<lambda>x. f x = b) (ys @ zs) = List.find (\<lambda>x. f x = b) (ys @ y # zs)"
      using xs(2) by (simp add: find_append split: option.split)
    then show ?thesis unfolding d using False by (simp only: xs(1) if_False)
  qed
  have ds: "distinct (map f (ys @ zs))" using assms(1) unfolding xs(1) by auto
  show "distinct (map f (del_first (\<lambda>x. f x = a) xs))" unfolding d by (rule ds)
  show "set (del_first (\<lambda>x. f x = a) xs) \<subseteq> set xs" unfolding d by (auto simp: xs(1))
  show "length (del_first (\<lambda>x. f x = a) xs) + 1 = length xs" unfolding d by (simp add: xs(1))
qed

lemma ucast_mod_u32:
  assumes "n \<noteq> (0 :: u32)"
  shows "unat (ucast (h mod ucast n :: u64) :: u32) = unat h mod unat n"
proof -
  have "unat (ucast n :: u64) = unat n" by (simp add: unsigned_ucast_eq take_bit_nat_eq_self unat_u32 order_less_trans [OF unat_u32])
  then have m: "unat (h mod ucast n :: u64) = unat h mod unat n" by (simp add: unat_mod)
  have "0 < unat n" using assms by (simp add: unat_gt_0)
  then have "unat h mod unat n < 2 ^ 32" using unat_u32 [of n] mod_less_divisor [of "unat n" "unat h"] by linarith
  then show ?thesis using m by (simp add: unsigned_ucast_eq take_bit_nat_eq_self)
qed

context key_type
begin

lemma hkey_ok:
  assumes "wf_table kt ok kid kh t" "ok k"
  shows "\<exists>i. atm_dict_hkey kt t k = Inr i \<and> unat i = tb_idx kh t (kid k)"
proof -
  obtain h where h: "T_hash kt = Some h" "h k = Inr (kh (kid k))" using hash_ok [OF assms(2)] by blast
  have "tb_bktab_size t \<noteq> 0" using assms(1) by (auto simp: wf_table_def tb_slots_def)
  then show ?thesis using h ucast_mod_u32 by (auto simp: atm_dict_hkey_def tb_idx_def tb_slots_def)
qed

lemma bucket_ok:
  assumes "wf_table kt ok kid kh t" "ok k"
  defines "j \<equiv> tb_idx kh t (kid k)"
  shows "j < tb_slots t" "length (tb_bktab t) = tb_slots t"
    "(tb_bktab t ! j = Slot_null \<and> atm_dict_bucket kt t k = Inr (j, None) \<and> tb_slot t j = [])
     \<or> (\<exists>l. tb_bktab t ! j = Slot_bkt l \<and> atm_dict_bucket kt t k = Inr (j, Some l) \<and> wf_list l
         \<and> list_type l = (ATM_FREE_SHALLOW, Some (ATM_DICT_ENTRY_T kt)) \<and> tb_slot t j = list_vals l)"
proof -
  show j: "j < tb_slots t" using assms(1) unfolding j_def by (intro tb_idx_lt) (simp add: wf_table_def)
  show len: "length (tb_bktab t) = tb_slots t" using assms(1) by (simp add: wf_table_def)
  obtain i where i: "atm_dict_hkey kt t k = Inr i" "unat i = j" using hkey_ok [OF assms(1,2)] j_def by blast
  have w: "wf_slot kt (tb_bktab t ! j)" using assms(1) j by (simp add: wf_table_def)
  show "(tb_bktab t ! j = Slot_null \<and> atm_dict_bucket kt t k = Inr (j, None) \<and> tb_slot t j = [])
     \<or> (\<exists>l. tb_bktab t ! j = Slot_bkt l \<and> atm_dict_bucket kt t k = Inr (j, Some l) \<and> wf_list l
         \<and> list_type l = (ATM_FREE_SHALLOW, Some (ATM_DICT_ENTRY_T kt)) \<and> tb_slot t j = list_vals l)"
    using i j len w
    by (cases "tb_bktab t ! j")
       (simp_all add: atm_dict_bucket_def slot_list_def wf_slot_def tb_slot_def slot_vals_def)
qed

lemma slot_entries:
  "wf_table kt ok kid kh t \<Longrightarrow> j < tb_slots t \<Longrightarrow> e \<in> set (tb_slot t j) \<Longrightarrow>
   wf_entry ok e \<and> tb_idx kh t (kid (de_key e)) = j"
  by (simp add: wf_table_def)

text \<open>Matching in a bucket is equality of the identities.\<close>

lemma bucket_matches:
  assumes "\<forall>e \<in> set (list_vals l). wf_entry ok e" "ok (de_key h)"
    "list_type l = (ATM_FREE_SHALLOW, Some (ATM_DICT_ENTRY_T kt))"
  shows "list_matches l h (has_id kid (kid (de_key h)))"
  unfolding list_matches_def
proof
  fix e assume "e \<in> set (list_vals l)"
  then have e: "de_dict e" "ok (de_key e)" using assms(1) by (auto simp: wf_entry_def)
  obtain m where "T_match kt = Some m" "m (de_key e) (de_key h) = Inr (kid (de_key e) = kid (de_key h))"
    using match_ok [OF e(2) assms(2)] by blast
  then show "list_match l e h = Inr (has_id kid (kid (de_key h)) e)"
    using e(1) assms(3)
    by (simp add: list_match_def list_type_def ATM_DICT_ENTRY_T_def atm_dict_entry_match_def has_id_def)
qed

text \<open>Searching gives the place of the first entry with the identity of the key.\<close>

lemma entry_ok:
  assumes wf: "wf_table kt ok kid kh t" and k: "ok k"
  defines "j \<equiv> tb_idx kh t (kid k)"
  shows "(tb_find kid kh t (kid k) = None \<and> atm_dict_entry kt t k = Inr None)
    \<or> (\<exists>l ps a e qs. tb_bktab t ! j = Slot_bkt l \<and> list_rep l (ps @ (a, e) # qs)
        \<and> has_id kid (kid k) e \<and> (\<forall>y \<in> set (map snd ps). \<not> has_id kid (kid k) y)
        \<and> tb_slot t j = map snd ps @ e # map snd qs
        \<and> tb_find kid kh t (kid k) = Some e \<and> atm_dict_entry kt t k = Inr (Some (j, l, a)))"
  using bucket_ok(3) [OF wf k]
proof (elim disjE exE conjE)
  assume "atm_dict_bucket kt t k = Inr (tb_idx kh t (kid k), None)" "tb_slot t (tb_idx kh t (kid k)) = []"
  then show ?thesis by (simp add: atm_dict_entry_def tb_find_def)
next
  fix l assume l: "tb_bktab t ! tb_idx kh t (kid k) = Slot_bkt l"
    "atm_dict_bucket kt t k = Inr (tb_idx kh t (kid k), Some l)" "wf_list l"
    "list_type l = (ATM_FREE_SHALLOW, Some (ATM_DICT_ENTRY_T kt))"
    "tb_slot t (tb_idx kh t (kid k)) = list_vals l"
  have "\<forall>e \<in> set (list_vals l). wf_entry ok e"
    using slot_entries [OF wf bucket_ok(1) [OF wf k]] l(5) by simp
  then have m: "list_matches l (atm_dict_entry_new k None) (has_id kid (kid k))"
    using bucket_matches [of l "atm_dict_entry_new k None"] k l(4) by (simp add: atm_dict_entry_new_def)
  from find_entry_vals [OF l(3) m] show ?thesis
  proof (elim disjE exE conjE)
    assume "List.find (has_id kid (kid k)) (list_vals l) = None"
      "atm_list_find_entry l (atm_dict_entry_new k None) = Inr None"
    then show ?thesis using l by (simp add: atm_dict_entry_def tb_find_def)
  next
    fix ps a v qs
    assume "list_rep l (ps @ (a, v) # qs)" "has_id kid (kid k) v"
      "\<forall>y \<in> set (map snd ps). \<not> has_id kid (kid k) y" "list_vals l = map snd ps @ v # map snd qs"
      "List.find (has_id kid (kid k)) (list_vals l) = Some v"
      "atm_list_find_entry l (atm_dict_entry_new k None) = Inr (Some a)"
    then show ?thesis using l unfolding j_def
      by (intro disjI2 exI [of _ l] exI [of _ ps] exI [of _ a] exI [of _ v] exI [of _ qs])
         (simp add: atm_dict_entry_def tb_find_def)
  qed
qed

lemma table_get_ok:
  assumes "wf_table kt ok kid kh t" "ok k"
  shows "atm_dict_table_get kt (Some t) k = Inr (Option.bind (tb_find kid kh t (kid k)) de_val)"
    and "atm_dict_table_contains kt (Some t) k = Inr (tb_find kid kh t (kid k) \<noteq> None)"
  using entry_ok [OF assms]
  by (auto simp: atm_dict_table_get_def atm_dict_table_contains_def list_rep_get)

text \<open>Pushing an entry onto the bucket that its hash selects.\<close>

lemma push_entry_ok:
  assumes wf: "wf_table kt ok kid kh t" and e: "wf_entry ok e"
  defines "j \<equiv> tb_idx kh t (kid (de_key e))"
  shows "\<exists>l u. atm_dict_table_push_entry kt t e = Inr (tb_upd t j l u (tb_size t + 1))
    \<and> list_vals l = tb_slot t j @ [e]
    \<and> u = (if tb_bktab t ! j = Slot_null then tb_bktab_used t + 1 else tb_bktab_used t)
    \<and> wf_table kt ok kid kh (tb_upd t j l u (tb_size t + 1))"
proof -
  have k: "ok (de_key e)" using e by (simp add: wf_entry_def)
  note b = bucket_ok [OF wf k, folded j_def]
  obtain l0 where l0: "wf_list l0" "list_type l0 = (ATM_FREE_SHALLOW, Some (ATM_DICT_ENTRY_T kt))"
      "list_vals l0 = tb_slot t j"
      "(tb_bktab t ! j = Slot_null \<and> atm_dict_bucket kt t (de_key e) = Inr (j, None) \<and> l0 = atm_dict_bucket_new kt)
       \<or> (tb_bktab t ! j = Slot_bkt l0 \<and> atm_dict_bucket kt t (de_key e) = Inr (j, Some l0))"
    using b(3)
  proof (elim disjE exE conjE)
    assume "tb_bktab t ! j = Slot_null" "atm_dict_bucket kt t (de_key e) = Inr (j, None)" "tb_slot t j = []"
    then show ?thesis using that [of "atm_dict_bucket_new kt"] by (simp add: atm_dict_bucket_new_def)
  next
    fix l1 assume "tb_bktab t ! j = Slot_bkt l1" "atm_dict_bucket kt t (de_key e) = Inr (j, Some l1)"
      "wf_list l1" "list_type l1 = (ATM_FREE_SHALLOW, Some (ATM_DICT_ENTRY_T kt))" "tb_slot t j = list_vals l1"
    then show ?thesis by (intro that [of l1]) simp_all
  qed
  obtain l where l: "atm_list_push l0 e = Inr l" "wf_list l" "list_vals l = tb_slot t j @ [e]"
      "list_type l = (ATM_FREE_SHALLOW, Some (ATM_DICT_ENTRY_T kt))"
    using atm_list_push_vals [OF l0(1), of e] l0(2,3) by auto
  let ?u = "if tb_bktab t ! j = Slot_null then tb_bktab_used t + 1 else tb_bktab_used t"
  have "atm_dict_table_push_entry kt t e = Inr (tb_upd t j l ?u (tb_size t + 1))"
    using l0(4) l(1) b(1,2) by (elim disjE) (simp_all add: atm_dict_table_push_entry_def Let_def tb_upd_def)
  moreover have "wf_table kt ok kid kh (tb_upd t j l ?u (tb_size t + 1))"
    by (rule tb_upd_wf [OF wf b(1) l(2,4)]) (use l(3) e slot_entries [OF wf b(1)] j_def in auto)
  ultimately show ?thesis using l(3) by blast
qed

text \<open>The effect of a pushed entry on the abstraction.\<close>

lemma push_entry_eff:
  assumes wf: "wf_table kt ok kid kh t" and e: "wf_entry ok e"
  shows "\<exists>t'. atm_dict_table_push_entry kt t e = Inr t' \<and> wf_table kt ok kid kh t'
    \<and> tb_bktab_size t' = tb_bktab_size t \<and> tb_n t' = tb_n t + 1
    \<and> (\<forall>i. tb_find kid kh t' i = (case tb_find kid kh t i of Some x \<Rightarrow> Some x
          | None \<Rightarrow> if kid (de_key e) = i then Some e else None))
    \<and> (tb_used_ok t 0 \<longrightarrow> tb_used_ok t' 0) \<and> (tb_full t 0 \<longrightarrow> tb_full t' 0)
    \<and> (tb_uniq kid t \<and> tb_find kid kh t (kid (de_key e)) = None \<longrightarrow> tb_uniq kid t')"
proof -
  define j where "j = tb_idx kh t (kid (de_key e))"
  have k: "ok (de_key e)" using e by (simp add: wf_entry_def)
  note b = bucket_ok [OF wf k, folded j_def]
  obtain l u where p: "atm_dict_table_push_entry kt t e = Inr (tb_upd t j l u (tb_size t + 1))"
      "list_vals l = tb_slot t j @ [e]"
      "u = (if tb_bktab t ! j = Slot_null then tb_bktab_used t + 1 else tb_bktab_used t)"
      "wf_table kt ok kid kh (tb_upd t j l u (tb_size t + 1))"
    using push_entry_ok [OF wf e, folded j_def] by blast
  have jl: "j < length (tb_bktab t)" using b(1,2) by simp
  let ?t = "tb_upd t j l u (tb_size t + 1)"
  have fnd: "tb_find kid kh ?t i = (case tb_find kid kh t i of Some x \<Rightarrow> Some x
      | None \<Rightarrow> if kid (de_key e) = i then Some e else None)" for i
    by (rule tb_upd_snoc_find [where kid = kid, OF jl p(2) j_def])
  have n: "tb_n ?t = tb_n t + 1" using tb_upd_n [OF jl, of l u "tb_size t + 1"] p(2) by simp
  have uq: "tb_uniq kid ?t" if "tb_uniq kid t" "tb_find kid kh t (kid (de_key e)) = None"
  proof -
    have "\<forall>x \<in> set (tb_slot t j). kid (de_key x) \<noteq> kid (de_key e)"
      using that(2) by (auto simp: tb_find_def j_def find_None_iff has_id_def)
    then show ?thesis using that(1) b(1) jl p(2)
      by (auto simp: tb_uniq_def tb_upd_slot)
  qed
  show ?thesis
    using p n fnd uq tb_used_upd [OF _ _ b(1,2) p(3), of 0 l "tb_size t + 1"]
      tb_full_upd [OF _ b(1,2), of 0 l u "tb_size t + 1"]
    by (intro exI [of _ ?t]) simp
qed

text \<open>Storing into the entry that is there, or pushing a new one.\<close>

lemma table_set_ok:
  assumes wf: "wf_table kt ok kid kh t" and k: "ok k"
  shows "\<exists>t'. atm_dict_table_set kt t k v = Inr t' \<and> wf_table kt ok kid kh t'
    \<and> tb_bktab_size t' = tb_bktab_size t
    \<and> tb_n t' = (if tb_find kid kh t (kid k) = None then tb_n t + 1 else tb_n t)
    \<and> (\<forall>i. i \<noteq> kid k \<longrightarrow> tb_find kid kh t' i = tb_find kid kh t i)
    \<and> (\<exists>e. tb_find kid kh t' (kid k) = Some e \<and> de_val e = v)
    \<and> (tb_used_ok t 0 \<longrightarrow> tb_used_ok t' 0) \<and> (tb_full t 0 \<longrightarrow> tb_full t' 0)
    \<and> (tb_uniq kid t \<longrightarrow> tb_uniq kid t')"
  using entry_ok [OF wf k]
proof (elim disjE exE conjE)
  assume none: "tb_find kid kh t (kid k) = None" "atm_dict_entry kt t k = Inr None"
  let ?e = "(atm_dict_entry_new k v)\<lparr>de_dict := True\<rparr>"
  have e: "wf_entry ok ?e" "de_key ?e = k" "de_val ?e = v"
    using k by (simp_all add: wf_entry_def atm_dict_entry_new_def)
  obtain t' where t': "atm_dict_table_push_entry kt t ?e = Inr t'" "wf_table kt ok kid kh t'"
      "tb_bktab_size t' = tb_bktab_size t" "tb_n t' = tb_n t + 1"
      "\<forall>i. tb_find kid kh t' i = (case tb_find kid kh t i of Some x \<Rightarrow> Some x
          | None \<Rightarrow> if kid (de_key ?e) = i then Some ?e else None)"
      "tb_used_ok t 0 \<longrightarrow> tb_used_ok t' 0" "tb_full t 0 \<longrightarrow> tb_full t' 0"
      "tb_uniq kid t \<and> tb_find kid kh t (kid (de_key ?e)) = None \<longrightarrow> tb_uniq kid t'"
    using push_entry_eff [OF wf e(1)] by blast
  have "\<forall>i. i \<noteq> kid k \<longrightarrow> tb_find kid kh t' i = tb_find kid kh t i"
    using t'(5) e(2) by (auto split: option.splits)
  moreover have "tb_find kid kh t' (kid k) = Some ?e" using t'(5) none(1) e(2) by simp
  moreover have "atm_dict_table_set kt t k v = Inr t'" using none(2) t'(1) by (simp add: atm_dict_table_set_def)
  ultimately show ?thesis using t'(2-4,6-8) none(1) e(2,3) by auto
next
  fix l ps a e qs
  define j where "j = tb_idx kh t (kid k)"
  assume f: "tb_bktab t ! tb_idx kh t (kid k) = Slot_bkt l" "list_rep l (ps @ (a, e) # qs)"
    "has_id kid (kid k) e" "\<forall>y \<in> set (map snd ps). \<not> has_id kid (kid k) y"
    "tb_slot t (tb_idx kh t (kid k)) = map snd ps @ e # map snd qs"
    "tb_find kid kh t (kid k) = Some e" "atm_dict_entry kt t k = Inr (Some (tb_idx kh t (kid k), l, a))"
  note f = f [folded j_def]
  note b = bucket_ok [OF wf k, folded j_def]
  have jl: "j < length (tb_bktab t)" using b(1,2) by simp
  let ?e = "e\<lparr>de_val := v\<rparr>"
  obtain l' where l': "list_poke l a ?e = Inr l'" "list_rep l' (ps @ (a, ?e) # qs)" "list_type l' = list_type l"
    using list_rep_poke [OF f(2)] by blast
  have lv: "wf_list l'" "list_vals l' = map snd ps @ ?e # map snd qs" using list_rep_wf [OF l'(2)] by simp_all
  let ?t = "tb_upd t j l' (tb_bktab_used t) (tb_size t)"
  have set: "atm_dict_table_set kt t k v = Inr ?t"
    using f(7) list_rep_get [OF f(2)] l'(1) jl
    by (simp add: atm_dict_table_set_def tb_upd_def)
  have ty: "list_type l' = (ATM_FREE_SHALLOW, Some (ATM_DICT_ENTRY_T kt))"
  proof -
    have "wf_slot kt (tb_bktab t ! j)" using wf b(1) by (simp add: wf_table_def)
    then show ?thesis using f(1) l'(3) by (simp add: wf_slot_def)
  qed
  have ent: "wf_entry ok x \<and> tb_idx kh t (kid (de_key x)) = j" if "x \<in> set (list_vals l')" for x
  proof -
    have "e \<in> set (tb_slot t j)" using f(5) by simp
    then have we: "wf_entry ok e \<and> tb_idx kh t (kid (de_key e)) = j" by (rule slot_entries [OF wf b(1)])
    have "x = ?e \<or> x \<in> set (tb_slot t j)" using that lv(2) f(5) by auto
    then show ?thesis
    proof
      assume "x = ?e"
      then show ?thesis using we by (simp add: wf_entry_def)
    qed (rule slot_entries [OF wf b(1)])
  qed
  have w: "wf_table kt ok kid kh ?t"
    by (rule tb_upd_wf [OF wf b(1) lv(1) ty]) (use ent lv(2) f(5) in auto)
  have oth: "tb_find kid kh ?t i = tb_find kid kh t i" if "i \<noteq> kid k" for i
  proof -
    have "\<not> has_id kid i e" "\<not> has_id kid i ?e" using that f(3) by (simp_all add: has_id_def)
    then show ?thesis unfolding tb_upd_find [OF jl] using lv(2) f(5)
      by (simp add: tb_find_def find_append split: option.split)
  qed
  have own: "tb_find kid kh ?t (kid k) = Some ?e"
  proof -
    have "List.find (has_id kid (kid k)) (map snd ps @ ?e # map snd qs) = Some ?e"
      by (rule find_split_first(1)) (use f(3,4) in \<open>simp_all add: has_id_def\<close>)
    then show ?thesis using jl lv(2) by (simp add: tb_upd_find j_def)
  qed
  have n: "tb_n ?t = tb_n t" using tb_upd_n [OF jl, of l' "tb_bktab_used t" "tb_size t"] lv(2) f(5) by simp
  have us: "tb_used_ok t 0 \<longrightarrow> tb_used_ok ?t 0"
    using tb_used_upd [OF _ _ b(1,2), of 0 "tb_bktab_used t" l' "tb_size t"] f(1) by simp
  have fu: "tb_full t 0 \<longrightarrow> tb_full ?t 0" using tb_full_upd [OF _ b(1,2), of 0 l'] lv(2) by simp
  have uq: "tb_uniq kid t \<longrightarrow> tb_uniq kid ?t"
  proof -
    have "map (kid \<circ> de_key) (list_vals l') = map (kid \<circ> de_key) (tb_slot t j)" using f(5) lv(2) by simp
    then show ?thesis using jl by (simp add: tb_uniq_def tb_upd_slot)
  qed
  show ?thesis using set w oth own n us fu uq f(6) by (intro exI [of _ ?t]) auto
qed

text \<open>Deleting unlinks the entry; its bucket stays, possibly empty.\<close>

lemma table_del_ok:
  assumes wf: "wf_table kt ok kid kh t" and k: "ok k" and uq: "tb_uniq kid t"
  shows "\<exists>t'. atm_dict_table_del kt t k = Inr (tb_find kid kh t (kid k), t') \<and> wf_table kt ok kid kh t'
    \<and> tb_bktab_size t' = tb_bktab_size t \<and> tb_uniq kid t'
    \<and> tb_n t = (if tb_find kid kh t (kid k) = None then tb_n t' else tb_n t' + 1)
    \<and> (\<forall>i. tb_find kid kh t' i = (if i = kid k then None else tb_find kid kh t i))
    \<and> (\<forall>m. tb_nonnull t' m = tb_nonnull t m) \<and> tb_bktab_used t' = tb_bktab_used t
    \<and> (\<forall>j < tb_slots t. tb_slot t j = [] \<longrightarrow> tb_slot t' j = [])"
  using entry_ok [OF wf k]
proof (elim disjE exE conjE)
  assume "tb_find kid kh t (kid k) = None" "atm_dict_entry kt t k = Inr None"
  then show ?thesis using wf uq by (auto simp: atm_dict_table_del_def)
next
  fix l ps a e qs
  define j where "j = tb_idx kh t (kid k)"
  assume f: "tb_bktab t ! tb_idx kh t (kid k) = Slot_bkt l" "list_rep l (ps @ (a, e) # qs)"
    "has_id kid (kid k) e" "\<forall>y \<in> set (map snd ps). \<not> has_id kid (kid k) y"
    "tb_slot t (tb_idx kh t (kid k)) = map snd ps @ e # map snd qs"
    "tb_find kid kh t (kid k) = Some e" "atm_dict_entry kt t k = Inr (Some (tb_idx kh t (kid k), l, a))"
  note f = f [folded j_def]
  note b = bucket_ok [OF wf k, folded j_def]
  have jl: "j < length (tb_bktab t)" using b(1,2) by simp
  have ty: "list_type l = (ATM_FREE_SHALLOW, Some (ATM_DICT_ENTRY_T kt))" "wf_list l"
  proof -
    have "wf_slot kt (tb_bktab t ! j)" using wf b(1) by (simp add: wf_table_def)
    then show "list_type l = (ATM_FREE_SHALLOW, Some (ATM_DICT_ENTRY_T kt))" "wf_list l"
      using f(1) by (simp_all add: wf_slot_def)
  qed
  have vals: "list_vals l = tb_slot t j" using f(1) by (simp add: tb_slot_def slot_vals_def)
  have ws: "\<forall>x \<in> set (list_vals l). wf_entry ok x" using slot_entries [OF wf b(1)] vals by simp
  have e: "wf_entry ok e" using ws vals f(5) by simp
  have id: "kid (de_key e) = kid k" using f(3) by (simp add: has_id_def)
  have m: "list_matches l e (has_id kid (kid k))"
    using bucket_matches [OF ws _ ty(1), of e] e id by (simp add: wf_entry_def)
  obtain l' where l': "atm_list_del l e = Inr ([], l')" "wf_list l'"
      "list_vals l' = del_first (has_id kid (kid k)) (list_vals l)" "list_type l' = list_type l"
    using atm_list_del_vals [OF ty(2) m] ty(1) by (auto simp: list_type_def)
  have hid: "has_id kid i = (\<lambda>x. (kid \<circ> de_key) x = i)" for i :: 'i by (auto simp: has_id_def)
  have dst: "distinct (map (kid \<circ> de_key) (tb_slot t j))" using uq b(1) by (simp add: tb_uniq_def)
  have fe: "List.find (has_id kid (kid k)) (tb_slot t j) = Some e" using f(6) by (simp add: tb_find_def j_def)
  note fd = find_del_first [OF dst fe [unfolded hid], folded hid, folded vals, folded l'(3)]
  let ?t = "tb_upd t j l' (tb_bktab_used t) (tb_size t - 1)"
  have del: "atm_dict_table_del kt t k = Inr (Some e, ?t)"
    using f(7) list_rep_get [OF f(2)] l'(1) jl by (simp add: atm_dict_table_del_def tb_upd_def)
  have w: "wf_table kt ok kid kh ?t"
  proof (rule tb_upd_wf [OF wf b(1) l'(2)])
    show "\<forall>x \<in> set (list_vals l'). wf_entry ok x \<and> tb_idx kh t (kid (de_key x)) = j"
      using fd(3) vals slot_entries [OF wf b(1)] by auto
    show "tb_size t - 1 + of_nat (length (tb_slot t j)) = tb_size t + of_nat (length (list_vals l'))"
    proof -
      have "length (tb_slot t j) = Suc (length (list_vals l'))" using fd(4) vals by simp
      then show ?thesis by simp
    qed
  qed (use ty l'(4) in simp)
  have fnd: "tb_find kid kh ?t i = (if i = kid k then None else tb_find kid kh t i)" for i
    unfolding tb_upd_find [OF jl] using fd(1) vals by (auto simp: tb_find_def j_def)
  have n: "tb_n t = tb_n ?t + 1"
    using tb_upd_n [OF jl, of l' "tb_bktab_used t" "tb_size t - 1"] fd(4) vals by simp
  have u2: "tb_uniq kid ?t" using uq fd(2) jl by (simp add: tb_uniq_def tb_upd_slot comp_def)
  have nn: "tb_nonnull ?t m = tb_nonnull t m" for m
  proof -
    have "m \<le> j \<Longrightarrow> j \<in> tb_nonnull t m" using f(1) b(1) by (simp add: tb_nonnull_def)
    then show ?thesis
      using tb_upd_nonnull [OF jl b(2), of l' "tb_bktab_used t" "tb_size t - 1" m]
      by (simp add: insert_absorb)
  qed
  have em: "tb_slot ?t x = []" if "tb_slot t x = []" for x
    using that jl fd(3) vals by (cases "x = j") (simp_all add: tb_upd_slot)
  show ?thesis using del w fnd n u2 nn em f(6) by (intro exI [of _ ?t]) simp
qed

end

end
