(* ===== verification/Atm_Dict_Rehash.thy ===== *)
theory Atm_Dict_Rehash
  imports Atm_Dict_Table
begin

text \<open>
  Incremental rehashing and the dictionary operations of \<^verbatim>\<open>src/core/atm_dict.c\<close>. While a
  backup table exists, the buckets of the active table before \<^verbatim>\<open>rehash_index\<close> are empty, the
  two tables have no identity in common, and \<^verbatim>\<open>bktab_used\<close> counts the buckets still to
  move. The lemmas show that a rehash step keeps this and every lookup, that it exits only
  when an empty bucket is left over, and what each operation does to the abstract map.
\<close>

section \<open>Counting\<close>

lemma tb_n_ge: "j < length (tb_bktab t) \<Longrightarrow> length (tb_slot t j) \<le> tb_n t"
  unfolding tb_n_def tb_slot_def by (rule member_le_sum_list) (auto intro: nth_mem)

lemma tb_n_0:
  assumes "length (tb_bktab t) = tb_slots t"
  shows "tb_n t = 0 \<longleftrightarrow> (\<forall>j < tb_slots t. tb_slot t j = [])"
  using assms by (auto simp: tb_n_def sum_list_eq_0_iff tb_slot_def all_set_conv_all_nth)

lemma tb_nonempty_nonnull: "tb_slot t j \<noteq> [] \<Longrightarrow> tb_bktab t ! j \<noteq> Slot_null"
  by (auto simp: tb_slot_def slot_vals_def)

lemma tb_find_slot:
  assumes "wf_table kt ok kid kh t" "j < tb_slots t" "j \<noteq> tb_idx kh t i"
  shows "List.find (has_id kid i) (tb_slot t j) = None"
  using assms by (auto simp: wf_table_def find_None_iff has_id_def)

lemma unat_of_nat_u32: "n < 2 ^ 32 \<Longrightarrow> unat (of_nat n :: u32) = n"
  by simp

lemma tb_nonnull_Suc: "tb_nonnull t (Suc i) = tb_nonnull t i - {i}"
  by (auto simp: tb_nonnull_def)

lemma used_pos:
  assumes "wf_table kt ok kid kh t" "tb_used_ok t m" "\<forall>j < m. tb_slot t j = []" "0 < tb_n t"
  shows "tb_bktab_used t \<noteq> 0" "m < tb_slots t"
proof -
  obtain j where j: "j < tb_slots t" "tb_slot t j \<noteq> []"
    using tb_n_0 [of t] assms(1,4) by (auto simp: wf_table_def)
  then have mj: "m \<le> j" using assms(3) by (meson not_le)
  then have "j \<in> tb_nonnull t m" using j tb_nonempty_nonnull by (auto simp: tb_nonnull_def)
  then have "0 < card (tb_nonnull t m)" by (auto simp: card_gt_0_iff)
  then show "tb_bktab_used t \<noteq> 0" using assms(2) tb_nonnull_card [of t m]
    by (metis tb_used_ok_def less_numeral_extra(3) unat_0 unat_of_nat_u32)
  show "m < tb_slots t" using mj j(1) by simp
qed

lemma full_used_0:
  assumes "wf_table kt ok kid kh t" "tb_used_ok t m" "tb_full t m" "tb_n t = 0"
  shows "tb_bktab_used t = 0"
proof -
  have "tb_nonnull t m = {}"
    using assms(1,3,4) tb_n_0 [of t] by (auto simp: tb_full_def wf_table_def tb_nonnull_def)
  then show ?thesis using assms(2) by (simp add: tb_used_ok_def)
qed

section \<open>The invariant of a rehash\<close>

definition rehash_inv ::
  "'k atm_T \<Rightarrow> ('k \<Rightarrow> bool) \<Rightarrow> ('k \<Rightarrow> 'i) \<Rightarrow> ('i \<Rightarrow> u64) \<Rightarrow>
   ('k, 'v) dict_table \<Rightarrow> ('k, 'v) dict_table \<Rightarrow> nat \<Rightarrow> bool" where
  "rehash_inv kt ok kid kh t b i \<longleftrightarrow>
     wf_table kt ok kid kh t \<and> tb_uniq kid t \<and> tb_used_ok t i \<and> (\<forall>j < i. tb_slot t j = [])
     \<and> wf_table kt ok kid kh b \<and> tb_uniq kid b \<and> tb_used_ok b 0
     \<and> (\<forall>x. tb_find kid kh t x = None \<or> tb_find kid kh b x = None)"

text \<open>The lookup through both tables.\<close>

definition find2 ::
  "('k \<Rightarrow> 'i) \<Rightarrow> ('i \<Rightarrow> u64) \<Rightarrow> ('k, 'v) dict_table \<Rightarrow> ('k, 'v) dict_table \<Rightarrow> 'i \<Rightarrow> ('k, 'v) dict_entry option" where
  "find2 kid kh t b x = (case tb_find kid kh t x of Some e \<Rightarrow> Some e | None \<Rightarrow> tb_find kid kh b x)"

context key_type
begin

lemma move_entries_ok:
  assumes "wf_list l" "list_type l = (ATM_FREE_SHALLOW, Some (ATM_DICT_ENTRY_T kt))"
    "\<forall>e \<in> set (list_vals l). wf_entry ok e" "wf_table kt ok kid kh b" "length (list_vals l) < n"
  shows "\<exists>l' b'. move_entries kt n l sz b = Inr (l', sz - of_nat (length (list_vals l)), b')
    \<and> wf_list l' \<and> list_vals l' = [] \<and> list_type l' = list_type l \<and> wf_table kt ok kid kh b'
    \<and> tb_bktab_size b' = tb_bktab_size b \<and> tb_n b' = tb_n b + length (list_vals l)
    \<and> (\<forall>i. tb_find kid kh b' i = (case tb_find kid kh b i of Some x \<Rightarrow> Some x
          | None \<Rightarrow> List.find (has_id kid i) (list_vals l)))
    \<and> (tb_used_ok b 0 \<longrightarrow> tb_used_ok b' 0) \<and> (tb_full b 0 \<longrightarrow> tb_full b' 0)
    \<and> (tb_uniq kid b \<and> distinct (map (kid \<circ> de_key) (list_vals l))
        \<and> (\<forall>e \<in> set (list_vals l). tb_find kid kh b (kid (de_key e)) = None) \<longrightarrow> tb_uniq kid b')"
  using assms
proof (induction "list_vals l" arbitrary: l n sz b)
  case Nil
  obtain m where n: "n = Suc m" using Nil.prems(5) by (cases n) simp_all
  have "move_entries kt n l sz b = Inr (l, sz, b)"
    using atm_list_lpop_vals [OF Nil.prems(1)] Nil.hyps by (simp add: n)
  then show ?case using Nil.prems Nil.hyps by (intro exI [of _ l] exI [of _ b]) (auto split: option.split)
next
  case (Cons e es)
  obtain m where n: "n = Suc m" using Cons.prems(5) by (cases n) simp_all
  have vals: "list_vals l = e # es" using Cons.hyps(2) by simp
  obtain l1 where l1: "atm_list_lpop l = Inr (Some e, l1)" "wf_list l1" "list_vals l1 = es"
      "list_type l1 = list_type l"
    using atm_list_lpop_vals [OF Cons.prems(1)] unfolding vals list.case by blast
  have e: "wf_entry ok e" using Cons.prems(3) by (simp add: vals)
  obtain b1 where b1: "atm_dict_table_push_entry kt b e = Inr b1" "wf_table kt ok kid kh b1"
      "tb_bktab_size b1 = tb_bktab_size b" "tb_n b1 = tb_n b + 1"
      "\<forall>i. tb_find kid kh b1 i = (case tb_find kid kh b i of Some x \<Rightarrow> Some x
          | None \<Rightarrow> if kid (de_key e) = i then Some e else None)"
      "tb_used_ok b 0 \<longrightarrow> tb_used_ok b1 0" "tb_full b 0 \<longrightarrow> tb_full b1 0"
      "tb_uniq kid b \<and> tb_find kid kh b (kid (de_key e)) = None \<longrightarrow> tb_uniq kid b1"
    using push_entry_eff [OF Cons.prems(4) e] by blast
  obtain l' b' where r: "move_entries kt m l1 (sz - 1) b1 = Inr (l', sz - 1 - of_nat (length es), b')"
      "wf_list l'" "list_vals l' = []" "list_type l' = list_type l1" "wf_table kt ok kid kh b'"
      "tb_bktab_size b' = tb_bktab_size b1" "tb_n b' = tb_n b1 + length es"
      "\<forall>i. tb_find kid kh b' i = (case tb_find kid kh b1 i of Some x \<Rightarrow> Some x
          | None \<Rightarrow> List.find (has_id kid i) es)"
      "tb_used_ok b1 0 \<longrightarrow> tb_used_ok b' 0" "tb_full b1 0 \<longrightarrow> tb_full b' 0"
      "tb_uniq kid b1 \<and> distinct (map (kid \<circ> de_key) es)
        \<and> (\<forall>x \<in> set es. tb_find kid kh b1 (kid (de_key x)) = None) \<longrightarrow> tb_uniq kid b'"
    using Cons.hyps(1) [OF l1(3) [symmetric] l1(2) _ _ b1(2), of m "sz - 1"] Cons.prems l1(3,4) n
    by (simp add: vals) blast
  have mv: "move_entries kt n l sz b = Inr (l', sz - of_nat (length (list_vals l)), b')"
    using l1(1) b1(1) r(1) by (simp add: n algebra_simps vals)
  have fnd: "tb_find kid kh b' i = (case tb_find kid kh b i of Some x \<Rightarrow> Some x
      | None \<Rightarrow> List.find (has_id kid i) (list_vals l))" for i
    using r(8) b1(5) by (simp add: has_id_def vals split: option.split)
  have uq: "tb_uniq kid b'" if "tb_uniq kid b" "distinct (map (kid \<circ> de_key) (list_vals l))"
      "\<forall>x \<in> set (list_vals l). tb_find kid kh b (kid (de_key x)) = None"
  proof -
    have "\<forall>x \<in> set es. tb_find kid kh b1 (kid (de_key x)) = None"
      using that(2,3) b1(5) by (auto simp: vals)
    then show ?thesis using that b1(8) r(11) by (simp add: vals)
  qed
  show ?case
    using mv r(2-7,9,10) l1(4) b1(3,4,6,7) fnd uq
    by (intro exI [of _ l'] exI [of _ b']) (simp add: vals)
qed

text \<open>One round moves one bucket: the effect on both tables, whatever they hold.\<close>

lemma rehash_round_step:
  assumes wt: "wf_table kt ok kid kh t" and wb: "wf_table kt ok kid kh b"
    and ut: "tb_used_ok t (unat i)" and em: "\<forall>j < unat i. tb_slot t j = []"
    and n: "0 < tb_n t" "tb_n t < 2 ^ 32"
  shows "\<exists>t' b'. rehash_round kt t b i = Inr (True, t', b', i + 1) \<and> unat (i + 1) = Suc (unat i)
    \<and> wf_table kt ok kid kh t' \<and> wf_table kt ok kid kh b' \<and> tb_used_ok t' (Suc (unat i))
    \<and> (\<forall>j < Suc (unat i). tb_slot t' j = []) \<and> tb_slots t' = tb_slots t
    \<and> (\<forall>x. tb_find kid kh t' x = (if tb_idx kh t x = unat i then None else tb_find kid kh t x))
    \<and> (\<forall>x. tb_find kid kh b' x = (case tb_find kid kh b x of Some e \<Rightarrow> Some e
          | None \<Rightarrow> if tb_idx kh t x = unat i then tb_find kid kh t x else None))
    \<and> tb_n t' + tb_n b' = tb_n t + tb_n b
    \<and> (tb_used_ok b 0 \<longrightarrow> tb_used_ok b' 0) \<and> (tb_full b 0 \<longrightarrow> tb_full b' 0)
    \<and> (tb_full t (unat i) \<longrightarrow> tb_full t' (Suc (unat i))) \<and> (tb_uniq kid t \<longrightarrow> tb_uniq kid t')
    \<and> (tb_uniq kid b \<and> tb_uniq kid t \<and> (\<forall>x. tb_find kid kh t x = None \<or> tb_find kid kh b x = None)
        \<longrightarrow> tb_uniq kid b')"
proof -
  let ?i = "unat i"
  have lt: "?i < tb_slots t" and us: "tb_bktab_used t \<noteq> 0" using used_pos [OF wt ut em n(1)] by simp_all
  have len: "length (tb_bktab t) = tb_slots t" using wt by (simp add: wf_table_def)
  have jl: "?i < length (tb_bktab t)" using lt len by simp
  have sz: "tb_size t \<noteq> 0"
  proof
    assume "tb_size t = 0"
    then have "unat (of_nat (tb_n t) :: u32) = 0" using wt by (simp add: wf_table_def)
    then show False using n by simp
  qed
  have ne: "i \<noteq> tb_bktab_size t" using lt by (auto simp: tb_slots_def)
  have i1: "unat (i + 1) = Suc ?i"
    using lt unat_u32 [of "tb_bktab_size t"] by (simp add: unat_word_ariths tb_slots_def)
  have ws: "wf_slot kt (tb_bktab t ! ?i)" using wt lt by (simp add: wf_table_def)
  show ?thesis
  proof (cases "tb_bktab t ! ?i")
    case Slot_null
    have nn: "tb_nonnull t (Suc ?i) = tb_nonnull t ?i"
      unfolding tb_nonnull_Suc using Slot_null by (simp add: tb_nonnull_def)
    have e0: "tb_slot t ?i = []" using Slot_null by (simp add: tb_slot_def slot_vals_def)
    then have em': "\<forall>j < Suc ?i. tb_slot t j = []" using em by (simp add: less_Suc_eq)
    have f0: "tb_find kid kh t x = None" if "tb_idx kh t x = ?i" for x
      using that e0 by (simp add: tb_find_def)
    have "rehash_round kt t b i = Inr (True, t, b, i + 1)"
      using ne us sz jl Slot_null by (simp add: rehash_round_def slot_list_def)
    then show ?thesis using i1 nn em' f0 wt wb ut
      by - (rule exI [of _ t], rule exI [of _ b], simp add: tb_full_def tb_used_ok_def split: option.split)
  next
    case (Slot_bkt l)
    have l: "wf_list l" "list_type l = (ATM_FREE_SHALLOW, Some (ATM_DICT_ENTRY_T kt))"
      "list_vals l = tb_slot t ?i"
      using ws Slot_bkt by (simp_all add: wf_slot_def tb_slot_def slot_vals_def)
    have ents: "wf_entry ok e \<and> tb_idx kh t (kid (de_key e)) = ?i" if "e \<in> set (tb_slot t ?i)" for e
      using slot_entries [OF wt lt that] .
    have "length (list_vals l) < Suc (l_brk l)"
      using l(1) list_rep_length [of l] wf_list_rep [OF l(1)] by (metis length_map less_Suc_eq_le)
    then obtain l' b' where m: "move_entries kt (Suc (l_brk l)) l (tb_size t) b
        = Inr (l', tb_size t - of_nat (length (tb_slot t ?i)), b')"
        "wf_list l'" "list_vals l' = []" "list_type l' = list_type l" "wf_table kt ok kid kh b'"
        "tb_n b' = tb_n b + length (tb_slot t ?i)"
        "\<forall>x. tb_find kid kh b' x = (case tb_find kid kh b x of Some e \<Rightarrow> Some e
            | None \<Rightarrow> List.find (has_id kid x) (tb_slot t ?i))"
        "tb_used_ok b 0 \<longrightarrow> tb_used_ok b' 0" "tb_full b 0 \<longrightarrow> tb_full b' 0"
        "tb_uniq kid b \<and> distinct (map (kid \<circ> de_key) (tb_slot t ?i))
          \<and> (\<forall>e \<in> set (tb_slot t ?i). tb_find kid kh b (kid (de_key e)) = None) \<longrightarrow> tb_uniq kid b'"
      using move_entries_ok [OF l(1,2) _ wb, of "Suc (l_brk l)" "tb_size t"] ents unfolding l(3) by blast
    let ?sz = "tb_size t - of_nat (length (tb_slot t ?i))"
    let ?t = "tb_upd t ?i l' (tb_bktab_used t - 1) ?sz"
    have rr: "rehash_round kt t b i = Inr (True, ?t, b', i + 1)"
      using ne us sz jl Slot_bkt m(1)
      by (simp add: rehash_round_def slot_list_def tb_upd_def del: move_entries.simps)
    have wt': "wf_table kt ok kid kh ?t"
      by (rule tb_upd_wf [OF wt lt m(2)]) (use m(3,4) l(2) in simp_all)
    have slot': "tb_slot ?t j = (if j = ?i then [] else tb_slot t j)" for j
      using tb_upd_slot [OF jl, of l' "tb_bktab_used t - 1" ?sz j] m(3) by simp
    have fnd: "tb_find kid kh ?t x = (if tb_idx kh t x = ?i then None else tb_find kid kh t x)" for x
      unfolding tb_upd_find [OF jl] m(3) by simp
    have f0: "List.find (has_id kid x) (tb_slot t ?i) = (if tb_idx kh t x = ?i then tb_find kid kh t x else None)" for x
      using tb_find_slot [OF wt lt, of x] by (auto simp: tb_find_def)
    have nn: "tb_nonnull ?t (Suc ?i) = tb_nonnull t ?i - {?i}"
      using tb_upd_nonnull [OF jl len, of l' "tb_bktab_used t - 1" ?sz "Suc ?i"]
      by (simp add: tb_nonnull_Suc)
    have mem: "?i \<in> tb_nonnull t ?i" using lt Slot_bkt by (simp add: tb_nonnull_def)
    then have "card (tb_nonnull t ?i) = Suc (card (tb_nonnull t ?i - {?i}))"
      by (rule card.remove [OF tb_nonnull_finite])
    then have us': "tb_used_ok ?t (Suc ?i)" using ut nn by (simp add: tb_used_ok_def)
    have em': "\<forall>j < Suc ?i. tb_slot ?t j = []" using slot' em by (simp add: less_Suc_eq)
    have ub: "tb_uniq kid b'"
      if u: "tb_uniq kid b" "tb_uniq kid t" and dj: "\<forall>x. tb_find kid kh t x = None \<or> tb_find kid kh b x = None"
    proof -
      have "tb_find kid kh b (kid (de_key e)) = None" if "e \<in> set (tb_slot t ?i)" for e
      proof -
        have "tb_find kid kh t (kid (de_key e)) \<noteq> None"
          using that ents [OF that] by (auto simp: tb_find_def find_None_iff has_id_def)
        then show ?thesis using dj [rule_format, of "kid (de_key e)"] by (elim disjE) simp_all
      qed
      then show ?thesis using m(10) u lt by (simp add: tb_uniq_def)
    qed
    have ut': "tb_uniq kid ?t" if "tb_uniq kid t" using that slot' by (simp add: tb_uniq_def)
    have nsum: "tb_n ?t + tb_n b' = tb_n t + tb_n b"
      using tb_upd_n [OF jl, of l' "tb_bktab_used t - 1" ?sz] m(3,6) by simp
    have fl: "tb_full ?t (Suc ?i)" if "tb_full t ?i"
      using that nn slot' by (auto simp: tb_full_def)
    have m7: "tb_find kid kh b' x = (case tb_find kid kh b x of Some e \<Rightarrow> Some e
        | None \<Rightarrow> if tb_idx kh t x = ?i then tb_find kid kh t x else None)" for x
      using m(7) [rule_format, of x] unfolding f0 .
    show ?thesis using rr i1 wt' m(5,8,9) m7 us' em' fnd nsum fl ut' ub
      by - (rule exI [of _ ?t], rule exI [of _ b'], simp)
  qed (use ws in \<open>simp add: wf_slot_def\<close>)
qed

text \<open>So it keeps the invariant and the lookups of both tables together.\<close>

lemma rehash_round_ok:
  assumes inv: "rehash_inv kt ok kid kh t b (unat i)" and n: "0 < tb_n t" "tb_n t < 2 ^ 32"
  shows "\<exists>t' b'. rehash_round kt t b i = Inr (True, t', b', i + 1)
    \<and> rehash_inv kt ok kid kh t' b' (Suc (unat i)) \<and> unat (i + 1) = Suc (unat i)
    \<and> (\<forall>x. find2 kid kh t' b' x = find2 kid kh t b x) \<and> tb_n t' + tb_n b' = tb_n t + tb_n b
    \<and> tb_slots t' = tb_slots t
    \<and> (tb_full t (unat i) \<and> tb_full b 0 \<longrightarrow> tb_full t' (Suc (unat i)) \<and> tb_full b' 0)"
proof -
  note v = inv [unfolded rehash_inv_def]
  have dj: "tb_find kid kh t x = None \<or> tb_find kid kh b x = None" for x using v by (elim conjE) (erule spec)
  obtain t' b' where r: "rehash_round kt t b i = Inr (True, t', b', i + 1)" "unat (i + 1) = Suc (unat i)"
      "wf_table kt ok kid kh t'" "wf_table kt ok kid kh b'" "tb_used_ok t' (Suc (unat i))"
      "\<forall>j < Suc (unat i). tb_slot t' j = []" "tb_slots t' = tb_slots t"
      "\<forall>x. tb_find kid kh t' x = (if tb_idx kh t x = unat i then None else tb_find kid kh t x)"
      "\<forall>x. tb_find kid kh b' x = (case tb_find kid kh b x of Some e \<Rightarrow> Some e
          | None \<Rightarrow> if tb_idx kh t x = unat i then tb_find kid kh t x else None)"
      "tb_n t' + tb_n b' = tb_n t + tb_n b" "tb_used_ok b' 0" "tb_full b 0 \<longrightarrow> tb_full b' 0"
      "tb_full t (unat i) \<longrightarrow> tb_full t' (Suc (unat i))" "tb_uniq kid t'" "tb_uniq kid b'"
    using rehash_round_step [of t b i] v n dj by auto
  have dj': "tb_find kid kh t' x = None \<or> tb_find kid kh b' x = None" for x
    using dj [of x] r(8,9) by (auto split: option.split)
  have f2: "find2 kid kh t' b' x = find2 kid kh t b x" for x
  proof (cases "tb_find kid kh t x")
    case None
    then show ?thesis using r(8,9) by (auto simp: find2_def split: option.split)
  next
    case (Some e)
    then have "tb_find kid kh b x = None" using dj [of x] by simp
    then show ?thesis using Some r(8,9) by (auto simp: find2_def)
  qed
  have "rehash_inv kt ok kid kh t' b' (Suc (unat i))"
    unfolding rehash_inv_def using r dj' by blast
  then show ?thesis using r f2 by blast
qed

lemma table_free_ok:
  assumes "wf_table kt ok kid kh t"
  shows "atm_dict_table_free (Some t) = Inr ()"
proof -
  have f: "\<exists>s'. atm_dict_bucket_free x = Inr s'" if w: "wf_slot kt x" for x :: "('k, 'v) bslot"
  proof (cases x)
    case (Slot_bkt l)
    then have l: "wf_list l" "l_free_type l = ATM_FREE_SHALLOW" using w by (simp_all add: wf_slot_def list_type_def)
    then have "list_frees l" by (simp add: list_frees_def)
    with atm_list_clear_vals [OF l(1)] show ?thesis
      using Slot_bkt l(2) by (auto simp: atm_dict_bucket_free_def atm_list_free_def)
  qed (use w in \<open>auto simp: atm_dict_bucket_free_def wf_slot_def\<close>)
  have all: "\<forall>x \<in> set xs. wf_slot kt x \<Longrightarrow> \<exists>ys. free_slots xs = Inr ys" for xs :: "('k, 'v) bslot list"
    by (induction xs) (auto dest!: f)
  have "\<exists>ss. free_slots (tb_bktab t) = Inr ss"
    by (rule all) (use assms in \<open>auto simp: wf_table_def in_set_conv_nth\<close>)
  moreover have "mem_read (tb_bktab t) 0 (unat (tb_bktab_size t)) = Inr (tb_bktab t)"
    using assms by (simp add: wf_table_def tb_slots_def)
  ultimately show ?thesis by (auto simp: atm_dict_table_free_def atm_dict_table_clear_def)
qed

end

section \<open>The invariant of the dictionary\<close>

text \<open>
  \<^verbatim>\<open>dict_pre\<close> is what holds between the two halves of an operation, \<^verbatim>\<open>wf_dict\<close> between
  operations: a rehash under way has something left to move. \<^verbatim>\<open>dict_full\<close> says that no bucket
  still to be moved is empty.
\<close>

definition dict_pre ::
  "'k atm_T \<Rightarrow> ('k \<Rightarrow> bool) \<Rightarrow> ('k \<Rightarrow> 'i) \<Rightarrow> ('i \<Rightarrow> u64) \<Rightarrow> ('k, 'v) atm_dict \<Rightarrow> bool" where
  "dict_pre kt ok kid kh d \<longleftrightarrow> d_k_type d = kt
     \<and> (case d_backup d of
          None \<Rightarrow> d_rehash_index d = 0 \<and> wf_table kt ok kid kh (d_active d)
            \<and> tb_uniq kid (d_active d) \<and> tb_used_ok (d_active d) 0
        | Some b \<Rightarrow> unat (d_rehash_index d) < tb_slots (d_active d)
            \<and> rehash_inv kt ok kid kh (d_active d) b (unat (d_rehash_index d)))"

definition wf_dict ::
  "'k atm_T \<Rightarrow> ('k \<Rightarrow> bool) \<Rightarrow> ('k \<Rightarrow> 'i) \<Rightarrow> ('i \<Rightarrow> u64) \<Rightarrow> ('k, 'v) atm_dict \<Rightarrow> bool" where
  "wf_dict kt ok kid kh d \<longleftrightarrow> dict_pre kt ok kid kh d \<and> (d_backup d \<noteq> None \<longrightarrow> 0 < tb_n (d_active d))"

definition dict_full :: "('k, 'v) atm_dict \<Rightarrow> bool" where
  "dict_full d \<longleftrightarrow> tb_full (d_active d) (unat (d_rehash_index d))
     \<and> (case d_backup d of None \<Rightarrow> True | Some b \<Rightarrow> tb_full b 0)"

definition dict_n :: "('k, 'v) atm_dict \<Rightarrow> nat" where
  "dict_n d = tb_n (d_active d) + (case d_backup d of None \<Rightarrow> 0 | Some b \<Rightarrow> tb_n b)"

definition dict_find :: "('k \<Rightarrow> 'i) \<Rightarrow> ('i \<Rightarrow> u64) \<Rightarrow> ('k, 'v) atm_dict \<Rightarrow> 'i \<Rightarrow> ('k, 'v) dict_entry option" where
  "dict_find kid kh d i = (case d_backup d of None \<Rightarrow> tb_find kid kh (d_active d) i
     | Some b \<Rightarrow> find2 kid kh (d_active d) b i)"

text \<open>The fields that no operation on entries changes.\<close>

definition dict_conf :: "('k, 'v) atm_dict \<Rightarrow> u32 \<times> 'k atm_T \<times> 'v atm_T option \<times> bool" where
  "dict_conf d = (d_free_type d, d_k_type d, d_v_type d, d_enable_resize d)"

definition dict_step_ok ::
  "'k atm_T \<Rightarrow> ('k \<Rightarrow> bool) \<Rightarrow> ('k \<Rightarrow> 'i) \<Rightarrow> ('i \<Rightarrow> u64) \<Rightarrow> ('k, 'v) atm_dict \<Rightarrow> ('k, 'v) atm_dict \<Rightarrow> bool" where
  "dict_step_ok kt ok kid kh d d' \<longleftrightarrow> wf_dict kt ok kid kh d' \<and> dict_find kid kh d' = dict_find kid kh d
     \<and> dict_n d' = dict_n d \<and> dict_conf d' = dict_conf d \<and> (dict_full d \<longrightarrow> dict_full d')
     \<and> (d_backup d \<noteq> None \<longrightarrow> d_backup d' = None
          \<or> (unat (d_rehash_index d') = Suc (unat (d_rehash_index d))
              \<and> tb_slots (d_active d') = tb_slots (d_active d)))"

context key_type
begin

lemma new_table_ok:
  fixes t :: "('k, 'v) dict_table"
  assumes "t = atm_dict_table_new bsz" "0 < unat bsz" "unat bsz < 2 ^ 29"
  shows "wf_table kt ok kid kh t \<and> tb_slots t = unat bsz \<and> tb_used_ok t 0 \<and> tb_full t 0
    \<and> tb_uniq kid t \<and> (\<forall>i. tb_find kid kh t i = None) \<and> tb_n t = 0"
  by (intro conjI allI) (rule wf_table_new [OF assms])+

lemma wf_dict_new:
  fixes vt :: "'v atm_T option"
  shows "wf_dict kt ok kid kh (atm_dict_new kt vt f)" "dict_full (atm_dict_new kt vt f)"
    "dict_find kid kh (atm_dict_new kt vt f) i = None" "dict_n (atm_dict_new kt vt f) = 0"
proof -
  let ?t = "atm_dict_table_new ATM_DICT_INITIAL_BUCKET_SIZE :: ('k, 'v) dict_table"
  have b: "0 < unat ATM_DICT_INITIAL_BUCKET_SIZE" "unat ATM_DICT_INITIAL_BUCKET_SIZE < 2 ^ 29"
    by (simp_all add: ATM_DICT_INITIAL_BUCKET_SIZE_def)
  note w = new_table_ok [where t = ?t, OF refl b]
  show "wf_dict kt ok kid kh (atm_dict_new kt vt f)" "dict_full (atm_dict_new kt vt f)"
    "dict_find kid kh (atm_dict_new kt vt f) i = None" "dict_n (atm_dict_new kt vt f) = 0"
    using w by (simp_all add: wf_dict_def dict_pre_def dict_full_def dict_find_def dict_n_def atm_dict_new_def)
qed

text \<open>Finishing a rehash, or going on with the index moved.\<close>

lemma rehash_finish_ok:
  fixes d :: "('k, 'v) atm_dict"
  assumes inv: "rehash_inv kt ok kid kh t b (unat i)" and i: "unat i \<le> tb_slots t"
    and n: "tb_n t < 2 ^ 32" and kt: "d_k_type d = kt"
  shows "(\<exists>d'. rehash_finish d t b i = Inr d' \<and> wf_dict kt ok kid kh d'
      \<and> dict_find kid kh d' = find2 kid kh t b \<and> dict_n d' = tb_n t + tb_n b
      \<and> dict_conf d' = dict_conf d \<and> (tb_full t (unat i) \<and> tb_full b 0 \<longrightarrow> dict_full d')
      \<and> (d_backup d' = None \<or> 0 < tb_n t \<and> d_rehash_index d' = i \<and> d_active d' = t))
    \<or> (rehash_finish d t b i = Inl (Exit ATM_ERROR) \<and> tb_n t = 0 \<and> \<not> tb_full t (unat i))"
proof -
  note v = inv [unfolded rehash_inv_def]
  have wt: "wf_table kt ok kid kh t" using v by blast
  have sz: "tb_size t = 0 \<longleftrightarrow> tb_n t = 0"
  proof -
    have "tb_size t = of_nat (tb_n t)" using wt by (simp add: wf_table_def)
    then have "unat (tb_size t) = tb_n t" using n by simp
    then show ?thesis by (metis unat_eq_zero)
  qed
  show ?thesis
  proof (cases "tb_n t = 0")
    case False
    then have "unat i < tb_slots t" using used_pos(2) [OF wt, of "unat i"] v by simp
    then show ?thesis using False sz kt inv
      by (simp add: rehash_finish_def wf_dict_def dict_pre_def dict_find_def dict_n_def dict_conf_def
          dict_full_def fun_eq_iff)
  next
    case True
    have ni: "\<not> i > tb_bktab_size t" using i by (simp add: word_less_nat_alt tb_slots_def)
    show ?thesis
    proof (cases "tb_bktab_used t = 0")
      case False
      then have "\<not> tb_full t (unat i)" using full_used_0 [OF wt _ _ True, of "unat i"] v by blast
      then show ?thesis using True False sz ni by (simp add: rehash_finish_def)
    next
      case used: True
      have "tb_find kid kh t x = None" for x
        using True tb_n_0 [of t] wt tb_idx_lt [of t kh x] by (simp add: wf_table_def tb_find_def)
      then have f: "find2 kid kh t b = tb_find kid kh b" by (simp add: find2_def fun_eq_iff)
      show ?thesis using used True sz ni table_free_ok [OF wt] kt v f
        by (simp add: rehash_finish_def wf_dict_def dict_pre_def dict_find_def dict_n_def dict_conf_def
            dict_full_def fun_eq_iff)
    qed
  qed
qed

lemma rehash_finish_step:
  fixes d :: "('k, 'v) atm_dict"
  assumes inv: "rehash_inv kt ok kid kh t b (unat i)" and i: "unat i \<le> tb_slots t"
    and n: "tb_n t < 2 ^ 32" and kt: "d_k_type d = kt"
    and f2: "find2 kid kh t b = dict_find kid kh d" and nn: "tb_n t + tb_n b = dict_n d"
    and full: "dict_full d \<longrightarrow> tb_full t (unat i) \<and> tb_full b 0"
    and prog: "0 < tb_n t \<longrightarrow> unat i = Suc (unat (d_rehash_index d)) \<and> tb_slots t = tb_slots (d_active d)"
  shows "(\<exists>d'. rehash_finish d t b i = Inr d' \<and> dict_step_ok kt ok kid kh d d')
    \<or> (rehash_finish d t b i = Inl (Exit ATM_ERROR) \<and> \<not> dict_full d)"
proof -
  from rehash_finish_ok [OF inv i n kt] consider
    (a) d' where "rehash_finish d t b i = Inr d'" "wf_dict kt ok kid kh d'"
      "dict_find kid kh d' = find2 kid kh t b" "dict_n d' = tb_n t + tb_n b" "dict_conf d' = dict_conf d"
      "tb_full t (unat i) \<and> tb_full b 0 \<longrightarrow> dict_full d'"
      "d_backup d' = None \<or> 0 < tb_n t \<and> d_rehash_index d' = i \<and> d_active d' = t"
    | (b) "rehash_finish d t b i = Inl (Exit ATM_ERROR)" "\<not> tb_full t (unat i)"
    by blast
  then show ?thesis
  proof cases
    case a
    have "d_backup d' = None \<or> (unat (d_rehash_index d') = Suc (unat (d_rehash_index d))
        \<and> tb_slots (d_active d') = tb_slots (d_active d))"
      using a(7) prog by blast
    then have "dict_step_ok kt ok kid kh d d'"
      unfolding dict_step_ok_def using a(2-6) f2 nn full by simp
    then show ?thesis using a(1) by blast
  next
    case b
    then show ?thesis using full by blast
  qed
qed

lemma rehash_start_ok:
  fixes d :: "('k, 'v) atm_dict"
  assumes pre: "dict_pre kt ok kid kh d" and n: "dict_n d < 2 ^ 27"
  shows "\<exists>b. rehash_start d = Inr b \<and> rehash_inv kt ok kid kh (d_active d) b (unat (d_rehash_index d))
    \<and> find2 kid kh (d_active d) b = dict_find kid kh d \<and> tb_n (d_active d) + tb_n b = dict_n d
    \<and> unat (d_rehash_index d) < tb_slots (d_active d) \<and> (dict_full d \<longrightarrow> tb_full b 0)"
proof (cases "d_backup d")
  case (Some b)
  then show ?thesis using pre
    by (simp add: rehash_start_def dict_pre_def dict_find_def dict_n_def dict_full_def fun_eq_iff)
next
  case None
  then have a: "d_rehash_index d = 0" "wf_table kt ok kid kh (d_active d)" "tb_uniq kid (d_active d)"
      "tb_used_ok (d_active d) 0" using pre by (simp_all add: dict_pre_def)
  have nn: "tb_n (d_active d) < 2 ^ 27" using n None by (simp add: dict_n_def)
  have "unat (tb_size (d_active d)) = tb_n (d_active d)" using a(2) nn by (simp add: wf_table_def)
  then have "unat (tb_size (d_active d) * 2) \<le> 2 ^ 28" using nn by (simp add: unat_word_ariths)
  then obtain p where p: "atm_util_next_power (tb_size (d_active d) * 2) = Some p" "4 \<le> unat p" "unat p \<le> 2 ^ 28"
    using atm_util_next_power_bound [of "tb_size (d_active d) * 2" 28] by auto
  have tb_slots: "0 < tb_slots (d_active d)" using a(2) by (simp add: wf_table_def)
  have b: "0 < unat p" "unat p < 2 ^ 29" using p(2,3) by simp_all
  note w = new_table_ok [where t = "atm_dict_table_new p :: ('k, 'v) dict_table", OF refl b]
  show ?thesis
    using None a p(1) w
    by (intro exI [of _ "atm_dict_table_new p"])
       (simp add: rehash_start_def rehash_inv_def dict_find_def dict_n_def find2_def fun_eq_iff tb_slots
          split: option.split)
qed

text \<open>
  A call of \<^verbatim>\<open>atm_dict_rehash\<close>: every lookup is kept, and it can only exit when some bucket
  still to be moved is empty.
\<close>

lemma atm_dict_rehash_ok:
  fixes d :: "('k, 'v) atm_dict"
  assumes pre: "dict_pre kt ok kid kh d" and n: "dict_n d < 2 ^ 27"
  shows "(\<exists>d'. atm_dict_rehash d = Inr d' \<and> dict_step_ok kt ok kid kh d d')
    \<or> (atm_dict_rehash d = Inl (Exit ATM_ERROR) \<and> \<not> dict_full d)"
proof -
  let ?t = "d_active d" and ?i = "d_rehash_index d"
  have kt: "d_k_type d = kt" using pre by (simp add: dict_pre_def)
  obtain b where b: "rehash_start d = Inr b" "rehash_inv kt ok kid kh ?t b (unat ?i)"
      "find2 kid kh ?t b = dict_find kid kh d" "tb_n ?t + tb_n b = dict_n d"
      "unat ?i < tb_slots ?t" "dict_full d \<longrightarrow> tb_full b 0"
    using rehash_start_ok [OF pre n] by blast
  note v = b(2) [unfolded rehash_inv_def]
  have wt: "wf_table kt ok kid kh ?t" using v by blast
  have lt: "?i < tb_bktab_size ?t" using b(5) by (simp add: word_less_nat_alt tb_slots_def)
  have nt: "tb_n ?t < 2 ^ 32" using b(4) n by simp
  have pos: "tb_bktab_size ?t \<noteq> 0" using lt by auto
  have "\<exists>nd. atm_dict_rehash_needed d = Inr nd" using pos
    by (auto simp add: atm_dict_rehash_needed_def Let_def)
  then obtain nd where nd: "atm_dict_rehash_needed d = Inr nd" by blast
  have szn: "unat (tb_size ?t) = tb_n ?t" using wt nt by (simp add: wf_table_def)
  have nd0: "nd \<Longrightarrow> d_backup d = None \<Longrightarrow> 0 < tb_n ?t"
  proof -
    assume "nd" "d_backup d = None"
    then have "tb_size ?t \<noteq> 0" using nd pos
      by (auto simp: atm_dict_rehash_needed_def Let_def force_resize_ratio_def split: if_splits)
    then show "0 < tb_n ?t" using szn by (metis gr0I unat_eq_zero)
  qed
  have fullt: "dict_full d \<longrightarrow> tb_full ?t (unat ?i)" by (simp add: dict_full_def)
  show ?thesis
  proof (cases nd)
    case False
    then have "d_backup d = None" using nd by (auto simp: atm_dict_rehash_needed_def Let_def split: if_splits)
    then show ?thesis using nd False pre by (simp add: atm_dict_rehash_def dict_step_ok_def wf_dict_def)
  next
    case True
    show ?thesis
    proof (cases "0 < tb_n ?t")
      case pos': True
      obtain t' b' where r: "rehash_round kt ?t b ?i = Inr (True, t', b', ?i + 1)"
          "rehash_inv kt ok kid kh t' b' (Suc (unat ?i))" "unat (?i + 1) = Suc (unat ?i)"
          "\<forall>x. find2 kid kh t' b' x = find2 kid kh ?t b x" "tb_n t' + tb_n b' = tb_n ?t + tb_n b"
          "tb_slots t' = tb_slots ?t"
          "tb_full ?t (unat ?i) \<and> tb_full b 0 \<longrightarrow> tb_full t' (Suc (unat ?i)) \<and> tb_full b' 0"
        using rehash_round_ok [OF b(2) pos' nt] by blast
      have rh: "atm_dict_rehash d = rehash_finish d t' b' (?i + 1)"
        using nd True b(1) lt r(1) kt by (simp add: atm_dict_rehash_def rehash_loop_time_def)
      have ti: "unat (?i + 1) \<le> tb_slots t'" using r(3,6) b(5) by simp
      have nt': "tb_n t' < 2 ^ 32" using r(5) b(4) n by simp
      have f2: "find2 kid kh t' b' = dict_find kid kh d" using r(4) b(3) by (simp add: fun_eq_iff)
      show ?thesis unfolding rh
        by (rule rehash_finish_step [OF r(2) [folded r(3)] ti nt' kt f2])
           (use r(3,5,6,7) b(4,6) fullt in auto)
    next
      case False
      then have bk: "d_backup d \<noteq> None" "tb_n ?t = 0" using nd0 True by auto
      have sz: "tb_size ?t = 0" using wt bk(2) by (simp add: wf_table_def)
      show ?thesis
      proof (cases "tb_bktab_used ?t = 0")
        case used: True
        have rr: "rehash_round kt ?t b ?i = Inr (False, ?t, b, ?i)"
          using used sz lt by (auto simp: rehash_round_def)
        have rh: "atm_dict_rehash d = rehash_finish d ?t b ?i"
          using nd True b(1) lt rr kt by (simp add: atm_dict_rehash_def rehash_loop_time_def)
        show ?thesis unfolding rh
          by (rule rehash_finish_step [OF b(2) less_imp_le [OF b(5)] nt kt b(3,4)])
             (use b(6) fullt bk(2) in auto)
      next
        case used: False
        have rr: "rehash_round kt ?t b ?i = Inl (Exit ATM_ERROR)"
          using used sz lt pos by (auto simp: rehash_round_def)
        have "\<not> tb_full ?t (unat ?i)" using full_used_0 [OF wt _ _ bk(2), of "unat ?i"] used v by blast
        then show ?thesis using nd True b(1) lt rr kt fullt
          by (simp add: atm_dict_rehash_def rehash_loop_time_def)
      qed
    qed
  qed
qed

end

end
