(* ===== verification/Atm_Dict_Ops.thy ===== *)
theory Atm_Dict_Ops
  imports Atm_Dict_Rehash
begin

text \<open>
  The operations of \<^verbatim>\<open>src/core/atm_dict.c\<close> on the abstract map \<^verbatim>\<open>dict_map\<close>, for every key
  type of the contract: what they do under the invariant, when they can exit, and the cases
  outside of it (a key stored again while its bucket waits to be moved, the last entry of
  the active table deleted, a dictionary used after \<^verbatim>\<open>atm_dict_clear\<close>). The locale
  \<^verbatim>\<open>kv_store\<close> is the contract for the commands.
\<close>

definition dict_map :: "('k \<Rightarrow> 'i) \<Rightarrow> ('i \<Rightarrow> u64) \<Rightarrow> ('k, 'v) atm_dict \<Rightarrow> 'i \<rightharpoonup> 'v" where
  "dict_map kid kh d i = Option.bind (dict_find kid kh d i) de_val"

text \<open>A key that is not waiting in a bucket that a rehash still has to move.\<close>

definition dict_fresh :: "('k \<Rightarrow> 'i) \<Rightarrow> ('i \<Rightarrow> u64) \<Rightarrow> ('k, 'v) atm_dict \<Rightarrow> 'i \<Rightarrow> bool" where
  "dict_fresh kid kh d i \<longleftrightarrow> d_backup d = None \<or> tb_find kid kh (d_active d) i = None"

context key_type
begin

lemma wf_dict_active: "dict_pre kt ok kid kh d \<Longrightarrow> wf_table kt ok kid kh (d_active d)"
  by (auto simp: dict_pre_def rehash_inv_def split: option.splits)

lemma wf_dict_backup: "dict_pre kt ok kid kh d \<Longrightarrow> d_backup d = Some b \<Longrightarrow> wf_table kt ok kid kh b"
  by (simp add: dict_pre_def rehash_inv_def)

lemma wf_dict_disjoint:
  "dict_pre kt ok kid kh d \<Longrightarrow> d_backup d = Some b \<Longrightarrow>
   tb_find kid kh (d_active d) i = None \<or> tb_find kid kh b i = None"
  by (simp add: dict_pre_def rehash_inv_def)

text \<open>Reading.\<close>

lemma atm_dict_get_tables:
  fixes d :: "('k, 'v) atm_dict"
  assumes "d_k_type d = kt" "wf_table kt ok kid kh (d_active d)"
    "\<And>b. d_backup d = Some b \<Longrightarrow> wf_table kt ok kid kh b" "ok k"
  shows "atm_dict_get d k = Inr
    (case Option.bind (tb_find kid kh (d_active d) (kid k)) de_val of Some v \<Rightarrow> Some v
     | None \<Rightarrow> (case d_backup d of None \<Rightarrow> None
         | Some b \<Rightarrow> Option.bind (tb_find kid kh b (kid k)) de_val))"
  using table_get_ok(1) [OF assms(2,4)] table_get_ok(1) [OF assms(3) assms(4)] assms(1)
  by (auto simp: atm_dict_get_def atm_dict_table_get_def [of kt None] split: option.splits)

lemma atm_dict_get_ok:
  fixes d :: "('k, 'v) atm_dict"
  assumes "wf_dict kt ok kid kh d" "ok k"
  shows "atm_dict_get d k = Inr (dict_map kid kh d (kid k))"
proof -
  have pre: "dict_pre kt ok kid kh d" using assms(1) by (simp add: wf_dict_def)
  then have kt: "d_k_type d = kt" by (simp add: dict_pre_def)
  show ?thesis
    using atm_dict_get_tables [OF kt wf_dict_active [OF pre] wf_dict_backup [OF pre] assms(2)]
      wf_dict_disjoint [OF pre, of _ "kid k"]
    by (auto simp: dict_map_def dict_find_def find2_def split: option.splits)
qed

lemma atm_dict_contains_ok:
  fixes d :: "('k, 'v) atm_dict"
  assumes "wf_dict kt ok kid kh d" "ok k"
  shows "atm_dict_contains d k = Inr (dict_find kid kh d (kid k) \<noteq> None)"
proof -
  have pre: "dict_pre kt ok kid kh d" using assms(1) by (simp add: wf_dict_def)
  then have kt: "d_k_type d = kt" by (simp add: dict_pre_def)
  show ?thesis
    using table_get_ok(2) [OF wf_dict_active [OF pre] assms(2)] table_get_ok(2) [OF wf_dict_backup [OF pre] assms(2)] kt
    by (auto simp: atm_dict_contains_def atm_dict_table_contains_def [of kt None] dict_find_def find2_def
        split: option.splits)
qed

text \<open>Writing: the table, then a step of the rehash.\<close>

definition upd_ok :: "('k, 'v) atm_dict \<Rightarrow> 'k \<Rightarrow> 'v option \<Rightarrow> ('k, 'v) atm_dict \<Rightarrow> bool" where
  "upd_ok d k v d' \<longleftrightarrow> (\<exists>e. dict_find kid kh d' = (dict_find kid kh d)(kid k \<mapsto> e) \<and> de_val e = v)
     \<and> dict_n d' = (if dict_find kid kh d (kid k) = None then dict_n d + 1 else dict_n d)
     \<and> dict_conf d' = dict_conf d \<and> (dict_full d \<longrightarrow> dict_full d')"

lemma tb_full_mono: "tb_full t 0 \<Longrightarrow> tb_full t m"
  by (auto simp: tb_full_def tb_nonnull_def)

lemma dict_set_pre:
  fixes d :: "('k, 'v) atm_dict"
  assumes wf: "wf_dict kt ok kid kh d" and k: "ok k" and fr: "dict_fresh kid kh d (kid k)"
  shows "\<exists>d1. (case d_backup d of
          Some b \<Rightarrow> res_map (\<lambda>b. d\<lparr>d_backup := Some b\<rparr>) (atm_dict_table_set kt b k v)
        | None \<Rightarrow> res_map (\<lambda>t. d\<lparr>d_active := t\<rparr>) (atm_dict_table_set kt (d_active d) k v)) = Inr d1
      \<and> dict_pre kt ok kid kh d1 \<and> upd_ok d k v d1"
proof -
  have pre: "dict_pre kt ok kid kh d" using wf by (simp add: wf_dict_def)
  show ?thesis
  proof (cases "d_backup d")
    case None
    obtain t where t: "atm_dict_table_set kt (d_active d) k v = Inr t" "wf_table kt ok kid kh t"
        "tb_bktab_size t = tb_bktab_size (d_active d)"
        "tb_n t = (if tb_find kid kh (d_active d) (kid k) = None then tb_n (d_active d) + 1 else tb_n (d_active d))"
        "\<forall>i. i \<noteq> kid k \<longrightarrow> tb_find kid kh t i = tb_find kid kh (d_active d) i"
        "\<exists>e. tb_find kid kh t (kid k) = Some e \<and> de_val e = v"
        "tb_used_ok (d_active d) 0 \<longrightarrow> tb_used_ok t 0" "tb_full (d_active d) 0 \<longrightarrow> tb_full t 0"
        "tb_uniq kid (d_active d) \<longrightarrow> tb_uniq kid t"
      using table_set_ok [OF wf_dict_active [OF pre] k, of v] by blast
    obtain e where e: "tb_find kid kh t (kid k) = Some e" "de_val e = v" using t(6) by blast
    have "tb_find kid kh t = (tb_find kid kh (d_active d))(kid k \<mapsto> e)"
      using t(5) e(1) by (auto simp: fun_eq_iff)
    then have "upd_ok d k v (d\<lparr>d_active := t\<rparr>)"
      using None t(4,8) e pre unfolding upd_ok_def
      by (auto simp: dict_find_def dict_n_def dict_conf_def dict_full_def dict_pre_def fun_eq_iff)
    moreover have "dict_pre kt ok kid kh (d\<lparr>d_active := t\<rparr>)"
      using None pre t(2,7,9) by (simp add: dict_pre_def)
    ultimately show ?thesis using None t(1) by auto
  next
    case (Some b)
    have fr': "tb_find kid kh (d_active d) (kid k) = None" using fr Some by (simp add: dict_fresh_def)
    obtain t where t: "atm_dict_table_set kt b k v = Inr t" "wf_table kt ok kid kh t"
        "tb_n t = (if tb_find kid kh b (kid k) = None then tb_n b + 1 else tb_n b)"
        "\<forall>i. i \<noteq> kid k \<longrightarrow> tb_find kid kh t i = tb_find kid kh b i"
        "\<exists>e. tb_find kid kh t (kid k) = Some e \<and> de_val e = v"
        "tb_used_ok b 0 \<longrightarrow> tb_used_ok t 0" "tb_full b 0 \<longrightarrow> tb_full t 0"
        "tb_uniq kid b \<longrightarrow> tb_uniq kid t"
      using table_set_ok [OF wf_dict_backup [OF pre Some] k, of v] by blast
    obtain e where e: "tb_find kid kh t (kid k) = Some e" "de_val e = v" using t(5) by blast
    have f2: "find2 kid kh (d_active d) t = (find2 kid kh (d_active d) b)(kid k \<mapsto> e)"
      using t(4) e(1) fr' by (auto simp: fun_eq_iff find2_def split: option.split)
    have df: "dict_find kid kh (d\<lparr>d_backup := Some t\<rparr>) = (dict_find kid kh d)(kid k \<mapsto> e)"
      using Some f2 by (simp add: dict_find_def fun_eq_iff)
    have dn: "dict_find kid kh d (kid k) = tb_find kid kh b (kid k)"
      using Some fr' by (simp add: dict_find_def find2_def)
    have "upd_ok d k v (d\<lparr>d_backup := Some t\<rparr>)"
      unfolding upd_ok_def df dn using Some t(3,7) e(2)
      by (simp add: dict_n_def dict_conf_def dict_full_def) blast
    moreover have "dict_pre kt ok kid kh (d\<lparr>d_backup := Some t\<rparr>)"
    proof -
      have "tb_find kid kh (d_active d) x = None \<or> tb_find kid kh t x = None" for x
        using wf_dict_disjoint [OF pre Some, of x] t(4) fr' by (cases "x = kid k") simp_all
      then show ?thesis using Some pre t(2,6,8) by (simp add: dict_pre_def rehash_inv_def)
    qed
    ultimately show ?thesis using Some t(1) by auto
  qed
qed

lemma atm_dict_set_ok:
  fixes d :: "('k, 'v) atm_dict"
  assumes wf: "wf_dict kt ok kid kh d" and k: "ok k" and fr: "dict_fresh kid kh d (kid k)"
    and n: "dict_n d + 1 < 2 ^ 27"
  shows "(\<exists>d'. atm_dict_set d k v = Inr d' \<and> wf_dict kt ok kid kh d' \<and> upd_ok d k v d')
    \<or> (atm_dict_set d k v = Inl (Exit ATM_ERROR) \<and> \<not> dict_full d)"
proof -
  have kt: "d_k_type d = kt" using wf by (simp add: wf_dict_def dict_pre_def)
  obtain d1 where d1: "(case d_backup d of
          Some b \<Rightarrow> res_map (\<lambda>b. d\<lparr>d_backup := Some b\<rparr>) (atm_dict_table_set kt b k v)
        | None \<Rightarrow> res_map (\<lambda>t. d\<lparr>d_active := t\<rparr>) (atm_dict_table_set kt (d_active d) k v)) = Inr d1"
      "dict_pre kt ok kid kh d1" "upd_ok d k v d1"
    using dict_set_pre [OF wf k fr] by blast
  have n1: "dict_n d1 < 2 ^ 27" using d1(3) n by (simp add: upd_ok_def split: if_splits)
  have s: "atm_dict_set d k v = atm_dict_rehash d1" unfolding atm_dict_set_def kt d1(1) by simp
  from atm_dict_rehash_ok [OF d1(2) n1] show ?thesis
  proof (elim disjE exE conjE)
    fix d' assume r: "atm_dict_rehash d1 = Inr d'" "dict_step_ok kt ok kid kh d1 d'"
    then have "wf_dict kt ok kid kh d' \<and> upd_ok d k v d'"
      using d1(3) by (auto simp: dict_step_ok_def upd_ok_def)
    then show ?thesis using s r(1) by auto
  next
    assume "atm_dict_rehash d1 = Inl (Exit ATM_ERROR)" "\<not> dict_full d1"
    then show ?thesis using s d1(3) by (auto simp: upd_ok_def)
  qed
qed

lemma upd_ok_map: "upd_ok d k (Some v) d' \<Longrightarrow> dict_map kid kh d' = (dict_map kid kh d)(kid k \<mapsto> v)"
  by (auto simp: upd_ok_def dict_map_def fun_eq_iff)

text \<open>Deleting: the entry goes from the table that holds it, then a step of the rehash.\<close>

lemma dict_del_pre:
  fixes d :: "('k, 'v) atm_dict"
  assumes wf: "wf_dict kt ok kid kh d" and k: "ok k"
  shows "\<exists>d1. atm_dict_del d k = res_map (Pair (case dict_find kid kh d (kid k) of
          None \<Rightarrow> ([], []) | Some e \<Rightarrow> atm_dict_entry_free d e)) (atm_dict_rehash d1)
      \<and> dict_pre kt ok kid kh d1 \<and> dict_find kid kh d1 = (dict_find kid kh d)(kid k := None)
      \<and> dict_n d1 \<le> dict_n d \<and> dict_conf d1 = dict_conf d
      \<and> d_rehash_index d1 = d_rehash_index d \<and> (d_backup d1 = None \<longleftrightarrow> d_backup d = None)
      \<and> tb_nonnull (d_active d1) = tb_nonnull (d_active d)
      \<and> tb_bktab_used (d_active d1) = tb_bktab_used (d_active d)
      \<and> tb_bktab_size (d_active d1) = tb_bktab_size (d_active d)
      \<and> tb_n (d_active d1) = (if tb_find kid kh (d_active d) (kid k) = None
          then tb_n (d_active d) else tb_n (d_active d) - 1)"
proof -
  have pre: "dict_pre kt ok kid kh d" using wf by (simp add: wf_dict_def)
  have kt: "d_k_type d = kt" using pre by (simp add: dict_pre_def)
  have uq: "tb_uniq kid (d_active d)" using pre
    by (auto simp: dict_pre_def rehash_inv_def split: option.splits)
  obtain t where t: "atm_dict_table_del kt (d_active d) k = Inr (tb_find kid kh (d_active d) (kid k), t)"
      "wf_table kt ok kid kh t" "tb_bktab_size t = tb_bktab_size (d_active d)" "tb_uniq kid t"
      "tb_n (d_active d) = (if tb_find kid kh (d_active d) (kid k) = None then tb_n t else tb_n t + 1)"
      "\<forall>i. tb_find kid kh t i = (if i = kid k then None else tb_find kid kh (d_active d) i)"
      "\<forall>m. tb_nonnull t m = tb_nonnull (d_active d) m" "tb_bktab_used t = tb_bktab_used (d_active d)"
      "\<forall>j < tb_slots (d_active d). tb_slot (d_active d) j = [] \<longrightarrow> tb_slot t j = []"
    using table_del_ok [OF wf_dict_active [OF pre] k uq] by blast
  have tn: "tb_n t = (if tb_find kid kh (d_active d) (kid k) = None
      then tb_n (d_active d) else tb_n (d_active d) - 1)" using t(5) by simp
  have us: "tb_used_ok t m" if "tb_used_ok (d_active d) m" for m using that t(7,8) by (simp add: tb_used_ok_def)
  have nn: "tb_nonnull t = tb_nonnull (d_active d)" using t(7) by (simp add: fun_eq_iff)
  have sl: "tb_slots t = tb_slots (d_active d)" using t(3) by (simp add: tb_slots_def)
  show ?thesis
  proof (cases "d_backup d")
    case None
    let ?d = "d\<lparr>d_active := t\<rparr>"
    have f: "dict_find kid kh ?d = (dict_find kid kh d)(kid k := None)"
      using None t(6) by (auto simp: dict_find_def fun_eq_iff)
    have "atm_dict_del d k = res_map (Pair (case dict_find kid kh d (kid k) of
          None \<Rightarrow> ([], []) | Some e \<Rightarrow> atm_dict_entry_free d e)) (atm_dict_rehash ?d)"
      using t(1) None kt by (simp add: atm_dict_del_def dict_find_def split: option.split)
    moreover have "dict_pre kt ok kid kh ?d" using None pre t(2,4) us by (simp add: dict_pre_def)
    ultimately show ?thesis using f t(3,8) nn tn None
      by (intro exI [of _ ?d]) (simp add: dict_n_def dict_conf_def)
  next
    case (Some b)
    have ri: "rehash_inv kt ok kid kh (d_active d) b (unat (d_rehash_index d))"
      "unat (d_rehash_index d) < tb_slots (d_active d)" using pre Some by (simp_all add: dict_pre_def)
    have em: "\<forall>j < unat (d_rehash_index d). tb_slot t j = []" using ri t(9) by (auto simp: rehash_inv_def)
    show ?thesis
    proof (cases "tb_find kid kh (d_active d) (kid k)")
      case (Some e)
      let ?d = "d\<lparr>d_active := t\<rparr>"
      have bk: "tb_find kid kh b (kid k) = None"
        using wf_dict_disjoint [OF pre \<open>d_backup d = Some b\<close>, of "kid k"] Some by simp
      have dj: "tb_find kid kh t x = None \<or> tb_find kid kh b x = None" for x
        using wf_dict_disjoint [OF pre \<open>d_backup d = Some b\<close>, of x] t(6) by auto
      have f: "dict_find kid kh ?d = (dict_find kid kh d)(kid k := None)"
        using \<open>d_backup d = Some b\<close> t(6) bk by (auto simp: dict_find_def find2_def fun_eq_iff)
      have "atm_dict_del d k = res_map (Pair (case dict_find kid kh d (kid k) of
            None \<Rightarrow> ([], []) | Some e \<Rightarrow> atm_dict_entry_free d e)) (atm_dict_rehash ?d)"
        using t(1) Some \<open>d_backup d = Some b\<close> kt by (simp add: atm_dict_del_def dict_find_def find2_def)
      moreover have "dict_pre kt ok kid kh ?d"
        using pre \<open>d_backup d = Some b\<close> ri t(2,4) us em dj sl by (simp add: dict_pre_def rehash_inv_def)
      ultimately show ?thesis using f t(3,8) nn tn \<open>d_backup d = Some b\<close> Some
        by (intro exI [of _ ?d]) (simp add: dict_n_def dict_conf_def)
    next
      case None
      obtain u where u: "atm_dict_table_del kt b k = Inr (tb_find kid kh b (kid k), u)"
          "wf_table kt ok kid kh u" "tb_uniq kid u"
          "tb_n b = (if tb_find kid kh b (kid k) = None then tb_n u else tb_n u + 1)"
          "\<forall>i. tb_find kid kh u i = (if i = kid k then None else tb_find kid kh b i)"
          "\<forall>m. tb_nonnull u m = tb_nonnull b m" "tb_bktab_used u = tb_bktab_used b"
        using table_del_ok [OF wf_dict_backup [OF pre Some] k] ri(1) unfolding rehash_inv_def by blast
      let ?d = "d\<lparr>d_active := t, d_backup := Some u\<rparr>"
      have dj: "tb_find kid kh t x = None \<or> tb_find kid kh u x = None" for x
        using wf_dict_disjoint [OF pre Some, of x] t(6) u(5) by auto
      have f: "dict_find kid kh ?d = (dict_find kid kh d)(kid k := None)"
        using Some None t(6) u(5) by (auto simp: dict_find_def find2_def fun_eq_iff split: option.split)
      have "atm_dict_del d k = res_map (Pair (case dict_find kid kh d (kid k) of
            None \<Rightarrow> ([], []) | Some e \<Rightarrow> atm_dict_entry_free d e)) (atm_dict_rehash ?d)"
        using t(1) u(1) Some None kt by (simp add: atm_dict_del_def dict_find_def find2_def)
      moreover have "dict_pre kt ok kid kh ?d"
        using pre Some ri t(2,4) u(2,3,6,7) us em dj sl
        by (simp add: dict_pre_def rehash_inv_def tb_used_ok_def)
      ultimately show ?thesis using f t(3,8) nn tn Some None u(4)
        by (intro exI [of _ ?d]) (simp add: dict_n_def dict_conf_def)
    qed
  qed
qed

lemma atm_dict_del_ok:
  fixes d :: "('k, 'v) atm_dict"
  assumes wf: "wf_dict kt ok kid kh d" and k: "ok k" and n: "dict_n d < 2 ^ 27"
  shows "(\<exists>fr d'. atm_dict_del d k = Inr (fr, d') \<and> wf_dict kt ok kid kh d'
      \<and> dict_map kid kh d' = (dict_map kid kh d)(kid k := None) \<and> dict_conf d' = dict_conf d
      \<and> fr = (case dict_find kid kh d (kid k) of None \<Rightarrow> ([], []) | Some e \<Rightarrow> atm_dict_entry_free d e))
    \<or> atm_dict_del d k = Inl (Exit ATM_ERROR)"
proof -
  obtain d1 where d1: "atm_dict_del d k = res_map (Pair (case dict_find kid kh d (kid k) of
          None \<Rightarrow> ([], []) | Some e \<Rightarrow> atm_dict_entry_free d e)) (atm_dict_rehash d1)"
      "dict_pre kt ok kid kh d1" "dict_find kid kh d1 = (dict_find kid kh d)(kid k := None)"
      "dict_n d1 \<le> dict_n d" "dict_conf d1 = dict_conf d"
    using dict_del_pre [OF wf k] by blast
  have n1: "dict_n d1 < 2 ^ 27" using d1(4) n by simp
  from atm_dict_rehash_ok [OF d1(2) n1] show ?thesis
  proof (elim disjE exE conjE)
    fix d' assume r: "atm_dict_rehash d1 = Inr d'" "dict_step_ok kt ok kid kh d1 d'"
    have "dict_map kid kh d' = (dict_map kid kh d)(kid k := None)"
      using r(2) d1(3) by (auto simp: dict_step_ok_def dict_map_def fun_eq_iff)
    then show ?thesis using d1(1,5) r by (simp add: dict_step_ok_def)
  next
    assume "atm_dict_rehash d1 = Inl (Exit ATM_ERROR)"
    then show ?thesis using d1(1) by simp
  qed
qed

text \<open>Below the load at which a rehash starts, deleting returns.\<close>

lemma atm_dict_del_no_rehash:
  fixes d :: "('k, 'v) atm_dict"
  assumes wf: "wf_dict kt ok kid kh d" and k: "ok k" and nb: "d_backup d = None" "d_enable_resize d"
    and n: "tb_n (d_active d) < tb_slots (d_active d)" "dict_n d < 2 ^ 27"
  shows "atm_dict_del d k \<noteq> Inl (Exit ATM_ERROR)"
proof -
  from dict_del_pre [OF wf k] obtain d1 where d1: "atm_dict_del d k = res_map (Pair (case dict_find kid kh d (kid k) of
          None \<Rightarrow> ([], []) | Some e \<Rightarrow> atm_dict_entry_free d e)) (atm_dict_rehash d1)"
      "dict_pre kt ok kid kh d1" "dict_find kid kh d1 = (dict_find kid kh d)(kid k := None)"
      "dict_n d1 \<le> dict_n d" "dict_conf d1 = dict_conf d"
      "d_rehash_index d1 = d_rehash_index d" "d_backup d1 = None \<longleftrightarrow> d_backup d = None"
      "tb_nonnull (d_active d1) = tb_nonnull (d_active d)"
      "tb_bktab_used (d_active d1) = tb_bktab_used (d_active d)"
      "tb_bktab_size (d_active d1) = tb_bktab_size (d_active d)"
      "tb_n (d_active d1) = (if tb_find kid kh (d_active d) (kid k) = None
          then tb_n (d_active d) else tb_n (d_active d) - 1)"
    by (elim exE conjE) (rule that)
  have b1: "d_backup d1 = None" and e1: "d_enable_resize d1" using d1(5,7) nb by (simp_all add: dict_conf_def)
  have le: "tb_n (d_active d1) \<le> tb_n (d_active d)" using d1(4) nb(1) b1 by (simp add: dict_n_def)
  have "tb_size (d_active d1) = of_nat (tb_n (d_active d1))" using wf_dict_active [OF d1(2)] by (simp add: wf_table_def)
  moreover have "tb_n (d_active d1) < 2 ^ 27" using le n(2) nb(1) by (simp add: dict_n_def)
  ultimately have "\<not> tb_bktab_size (d_active d1) \<le> tb_size (d_active d1)"
    using le n(1) d1(10) by (simp add: word_le_nat_alt tb_slots_def)
  then show ?thesis using d1(1) b1 e1 by (simp add: atm_dict_rehash_def atm_dict_rehash_needed_def Let_def)
qed

text \<open>The last entry of the active table deleted during a rehash: the process exits.\<close>

lemma atm_dict_del_last_exits:
  fixes d :: "('k, 'v) atm_dict"
  assumes wf: "wf_dict kt ok kid kh d" and k: "ok k" and b: "d_backup d \<noteq> None"
    and last: "tb_n (d_active d) = 1" "tb_find kid kh (d_active d) (kid k) \<noteq> None"
  shows "atm_dict_del d k = Inl (Exit ATM_ERROR)"
proof -
  have pre: "dict_pre kt ok kid kh d" using wf by (simp add: wf_dict_def)
  obtain c where c: "d_backup d = Some c" using b by blast
  from dict_del_pre [OF wf k] obtain d1 where d1: "atm_dict_del d k = res_map (Pair (case dict_find kid kh d (kid k) of
          None \<Rightarrow> ([], []) | Some e \<Rightarrow> atm_dict_entry_free d e)) (atm_dict_rehash d1)"
      "dict_pre kt ok kid kh d1" "dict_find kid kh d1 = (dict_find kid kh d)(kid k := None)"
      "dict_n d1 \<le> dict_n d" "dict_conf d1 = dict_conf d"
      "d_rehash_index d1 = d_rehash_index d" "d_backup d1 = None \<longleftrightarrow> d_backup d = None"
      "tb_nonnull (d_active d1) = tb_nonnull (d_active d)"
      "tb_bktab_used (d_active d1) = tb_bktab_used (d_active d)"
      "tb_bktab_size (d_active d1) = tb_bktab_size (d_active d)"
      "tb_n (d_active d1) = (if tb_find kid kh (d_active d) (kid k) = None
          then tb_n (d_active d) else tb_n (d_active d) - 1)"
    by (elim exE conjE) (rule that)
  obtain c1 where c1: "d_backup d1 = Some c1" using d1(7) b by blast
  have ri: "rehash_inv kt ok kid kh (d_active d) c (unat (d_rehash_index d))"
    "unat (d_rehash_index d) < tb_slots (d_active d)" using pre c by (simp_all add: dict_pre_def)
  have "tb_bktab_used (d_active d) \<noteq> 0"
    using used_pos(1) [of kt ok kid kh "d_active d" "unat (d_rehash_index d)"] ri(1) last(1)
    by (simp add: rehash_inv_def)
  moreover have "tb_size (d_active d1) = 0"
    using wf_dict_active [OF d1(2)] d1(11) last by (simp add: wf_table_def)
  moreover have "d_rehash_index d1 < tb_bktab_size (d_active d1)"
    using ri(2) d1(6,10) by (simp add: word_less_nat_alt tb_slots_def)
  ultimately have "atm_dict_rehash d1 = Inl (Exit ATM_ERROR)"
    using c1 d1(2,9) by (auto simp: atm_dict_rehash_def atm_dict_rehash_needed_def rehash_start_def
        rehash_loop_time_def rehash_round_def Let_def)
  then show ?thesis using d1(1) by simp
qed

text \<open>
  A key stored while its bucket waits to be moved: the new value goes to the backup table, and
  the active table, which is searched first, still has the old one.
\<close>

lemma atm_dict_set_stale:
  fixes d :: "('k, 'v) atm_dict"
  assumes wf: "wf_dict kt ok kid kh d" and k: "ok k" and bk: "d_backup d = Some b"
    and old: "tb_find kid kh (d_active d) (kid k) = Some e" "de_val e = Some v0"
    and later: "tb_idx kh (d_active d) (kid k) \<noteq> unat (d_rehash_index d)"
    and n: "dict_n d + 1 < 2 ^ 27"
  shows "\<exists>d'. atm_dict_set d k v = Inr d' \<and> atm_dict_get d' k = Inr (Some v0)"
proof -
  let ?t = "d_active d" and ?i = "d_rehash_index d"
  have pre: "dict_pre kt ok kid kh d" using wf by (simp add: wf_dict_def)
  have kt: "d_k_type d = kt" using pre by (simp add: dict_pre_def)
  have ri: "rehash_inv kt ok kid kh ?t b (unat ?i)" "unat ?i < tb_slots ?t"
    using pre bk by (simp_all add: dict_pre_def)
  have wt: "wf_table kt ok kid kh ?t" "tb_used_ok ?t (unat ?i)" "\<forall>j < unat ?i. tb_slot ?t j = []"
    using ri(1) by (simp_all add: rehash_inv_def)
  obtain b1 where b1: "atm_dict_table_set kt b k v = Inr b1" "wf_table kt ok kid kh b1"
    using table_set_ok [OF wf_dict_backup [OF pre bk] k, of v] by blast
  have npos: "0 < tb_n ?t" "tb_n ?t < 2 ^ 32" using wf bk n by (simp_all add: wf_dict_def dict_n_def)
  obtain t' b' where r: "rehash_round kt ?t b1 ?i = Inr (True, t', b', ?i + 1)"
      "wf_table kt ok kid kh t'" "wf_table kt ok kid kh b'" "tb_n t' + tb_n b' = tb_n ?t + tb_n b1"
      "\<forall>x. tb_find kid kh t' x = (if tb_idx kh ?t x = unat ?i then None else tb_find kid kh ?t x)"
    using rehash_round_step [OF wt(1) b1(2) wt(2,3) npos] by blast
  have f: "tb_find kid kh t' (kid k) = Some e" using r(5) later old(1) by simp
  have nz: "tb_size t' \<noteq> 0"
  proof -
    have "tb_n t' \<noteq> 0"
      using f tb_n_0 [of t'] r(2) tb_idx_lt [of t' kh "kid k"] by (auto simp: wf_table_def tb_find_def)
    moreover have "tb_n b1 \<le> tb_n b + 1"
      using table_set_ok [OF wf_dict_backup [OF pre bk] k, of v] b1(1) by auto
    then have "tb_n t' < 2 ^ 32" using r(4) n bk by (simp add: dict_n_def)
    ultimately have "unat (of_nat (tb_n t') :: u32) \<noteq> 0" by simp
    then show ?thesis using r(2) by (auto simp: wf_table_def)
  qed
  let ?d = "d\<lparr>d_active := t', d_backup := Some b', d_rehash_index := ?i + 1\<rparr>"
  have lt: "?i < tb_bktab_size ?t" using ri(2) by (simp add: word_less_nat_alt tb_slots_def)
  have s: "atm_dict_set d k v = Inr ?d"
    using bk b1(1) r(1) nz lt kt
    by (simp add: atm_dict_set_def atm_dict_rehash_def atm_dict_rehash_needed_def rehash_start_def
        rehash_loop_time_def rehash_finish_def)
  have kt': "d_k_type ?d = kt" using kt by simp
  have "atm_dict_get ?d k = Inr (Some v0)"
    using atm_dict_get_tables [OF kt' _ _ k] r(2,3) f old(2) by simp
  with s show ?thesis by blast
qed

lemma free_slots_ok:
  "\<forall>s \<in> set xs. wf_slot kt s \<Longrightarrow>
   free_slots xs = Inr (map (\<lambda>s. if s = Slot_null then Slot_null else Slot_freed) xs)"
proof (induction xs)
  case (Cons x xs)
  have "atm_dict_bucket_free x = Inr (if x = Slot_null then Slot_null else Slot_freed)"
  proof (cases x)
    case (Slot_bkt l)
    then have l: "wf_list l" "l_free_type l = ATM_FREE_SHALLOW" using Cons.prems by (simp_all add: wf_slot_def list_type_def)
    then have "list_frees l" by (simp add: list_frees_def)
    with atm_list_clear_vals [OF l(1)] show ?thesis
      using Slot_bkt l(2) by (auto simp: atm_dict_bucket_free_def atm_list_free_def)
  qed (use Cons.prems in \<open>simp_all add: atm_dict_bucket_free_def wf_slot_def\<close>)
  then show ?case using Cons by simp
qed simp

lemma hkey_size:
  assumes "tb_bktab_size t' = tb_bktab_size t"
  shows "atm_dict_hkey kt t' k = atm_dict_hkey kt t k"
  unfolding atm_dict_hkey_def assms ..

text \<open>
  A dictionary after \<^verbatim>\<open>atm_dict_clear\<close>: seven eighths of the slots still point to the freed
  buckets, and a lookup that hashes to one of them reads it.
\<close>

lemma atm_dict_clear_dangles:
  fixes d :: "('k, 'v) atm_dict"
  assumes wf: "wf_dict kt ok kid kh d" and k: "ok k" and bk: "d_backup d = None"
    and there: "tb_find kid kh (d_active d) (kid k) \<noteq> None"
    and high: "tb_slots (d_active d) div 8 \<le> tb_idx kh (d_active d) (kid k)"
  shows "\<exists>d'. atm_dict_clear d = Inr d' \<and> atm_dict_size d' = 0
    \<and> atm_dict_get d' k = Inl Bad_access"
proof -
  let ?t = "d_active d" and ?j = "tb_idx kh (d_active d) (kid k)"
  have pre: "dict_pre kt ok kid kh d" using wf by (simp add: wf_dict_def)
  have kt: "d_k_type d = kt" using pre by (simp add: dict_pre_def)
  note wt = wf_dict_active [OF pre]
  have len: "length (tb_bktab ?t) = tb_slots ?t" and j: "?j < tb_slots ?t"
    using wt tb_idx_lt [of ?t kh "kid k"] by (simp_all add: wf_table_def)
  have ws: "\<forall>s \<in> set (tb_bktab ?t). wf_slot kt s" using wt by (auto simp: wf_table_def in_set_conv_nth)
  let ?fs = "map (\<lambda>s. if s = Slot_null then Slot_null else Slot_freed) (tb_bktab ?t) :: ('k, 'v) bslot list"
  let ?t' = "?t\<lparr>tb_bktab := clear_memset (tb_bktab_size ?t) ?fs, tb_bktab_used := 0, tb_size := 0\<rparr>"
  have c: "atm_dict_table_clear ?t = Inr ?t'"
    using free_slots_ok [OF ws] len by (simp add: atm_dict_table_clear_def tb_slots_def)
  let ?d = "d\<lparr>d_active := ?t', d_backup := None, d_rehash_index := 0\<rparr>"
  have cd: "atm_dict_clear d = Inr ?d" using c bk by (simp add: atm_dict_clear_def atm_dict_table_free_def)
  have "tb_slot ?t ?j \<noteq> []" using there by (auto simp: tb_find_def)
  then have nn: "tb_bktab ?t ! ?j \<noteq> Slot_null" by (rule tb_nonempty_nonnull)
  have cl: "length (tb_bktab ?t') = tb_slots ?t" "tb_bktab ?t' ! ?j = Slot_freed"
    using high j len nn by (simp_all add: clear_memset_def tb_slots_def nth_append)
  obtain i where i: "atm_dict_hkey kt ?t k = Inr i" "unat i = ?j" using hkey_ok [OF wt k] by blast
  have "tb_bktab_size ?t' = tb_bktab_size ?t" by simp
  from hkey_size [OF this] have "atm_dict_hkey kt ?t' k = Inr i" using i(1) by simp
  then have "atm_dict_bucket kt ?t' k = Inl Bad_access"
    using i(2) cl j by (simp add: atm_dict_bucket_def slot_list_def)
  then have "atm_dict_get ?d k = Inl Bad_access"
    using kt by (simp add: atm_dict_get_def atm_dict_table_get_def atm_dict_entry_def)
  moreover have "atm_dict_size ?d = 0" by (simp add: atm_dict_size_def atm_dict_get_size_def)
  ultimately show ?thesis using cd by auto
qed

end

section \<open>A rehash ends\<close>

fun rehash_times :: "nat \<Rightarrow> ('k, 'v) atm_dict \<Rightarrow> ('k, 'v) atm_dict res" where
  "rehash_times 0 d = Inr d"
| "rehash_times (Suc n) d = res_bind (atm_dict_rehash d) (rehash_times n)"

context key_type
begin

lemma rehash_completes:
  fixes d :: "('k, 'v) atm_dict"
  assumes "wf_dict kt ok kid kh d" "dict_full d" "d_backup d \<noteq> None" "dict_n d < 2 ^ 27"
  shows "\<exists>n d'. n \<le> tb_slots (d_active d) - unat (d_rehash_index d) \<and> rehash_times n d = Inr d'
    \<and> d_backup d' = None \<and> wf_dict kt ok kid kh d' \<and> dict_find kid kh d' = dict_find kid kh d"
  using assms
proof (induction "tb_slots (d_active d) - unat (d_rehash_index d)" arbitrary: d rule: less_induct)
  case less
  have pre: "dict_pre kt ok kid kh d" using less.prems(1) by (simp add: wf_dict_def)
  have lt: "unat (d_rehash_index d) < tb_slots (d_active d)"
    using pre less.prems(3) by (auto simp: dict_pre_def split: option.splits)
  obtain d1 where d1: "atm_dict_rehash d = Inr d1" "dict_step_ok kt ok kid kh d d1"
    using atm_dict_rehash_ok [OF pre less.prems(4)] less.prems(2) by blast
  note s = d1(2) [unfolded dict_step_ok_def]
  show ?case
  proof (cases "d_backup d1")
    case None
    then show ?thesis using d1(1) s lt by (intro exI [of _ 1] exI [of _ d1]) simp
  next
    case (Some c)
    then have p: "unat (d_rehash_index d1) = Suc (unat (d_rehash_index d))"
        "tb_slots (d_active d1) = tb_slots (d_active d)" using s less.prems(3) by auto
    have dec: "tb_slots (d_active d1) - unat (d_rehash_index d1)
        < tb_slots (d_active d) - unat (d_rehash_index d)" using p lt by simp
    obtain n d' where r: "n \<le> tb_slots (d_active d1) - unat (d_rehash_index d1)" "rehash_times n d1 = Inr d'"
        "d_backup d' = None" "wf_dict kt ok kid kh d'" "dict_find kid kh d' = dict_find kid kh d1"
      using less.hyps [OF dec] s less.prems(2,4) Some by auto
    show ?thesis using r d1(1) s dec by (intro exI [of _ "Suc n"] exI [of _ d']) simp
  qed
qed

end

section \<open>The contract for the commands\<close>

text \<open>
  A store of values under keys with an identity. \<^verbatim>\<open>room\<close> is what the provider needs of the
  state for a key to be stored. The client's lemma: what a sequence of stores leaves behind.
\<close>

fun set_all :: "('d \<Rightarrow> 'k \<Rightarrow> 'v \<Rightarrow> 'd res) \<Rightarrow> 'd \<Rightarrow> ('k \<times> 'v) list \<Rightarrow> 'd res" where
  "set_all f d [] = Inr d"
| "set_all f d ((k, v) # kvs) = res_bind (f d k v) (\<lambda>d. set_all f d kvs)"

locale kv_store =
  fixes wf :: "'d \<Rightarrow> bool" and lookup :: "'d \<Rightarrow> 'i \<rightharpoonup> 'v" and ok :: "'k \<Rightarrow> bool" and kid :: "'k \<Rightarrow> 'i"
    and room :: "'d \<Rightarrow> 'k \<Rightarrow> bool" and count :: "'d \<Rightarrow> nat" and put :: "'d \<Rightarrow> 'k \<Rightarrow> 'v \<Rightarrow> 'd res"
    and get :: "'d \<Rightarrow> 'k \<Rightarrow> 'v option res" and cap :: nat
  assumes put_law: "wf d \<Longrightarrow> ok k \<Longrightarrow> room d k \<Longrightarrow>
      \<exists>d'. put d k v = Inr d' \<and> wf d' \<and> lookup d' = (lookup d)(kid k \<mapsto> v) \<and> count d' \<le> count d + 1"
    and get_law: "wf d \<Longrightarrow> ok k \<Longrightarrow> get d k = Inr (lookup d (kid k))"
    and room_law: "wf d \<Longrightarrow> ok k \<Longrightarrow> lookup d (kid k) = None \<Longrightarrow> count d + 1 < cap \<Longrightarrow> room d k"
begin

lemma put_get:
  assumes "wf d" "ok k" "room d k" "ok k'"
  shows "\<exists>d'. put d k v = Inr d' \<and> wf d'
    \<and> get d' k' = Inr (if kid k' = kid k then Some v else lookup d (kid k'))"
proof -
  obtain d' where "put d k v = Inr d'" "wf d'" "lookup d' = (lookup d)(kid k \<mapsto> v)"
    using put_law [OF assms(1-3), of v] by blast
  then show ?thesis using get_law [OF _ assms(4), of d'] by auto
qed

text \<open>Loading keys that differ from each other and from those in the store.\<close>

lemma put_all:
  assumes "wf d" "\<forall>kv \<in> set kvs. ok (fst kv) \<and> lookup d (kid (fst kv)) = None"
    "distinct (map (kid \<circ> fst) kvs)" "count d + length kvs < cap"
  shows "\<exists>d'. set_all put d kvs = Inr d' \<and> wf d'
    \<and> lookup d' = lookup d ++ map_of (map (\<lambda>kv. (kid (fst kv), snd kv)) kvs)"
  using assms
proof (induction kvs arbitrary: d)
  case (Cons kv kvs)
  obtain k v where kv: "kv = (k, v)" by (cases kv)
  have k: "ok k" "lookup d (kid k) = None" using Cons.prems(2) kv by simp_all
  obtain d1 where d1: "put d k v = Inr d1" "wf d1" "lookup d1 = (lookup d)(kid k \<mapsto> v)"
      "count d1 \<le> count d + 1"
    using put_law [OF Cons.prems(1) k(1) room_law [OF Cons.prems(1) k]] Cons.prems(4) by auto
  have n: "kid k \<notin> (kid \<circ> fst) ` set kvs" "distinct (map (kid \<circ> fst) kvs)"
    using Cons.prems(3) kv by (simp_all add: comp_def)
  have "\<forall>x \<in> set kvs. ok (fst x) \<and> lookup d1 (kid (fst x)) = None"
    using Cons.prems(2) n(1) d1(3) by (auto simp: image_iff)
  moreover have "count d1 + length kvs < cap" using Cons.prems(4) d1(4) by simp
  ultimately obtain d' where d': "set_all put d1 kvs = Inr d'" "wf d'"
      "lookup d' = lookup d1 ++ map_of (map (\<lambda>kv. (kid (fst kv), snd kv)) kvs)"
    using Cons.IH [OF d1(2) _ n(2)] by blast
  have nm: "kid k \<notin> dom (map_of (map (\<lambda>kv. (kid (fst kv), snd kv)) kvs))"
    using n(1) by (auto simp: dom_map_of_conv_image_fst image_iff)
  have "lookup d' = lookup d ++ map_of (map (\<lambda>kv. (kid (fst kv), snd kv)) (kv # kvs))"
  proof
    fix x
    have "lookup d' x = (case map_of (map (\<lambda>kv. (kid (fst kv), snd kv)) kvs) x of
        None \<Rightarrow> lookup d1 x | Some y \<Rightarrow> Some y)"
      using d'(3) by (simp add: map_add_def)
    then show "lookup d' x = (lookup d ++ map_of (map (\<lambda>kv. (kid (fst kv), snd kv)) (kv # kvs))) x"
      using nm d1(3) kv by (cases "x = kid k") (simp_all add: map_add_def domIff split: option.split)
  qed
  moreover have "set_all put d (kv # kvs) = Inr d'" using d1(1) d'(1) kv by simp
  ultimately show ?case using d'(2) by blast
qed simp

end

text \<open>The dictionary keeps the contract, for every key type that keeps its own.\<close>

definition dict_store ::
  "'k atm_T \<Rightarrow> ('k \<Rightarrow> bool) \<Rightarrow> ('k \<Rightarrow> 'i) \<Rightarrow> ('i \<Rightarrow> u64) \<Rightarrow> ('k, 'v) atm_dict \<Rightarrow> bool" where
  "dict_store kt ok kid kh d \<longleftrightarrow> wf_dict kt ok kid kh d \<and> dict_full d
     \<and> (\<forall>i e. dict_find kid kh d i = Some e \<longrightarrow> de_val e \<noteq> None)"

definition dict_room :: "('k \<Rightarrow> 'i) \<Rightarrow> ('i \<Rightarrow> u64) \<Rightarrow> ('k, 'v) atm_dict \<Rightarrow> 'k \<Rightarrow> bool" where
  "dict_room kid kh d k \<longleftrightarrow> dict_fresh kid kh d (kid k) \<and> dict_n d + 1 < 2 ^ 27"

context key_type
begin

lemma dict_is_store:
  "kv_store (dict_store kt ok kid kh) (dict_map kid kh) ok kid (dict_room kid kh) dict_n
     (\<lambda>d k v. atm_dict_set d k (Some v)) atm_dict_get (2 ^ 27)"
proof unfold_locales
  fix d :: "('k, 'v) atm_dict" and k v
  assume d: "dict_store kt ok kid kh d" and k: "ok k" and r: "dict_room kid kh d k"
  have wf: "wf_dict kt ok kid kh d" and full: "dict_full d"
    and some: "\<forall>i e. dict_find kid kh d i = Some e \<longrightarrow> de_val e \<noteq> None"
    using d by (simp_all add: dict_store_def)
  have fr: "dict_fresh kid kh d (kid k)" "dict_n d + 1 < 2 ^ 27" using r by (simp_all add: dict_room_def)
  obtain d' where d': "atm_dict_set d k (Some v) = Inr d'" "wf_dict kt ok kid kh d'" "upd_ok d k (Some v) d'"
    using atm_dict_set_ok [OF wf k fr, of "Some v"] full by blast
  have "dict_store kt ok kid kh d'"
    using d'(2,3) full some by (auto simp: dict_store_def upd_ok_def split: if_splits)
  moreover have "dict_n d' \<le> dict_n d + 1" using d'(3) by (simp add: upd_ok_def)
  ultimately show "\<exists>d'. atm_dict_set d k (Some v) = Inr d' \<and> dict_store kt ok kid kh d'
      \<and> dict_map kid kh d' = (dict_map kid kh d)(kid k \<mapsto> v) \<and> dict_n d' \<le> dict_n d + 1"
    using d'(1) upd_ok_map [OF d'(3)] by blast
next
  fix d :: "('k, 'v) atm_dict" and k
  assume "dict_store kt ok kid kh d" "ok k"
  then show "atm_dict_get d k = Inr (dict_map kid kh d (kid k))"
    using atm_dict_get_ok [of d k] by (simp add: dict_store_def)
next
  fix d :: "('k, 'v) atm_dict" and k
  assume d: "dict_store kt ok kid kh d" and "ok k" and l: "dict_map kid kh d (kid k) = None"
    and n: "dict_n d + 1 < 2 ^ 27"
  have "dict_find kid kh d (kid k) = None"
    using d l by (cases "dict_find kid kh d (kid k)") (fastforce simp: dict_store_def dict_map_def)+
  then have "dict_fresh kid kh d (kid k)"
    by (auto simp: dict_fresh_def dict_find_def find2_def split: option.splits)
  then show "dict_room kid kh d k" using n by (simp add: dict_room_def)
qed

lemma dict_store_new: "dict_store kt ok kid kh (atm_dict_new kt vt f :: ('k, 'v) atm_dict)"
  using wf_dict_new [where vt = vt and f = f] by (simp add: dict_store_def)

end

end
