(* ===== verification/Atm_Obj.thy ===== *)
theory Atm_Obj
  imports Atm_Str Atm_Dict_Ops
begin

text \<open>
  \<^verbatim>\<open>src/core/atm_obj.c\<close>: values boxed with the operations of their type, the keys and values
  of the cache. The operations of the type tables take pointers, which may be NULL; the
  containers hold objects. The lemmas: a boxed string keeps the contract of a key type,
  its identity is its text; with that the dictionary of boxed strings, which is the cache,
  and the dictionary of strings, which is the command table, keep the contract \<^verbatim>\<open>kv_store\<close>.
\<close>

record 'v atm_obj =
  o_type :: "'v atm_T option"
  o_value :: 'v

definition atm_obj_new :: "'v atm_T option \<Rightarrow> 'v \<Rightarrow> 'v atm_obj" where
  "atm_obj_new type v = \<lparr>o_type = type, o_value = v\<rparr>"

text \<open>
  The test for equal value pointers is a shortcut of the call of \<^verbatim>\<open>match\<close>: values are not
  given addresses here, and the match functions of the types hold for a value and itself.
\<close>

definition atm_obj_match :: "'v atm_obj option \<Rightarrow> 'v atm_obj option \<Rightarrow> bool res" where
  "atm_obj_match v1 v2 =
     (case (v1, v2) of
        (None, None) \<Rightarrow> Inr True
      | (Some o1, Some o2) \<Rightarrow>
          if map_option T_id (o_type o1) \<noteq> map_option T_id (o_type o2) then Inr False
          else (case o_type o1 of
                  None \<Rightarrow> Inr False
                | Some t \<Rightarrow> (case T_match t of None \<Rightarrow> Inr False
                    | Some m \<Rightarrow> m (o_value o1) (o_value o2)))
      | _ \<Rightarrow> Inr False)"

definition atm_obj_hash :: "'v atm_obj option \<Rightarrow> u64 res" where
  "atm_obj_hash v =
     (case v of None \<Rightarrow> Inr 0
      | Some ob \<Rightarrow> (case o_type ob of None \<Rightarrow> Inr 0
          | Some t \<Rightarrow> (case T_hash t of None \<Rightarrow> Inr 0 | Some h \<Rightarrow> h (o_value ob))))"

text \<open>\<^verbatim>\<open>compare\<close> is called without a test for NULL.\<close>

definition atm_obj_compare :: "'v atm_obj option \<Rightarrow> 'v atm_obj option \<Rightarrow> int res" where
  "atm_obj_compare v1 v2 =
     (case (v1, v2) of
        (Some o1, Some o2) \<Rightarrow>
          (case (o_type o1, o_type o2) of
             (Some t1, Some t2) \<Rightarrow>
               if T_id t1 = T_id t2 then
                 res_bind (of_some Null_deref (T_compare t1)) (\<lambda>f. f (o_value o1) (o_value o2))
               else Inr 0
           | _ \<Rightarrow> Inr 0)
      | _ \<Rightarrow> Inr 0)"

definition atm_obj_str :: "'v atm_obj option \<Rightarrow> atm_str" where
  "atm_obj_str v =
     (case v of None \<Rightarrow> None
      | Some ob \<Rightarrow> (case o_type ob of None \<Rightarrow> None
          | Some t \<Rightarrow> (case T_str t of None \<Rightarrow> None | Some f \<Rightarrow> f (o_value ob))))"

text \<open>The values that are handed to the free function of their type.\<close>

definition atm_obj_free :: "'v atm_obj option \<Rightarrow> 'v list" where
  "atm_obj_free v =
     (case v of None \<Rightarrow> []
      | Some ob \<Rightarrow> (case o_type ob of None \<Rightarrow> []
          | Some t \<Rightarrow> if T_free t then [o_value ob] else []))"

definition ATM_OBJ_T :: "'v atm_obj atm_T" where
  "ATM_OBJ_T = \<lparr>T_id = ''ATM_OBJ_TYPE'', T_match = Some (\<lambda>a b. atm_obj_match (Some a) (Some b)),
     T_hash = Some (\<lambda>a. atm_obj_hash (Some a)),
     T_compare = Some (\<lambda>a b. atm_obj_compare (Some a) (Some b)),
     T_str = Some (\<lambda>a. atm_obj_str (Some a)), T_free = True\<rparr>"

section \<open>Boxed strings are keys\<close>

definition obj_ok :: "u8 list \<Rightarrow> atm_str atm_obj \<Rightarrow> bool" where
  "obj_ok seed ob \<longleftrightarrow> o_type ob = Some (ATM_STR_T seed) \<and> str_ok (o_value ob)"

definition obj_id :: "atm_str atm_obj \<Rightarrow> char list" where
  "obj_id ob = str_id (o_value ob)"

interpretation obk: key_type ATM_OBJ_T "obj_ok seed" obj_id "text_hash seed" for seed :: "u8 list"
proof unfold_locales
  fix a b :: "atm_str atm_obj"
  assume "obj_ok seed a" "obj_ok seed b"
  then show "\<exists>m. T_match ATM_OBJ_T = Some m \<and> m a b = Inr (obj_id a = obj_id b)"
    using sk.match_ok [of "o_value a" "o_value b" seed]
    by (auto simp: ATM_OBJ_T_def atm_obj_match_def obj_ok_def obj_id_def)
next
  fix a :: "atm_str atm_obj"
  assume "obj_ok seed a"
  then show "\<exists>h. T_hash ATM_OBJ_T = Some h \<and> h a = Inr (text_hash seed (obj_id a))"
    using sk.hash_ok [of "o_value a" seed]
    by (auto simp: ATM_OBJ_T_def atm_obj_hash_def obj_ok_def obj_id_def)
qed

text \<open>The cache and the command table.\<close>

type_synonym cache = "(atm_str atm_obj, atm_str atm_obj) atm_dict"

interpretation kvc: kv_store "dict_store ATM_OBJ_T (obj_ok seed) obj_id (text_hash seed)"
    "dict_map obj_id (text_hash seed)" "obj_ok seed" obj_id "dict_room obj_id (text_hash seed)" dict_n
    "\<lambda>d k v. atm_dict_set d k (Some v)" atm_dict_get "2 ^ 27" for seed :: "u8 list"
  by (rule obk.dict_is_store)

interpretation kvs: kv_store "dict_store (ATM_STR_T seed) str_ok str_id (text_hash seed)"
    "dict_map str_id (text_hash seed)" str_ok str_id "dict_room str_id (text_hash seed)" dict_n
    "\<lambda>d k v. atm_dict_set d k (Some v)" atm_dict_get "2 ^ 27" for seed :: "u8 list"
  by (rule key_type.dict_is_store [OF sk.key_type_axioms])

end
