(* ===== verification/Atm_Dict_Props.thy ===== *)
theory Atm_Dict_Props
  imports Atm_Obj
begin

text \<open>
  The properties of the dictionary (\<^verbatim>\<open>src/core/atm_dict.c\<close>), for every table of key operations
  that keeps the contract \<^verbatim>\<open>key_type\<close>, which strings and boxed strings do. \<^verbatim>\<open>wf_dict\<close> is the
  invariant, \<^verbatim>\<open>dict_map\<close> the abstract map, \<^verbatim>\<open>dict_full\<close> says that no bucket that a rehash still
  has to move has run empty. The witnesses run the model on tables of a few buckets with
  numbers as keys, which are their own hash, and on the cache of boxed strings.
\<close>

section \<open>Concrete dictionaries\<close>

definition num_T :: "nat atm_T" where
  "num_T = \<lparr>T_id = ''NUM'', T_match = Some (\<lambda>a b. Inr (a = b)), T_hash = Some (\<lambda>k. Inr (of_nat k)),
     T_compare = None, T_str = None, T_free = True\<rparr>"

definition num_ok :: "nat \<Rightarrow> bool" where "num_ok k = True"
definition num_hash :: "nat \<Rightarrow> u64" where "num_hash k = of_nat k"

definition small_dict :: "u32 \<Rightarrow> (nat, nat) atm_dict" where
  "small_dict n = (atm_dict_new num_T (Some num_T) ATM_FREE_DEEP)\<lparr>d_active := atm_dict_table_new n\<rparr>"

definition loaded :: "u32 \<Rightarrow> (nat \<times> nat) list \<Rightarrow> (nat, nat) atm_dict" where
  "loaded n kvs = (case set_all (\<lambda>d k v. atm_dict_set d k (Some v)) (small_dict n) kvs of
     Inr d \<Rightarrow> d | Inl _ \<Rightarrow> small_dict n)"

lemma num_key: "key_type num_T num_ok id num_hash"
  by unfold_locales (simp_all add: num_T_def num_hash_def)

lemma small_dict_store:
  assumes "0 < unat n" "unat n < 2 ^ 29"
  shows "dict_store num_T num_ok id num_hash (small_dict n) \<and> dict_n (small_dict n) = 0
    \<and> dict_map id num_hash (small_dict n) = (\<lambda>_. None)"
proof -
  define t :: "(nat, nat) dict_table" where "t = atm_dict_table_new n"
  note a = key_type.new_table_ok [OF num_key t_def assms]
  define d where "d = small_dict n"
  have d: "d_active d = t" "d_backup d = None" "d_rehash_index d = 0" "d_k_type d = num_T"
    by (simp_all add: d_def small_dict_def atm_dict_new_def t_def)
  have "dict_store num_T num_ok id num_hash d \<and> dict_n d = 0 \<and> dict_map id num_hash d = (\<lambda>_. None)"
    using a d by (simp add: dict_store_def wf_dict_def dict_pre_def dict_full_def dict_find_def dict_n_def
        dict_map_def fun_eq_iff)
  then show ?thesis by (simp add: d_def)
qed

lemma loaded_store:
  assumes "0 < unat n" "unat n < 2 ^ 29" "distinct (map fst kvs)" "length kvs < 2 ^ 27"
  shows "dict_store num_T num_ok id num_hash (loaded n kvs)"
  using kv_store.put_all [OF key_type.dict_is_store [OF num_key], of "small_dict n" kvs]
    small_dict_store [OF assms(1,2)] assms(3,4)
  by (auto simp: loaded_def comp_def num_ok_def)

text \<open>
  Four buckets with four keys in the last: the rehash has passed the first, empty bucket. Two
  buckets with a key each: the rehash has moved the first key. Eight buckets with one key.
\<close>

definition D4 :: "(nat, nat) atm_dict" where "D4 = loaded 4 [(3, 1), (7, 2), (11, 3), (15, 4)]"
definition D2 :: "(nat, nat) atm_dict" where "D2 = loaded 2 [(1, 1), (0, 2)]"
definition D8 :: "(nat, nat) atm_dict" where "D8 = loaded 8 [(1, 5)]"

lemma D_store:
  "dict_store num_T num_ok id num_hash D4" "dict_store num_T num_ok id num_hash D2"
  "dict_store num_T num_ok id num_hash D8"
  by (simp_all add: D4_def D2_def D8_def loaded_store)

lemma D_wf:
  "wf_dict num_T num_ok id num_hash D4" "wf_dict num_T num_ok id num_hash D2"
  "wf_dict num_T num_ok id num_hash D8" "dict_full D4" "dict_full D2" "dict_full D8"
  using D_store by (simp_all add: dict_store_def)

lemma D4_mid:
  "Option.is_none (d_backup D4) = False \<and> d_rehash_index D4 = 1 \<and> dict_n D4 = 4
   \<and> map_option de_val (tb_find id num_hash (d_active D4) 7) = Some (Some 2)
   \<and> tb_idx num_hash (d_active D4) 7 = 3 \<and> Option.is_none (tb_find id num_hash (d_active D4) 5)"
  by code_simp

lemma D2_mid:
  "Option.is_none (d_backup D2) = False \<and> tb_n (d_active D2) = 1 \<and> dict_n D2 = 2
   \<and> Option.is_none (tb_find id num_hash (d_active D2) 1) = False"
  by code_simp

lemma D8_one:
  "Option.is_none (d_backup D8) \<and> tb_n (d_active D8) = 1 \<and> dict_n D8 = 1 \<and> d_enable_resize D8
   \<and> tb_slots (d_active D8) = 8 \<and> tb_idx num_hash (d_active D8) 1 = 1
   \<and> Option.is_none (tb_find id num_hash (d_active D8) 1) = False"
  by code_simp

lemma is_none_iff: "Option.is_none x \<longleftrightarrow> x = None"
  by (simp add: Option.is_none_def split: option.split)

section \<open>Properties\<close>



text \<open>
  Property C14. Loading the cache: keys with different texts, fewer than 2^27, stored into a
  new cache one after the other, through all the rehashes on the way, are all there
  afterwards with their values, and nothing else is.
\<close>

theorem cache_loads:
  fixes kvs :: "(atm_str atm_obj \<times> atm_str atm_obj) list"
  assumes ok: "\<forall>kv \<in> set kvs. obj_ok seed (fst kv)" and dist: "distinct (map (obj_id \<circ> fst) kvs)"
    and len: "length kvs < 2 ^ 27"
  shows "\<exists>d. set_all (\<lambda>d k v. atm_dict_set d k (Some v)) (atm_dict_new ATM_OBJ_T (Some ATM_OBJ_T) ATM_FREE_DEEP) kvs = Inr d
    \<and> (\<forall>k. obj_ok seed k \<longrightarrow> atm_dict_get d k = Inr (map_of (map (\<lambda>kv. (obj_id (fst kv), snd kv)) kvs) (obj_id k)))"
proof -
  let ?d = "atm_dict_new ATM_OBJ_T (Some ATM_OBJ_T) ATM_FREE_DEEP :: cache"
  have m: "dict_map obj_id (text_hash seed) ?d = (\<lambda>_. None)" "dict_n ?d = 0"
    using obk.wf_dict_new(3) [where vt = "Some ATM_OBJ_T :: atm_str atm_obj atm_T option" and f = ATM_FREE_DEEP and seed = seed]
      obk.wf_dict_new(4) [where vt = "Some ATM_OBJ_T :: atm_str atm_obj atm_T option" and f = ATM_FREE_DEEP]
    by (simp_all add: dict_map_def fun_eq_iff)
  have prem: "\<forall>kv \<in> set kvs. obj_ok seed (fst kv) \<and> dict_map obj_id (text_hash seed) ?d (obj_id (fst kv)) = None"
    using ok m by simp
  have len': "dict_n ?d + length kvs < 2 ^ 27" using len m by simp
  obtain d where d: "set_all (\<lambda>d k v. atm_dict_set d k (Some v)) ?d kvs = Inr d"
      "dict_store ATM_OBJ_T (obj_ok seed) obj_id (text_hash seed) d"
      "dict_map obj_id (text_hash seed) d = dict_map obj_id (text_hash seed) ?d ++ map_of (map (\<lambda>kv. (obj_id (fst kv), snd kv)) kvs)"
    using kvc.put_all [OF obk.dict_store_new prem dist len'] by blast
  show ?thesis using d m kvc.get_law [OF d(2)] by auto
qed

definition text_obj :: "u8 list \<Rightarrow> char list \<Rightarrow> atm_str atm_obj" where
  "text_obj seed t = atm_obj_new (Some (ATM_STR_T seed)) (Some (hdr_of t))"

lemma text_obj_ok:
  assumes "NUL \<notin> set t" "length t < 2 ^ 32 - 32"
  shows "obj_ok seed (text_obj seed t)" "obj_id (text_obj seed t) = t"
proof -
  have "wf_hdr (hdr_of t) \<and> str_abs (hdr_of t) = t"
  proof (rule wf_hdrI [where r = "replicate (str_room (length t) - length t) NUL"])
    have r: "str_room (length t) \<le> length t + 8" "length t < str_room (length t)" using str_room_bounds by blast+
    show "str_val (hdr_of t) = t @ NUL # replicate (str_room (length t) - length t) NUL"
      using r by (simp add: hdr_of_def Suc_diff_le)
    show "NUL \<notin> set t" by fact
    have u: "unat (of_nat (str_room (length t)) :: u32) = str_room (length t)" using r assms(2) by (intro unat_of_nat_small) simp
    have l: "unat (of_nat (length t) :: u32) = length t" using assms(2) by (intro unat_of_nat_small) simp
    show "unat (str_len (hdr_of t)) = length t" using l by (simp add: hdr_of_def)
    show "unat (str_cap (hdr_of t)) = length t + length (replicate (str_room (length t) - length t) NUL)" using u r by (simp add: hdr_of_def)
  qed
  then show "obj_ok seed (text_obj seed t)" "obj_id (text_obj seed t) = t"
    by (simp_all add: text_obj_def obj_ok_def obj_id_def str_ok_def str_id_def atm_obj_new_def)
qed

theorem cache_loads_witness:
  "\<exists>d. set_all (\<lambda>d k v. atm_dict_set d k (Some v)) (atm_dict_new ATM_OBJ_T (Some ATM_OBJ_T) ATM_FREE_DEEP)
      [(text_obj [] ''a'', text_obj [] ''1''), (text_obj [] ''b'', text_obj [] ''2'')] = Inr d
    \<and> atm_dict_get d (text_obj [] ''b'') = Inr (Some (text_obj [] ''2''))"
proof -
  have ok: "obj_ok [] (text_obj [] ''a'')" "obj_id (text_obj [] ''a'') = ''a''"
      "obj_ok [] (text_obj [] ''b'')" "obj_id (text_obj [] ''b'') = ''b''"
    by (rule text_obj_ok; simp add: NUL_def)+
  have a: "\<forall>kv \<in> set [(text_obj [] ''a'', text_obj [] ''1''), (text_obj [] ''b'', text_obj [] ''2'')]. obj_ok [] (fst kv)"
      "distinct (map (obj_id \<circ> fst) [(text_obj [] ''a'', text_obj [] ''1''), (text_obj [] ''b'', text_obj [] ''2'')])"
      "length [(text_obj [] ''a'', text_obj [] ''1''), (text_obj [] ''b'', text_obj [] ''2'')] < 2 ^ 27"
    using ok by simp_all
  obtain d where "set_all (\<lambda>d k v. atm_dict_set d k (Some v)) (atm_dict_new ATM_OBJ_T (Some ATM_OBJ_T) ATM_FREE_DEEP)
      [(text_obj [] ''a'', text_obj [] ''1''), (text_obj [] ''b'', text_obj [] ''2'')] = Inr d"
    "\<forall>k. obj_ok [] k \<longrightarrow> atm_dict_get d k = Inr (map_of (map (\<lambda>kv. (obj_id (fst kv), snd kv))
        [(text_obj [] ''a'', text_obj [] ''1''), (text_obj [] ''b'', text_obj [] ''2'')]) (obj_id k))"
    using cache_loads [OF a] by blast
  then show ?thesis using ok by (intro exI [of _ d] conjI) simp_all
qed

text \<open>
  Property C15. A step of the rehash loses and changes no entry: as long as no bucket has run
  empty the step returns, keeps the invariant, and every key reads as before.
\<close>

theorem atm_dict_rehash_keeps:
  fixes d :: "('k, 'v) atm_dict"
  assumes kt: "key_type kt ok kid kh" and wf: "wf_dict kt ok kid kh d" "dict_full d" and n: "dict_n d < 2 ^ 27"
    and k: "ok k"
  shows "\<exists>d'. atm_dict_rehash d = Inr d' \<and> wf_dict kt ok kid kh d' \<and> dict_full d'
    \<and> atm_dict_get d' k = atm_dict_get d k \<and> atm_dict_contains d' k = atm_dict_contains d k"
proof -
  have pre: "dict_pre kt ok kid kh d" using wf by (simp add: wf_dict_def)
  obtain d' where d': "atm_dict_rehash d = Inr d'" "dict_step_ok kt ok kid kh d d'"
    using key_type.atm_dict_rehash_ok [OF kt pre n] wf(2) by blast
  have w: "wf_dict kt ok kid kh d'" "dict_find kid kh d' = dict_find kid kh d" "dict_full d'"
    using d'(2) wf(2) by (simp_all add: dict_step_ok_def)
  have "dict_map kid kh d' = dict_map kid kh d" using w(2) by (simp add: dict_map_def fun_eq_iff)
  then show ?thesis
    using d'(1) w key_type.atm_dict_get_ok [OF kt w(1) k] key_type.atm_dict_get_ok [OF kt wf(1) k]
      key_type.atm_dict_contains_ok [OF kt w(1) k] key_type.atm_dict_contains_ok [OF kt wf(1) k] by simp
qed

theorem atm_dict_rehash_keeps_witness:
  "\<exists>d'. atm_dict_rehash D4 = Inr d' \<and> atm_dict_get d' 7 = atm_dict_get D4 7"
proof -
  have "num_ok 7" "dict_n D4 < 2 ^ 27" using D4_mid by (simp_all add: num_ok_def)
  with atm_dict_rehash_keeps [OF num_key D_wf(1,4)] show ?thesis by blast
qed





text \<open>
  Property C27. A key that waits in a bucket that the rehash has not reached keeps its old
  value: \<^verbatim>\<open>atm_dict_set\<close> stores the new value in the backup table and \<^verbatim>\<open>atm_dict_get\<close> right
  after it still returns the old one.
\<close>

theorem atm_dict_set_reads_stale:
  fixes d :: "('k, 'v) atm_dict"
  assumes "key_type kt ok kid kh" "wf_dict kt ok kid kh d" "ok k" "d_backup d = Some b"
    "tb_find kid kh (d_active d) (kid k) = Some e" "de_val e = Some v0"
    "tb_idx kh (d_active d) (kid k) \<noteq> unat (d_rehash_index d)" "dict_n d + 1 < 2 ^ 27"
  shows "\<exists>d'. atm_dict_set d k v = Inr d' \<and> atm_dict_get d' k = Inr (Some v0)"
  by (rule key_type.atm_dict_set_stale) (fact assms)+

theorem atm_dict_set_reads_stale_witness:
  "\<exists>d'. atm_dict_set D4 7 (Some 99) = Inr d' \<and> atm_dict_get d' 7 = Inr (Some 2)"
proof -
  obtain b where b: "d_backup D4 = Some b" using D4_mid by (auto simp: is_none_iff)
  obtain e where e: "tb_find id num_hash (d_active D4) (id 7) = Some e" "de_val e = Some 2"
    using D4_mid by auto
  have a: "num_ok 7" "tb_idx num_hash (d_active D4) (id 7) \<noteq> unat (d_rehash_index D4)" "dict_n D4 + 1 < 2 ^ 27"
    using D4_mid by (simp_all add: num_ok_def)
  show ?thesis by (rule atm_dict_set_reads_stale [OF num_key D_wf(1) a(1) b e a(2,3)])
qed

text \<open>
  Deleting the last entry of the active table during a rehash ends the process:
  the next step finds the table empty with buckets counted as used and calls \<^verbatim>\<open>exit(-1)\<close>.
\<close>

theorem atm_dict_del_last_exit:
  fixes d :: "('k, 'v) atm_dict"
  assumes "key_type kt ok kid kh" "wf_dict kt ok kid kh d" "ok k" "d_backup d \<noteq> None"
    "tb_n (d_active d) = 1" "tb_find kid kh (d_active d) (kid k) \<noteq> None"
  shows "atm_dict_del d k = Inl (Exit ATM_ERROR)"
  by (rule key_type.atm_dict_del_last_exits) (fact assms)+

theorem atm_dict_del_last_exit_witness: "atm_dict_del D2 1 = Inl (Exit ATM_ERROR)"
proof -
  have "num_ok 1" "d_backup D2 \<noteq> None" "tb_n (d_active D2) = 1" "tb_find id num_hash (d_active D2) (id 1) \<noteq> None"
    using D2_mid by (simp_all add: num_ok_def is_none_iff)
  with atm_dict_del_last_exit [OF num_key D_wf(2)] show ?thesis by blast
qed

text \<open>
  \<^verbatim>\<open>atm_dict_clear\<close> sets only one slot in eight to NULL: the dictionary counts no
  entries, but looking up a key that was in one of the other slots reads a freed bucket.
\<close>

theorem atm_dict_clear_leaves_freed:
  fixes d :: "('k, 'v) atm_dict"
  assumes "key_type kt ok kid kh" "wf_dict kt ok kid kh d" "ok k" "d_backup d = None"
    "tb_find kid kh (d_active d) (kid k) \<noteq> None"
    "tb_slots (d_active d) div 8 \<le> tb_idx kh (d_active d) (kid k)"
  shows "\<exists>d'. atm_dict_clear d = Inr d' \<and> atm_dict_size d' = 0 \<and> atm_dict_get d' k = Inl Bad_access"
  by (rule key_type.atm_dict_clear_dangles) (fact assms)+

theorem atm_dict_clear_leaves_freed_witness:
  "\<exists>d'. atm_dict_clear D8 = Inr d' \<and> atm_dict_size d' = 0 \<and> atm_dict_get d' 1 = Inl Bad_access"
proof -
  have "num_ok 1" "d_backup D8 = None" "tb_find id num_hash (d_active D8) (id 1) \<noteq> None"
      "tb_slots (d_active D8) div 8 \<le> tb_idx num_hash (d_active D8) (id 1)"
    using D8_one by (simp_all add: num_ok_def is_none_iff)
  with atm_dict_clear_leaves_freed [OF num_key D_wf(3)] show ?thesis by blast
qed

end
