(* ===== verification/Atm_Queue.thy ===== *)
theory Atm_Queue
  imports Atm_List
begin

text \<open>
  \<^verbatim>\<open>src/core/atm_queue.c\<close>: a list used as a queue, with or without blocking. A call that waits
  returns once another thread has pushed: alone, popping from an empty blocking queue is
  \<^verbatim>\<open>No_return\<close>. The threads are the step relation \<^verbatim>\<open>q_step\<close>, with waiting and popping as the
  two critical sections that they are in the code. What one consumer can rely on, and two
  cannot, follows from it.
\<close>

definition ATM_QUEUE_BLOCK :: u32 where "ATM_QUEUE_BLOCK = 1"
definition ATM_QUEUE_NONBLOCK :: u32 where "ATM_QUEUE_NONBLOCK = 2"

lemma blk_type_neq [simp]: "ATM_QUEUE_BLOCK \<noteq> ATM_QUEUE_NONBLOCK" "ATM_QUEUE_NONBLOCK \<noteq> ATM_QUEUE_BLOCK"
  by (simp_all add: ATM_QUEUE_BLOCK_def ATM_QUEUE_NONBLOCK_def)

record 'v atm_queue =
  q_blk_type :: u32
  q_vals :: "'v atm_list"

definition atm_queue_size :: "'v atm_queue option \<Rightarrow> u32" where
  "atm_queue_size queue = (case queue of None \<Rightarrow> 0 | Some q \<Rightarrow> l_size (q_vals q))"

text \<open>Whether the loop of the wait ends in this state.\<close>

definition atm_queue_nonempty_wait :: "'v atm_queue option \<Rightarrow> bool res" where
  "atm_queue_nonempty_wait queue =
     (case queue of None \<Rightarrow> Inr True
      | Some q \<Rightarrow>
          if q_blk_type q = ATM_QUEUE_BLOCK then Inr (atm_queue_size (Some q) \<noteq> 0)
          else Inl (Exit 1))"

text \<open>An unknown type: the queue is freed again and NULL returned.\<close>

definition atm_queue_free :: "'v atm_queue option \<Rightarrow> 'v list res" where
  "atm_queue_free queue =
     (case queue of None \<Rightarrow> Inr [] | Some q \<Rightarrow> atm_list_free (q_vals q))"

definition atm_queue_new :: "'v atm_T option \<Rightarrow> u32 \<Rightarrow> u32 \<Rightarrow> 'v atm_queue option res" where
  "atm_queue_new v_type f_type blk_type =
     (let q = \<lparr>q_blk_type = blk_type, q_vals = atm_list_new v_type f_type\<rparr> in
      if blk_type = ATM_QUEUE_BLOCK \<or> blk_type = ATM_QUEUE_NONBLOCK then Inr (Some q)
      else res_map (\<lambda>_. None) (atm_queue_free (Some q)))"

definition atm_queue_push :: "'v atm_queue option \<Rightarrow> 'v \<Rightarrow> 'v atm_queue option res" where
  "atm_queue_push queue val =
     (case queue of None \<Rightarrow> Inr None
      | Some q \<Rightarrow>
          if q_blk_type q = ATM_QUEUE_NONBLOCK \<or> q_blk_type q = ATM_QUEUE_BLOCK then
            res_map (\<lambda>l. Some (q\<lparr>q_vals := l\<rparr>)) (atm_list_push (q_vals q) val)
          else Inr (Some q))"

definition atm_queue_peek :: "'v atm_queue option \<Rightarrow> 'v option res" where
  "atm_queue_peek queue =
     (case queue of None \<Rightarrow> Inr None
      | Some q \<Rightarrow>
          if q_blk_type q = ATM_QUEUE_NONBLOCK then atm_list_lpeek (q_vals q)
          else if q_blk_type q = ATM_QUEUE_BLOCK then
            res_bind (atm_queue_nonempty_wait queue) (\<lambda>go.
              if go then atm_list_lpeek (q_vals q) else Inl No_return)
          else Inr None)"

definition atm_queue_pop :: "'v atm_queue option \<Rightarrow> ('v option \<times> 'v atm_queue option) res" where
  "atm_queue_pop queue =
     (case queue of None \<Rightarrow> Inr (None, None)
      | Some q \<Rightarrow>
          let take = res_map (\<lambda>(v, l). (v, Some (q\<lparr>q_vals := l\<rparr>))) (atm_list_lpop (q_vals q)) in
          if q_blk_type q = ATM_QUEUE_NONBLOCK then take
          else if q_blk_type q = ATM_QUEUE_BLOCK then
            res_bind (atm_queue_nonempty_wait queue) (\<lambda>go. if go then take else Inl No_return)
          else Inr (None, queue))"

section \<open>A queue refines a list\<close>

definition wf_queue :: "'v atm_queue \<Rightarrow> bool" where
  "wf_queue q \<longleftrightarrow> wf_list (q_vals q)
     \<and> (q_blk_type q = ATM_QUEUE_BLOCK \<or> q_blk_type q = ATM_QUEUE_NONBLOCK)"

definition queue_abs :: "'v atm_queue \<Rightarrow> 'v list" where
  "queue_abs q = list_vals (q_vals q)"

lemma atm_queue_push_abs:
  assumes "wf_queue q"
  shows "\<exists>q'. atm_queue_push (Some q) v = Inr (Some q') \<and> wf_queue q' \<and> queue_abs q' = queue_abs q @ [v]
    \<and> q_blk_type q' = q_blk_type q"
proof -
  obtain l where "atm_list_push (q_vals q) v = Inr l" "wf_list l" "list_vals l = list_vals (q_vals q) @ [v]"
    using ld.push_law [of "q_vals q" v] assms by (auto simp: wf_queue_def)
  then show ?thesis using assms
    by (intro exI [of _ "q\<lparr>q_vals := l\<rparr>"]) (auto simp: atm_queue_push_def wf_queue_def queue_abs_def)
qed

lemma lpop_abs:
  assumes "wf_queue q" "queue_abs q = v # vs"
  shows "\<exists>l. atm_list_lpop (q_vals q) = Inr (Some v, l) \<and> wf_queue (q\<lparr>q_vals := l\<rparr>) \<and> list_vals l = vs"
  using ld.lpop_law [of "q_vals q" v vs] assms by (auto simp: wf_queue_def queue_abs_def)

lemma lpop_abs_empty:
  assumes "wf_queue q" "queue_abs q = []"
  shows "atm_list_lpop (q_vals q) = Inr (None, q_vals q)"
  using ld.lpop_empty [of "q_vals q"] assms by (auto simp: wf_queue_def queue_abs_def)

lemma atm_queue_size_abs:
  assumes "wf_queue q" "length (queue_abs q) < 2 ^ 32"
  shows "atm_queue_size (Some q) = 0 \<longleftrightarrow> queue_abs q = []"
proof -
  have "l_size (q_vals q) = of_nat (length (queue_abs q))"
    using ld.count_law [of "q_vals q"] assms(1) by (simp add: wf_queue_def queue_abs_def)
  moreover have u: "unat (of_nat (length (queue_abs q)) :: u32) = length (queue_abs q)"
    using assms(2) by (intro unat_of_nat_small) simp
  have "(of_nat (length (queue_abs q)) :: u32) = 0 \<longleftrightarrow> length (queue_abs q) = 0"
    by (subst u [symmetric]) (simp only: unat_eq_zero)
  ultimately show ?thesis by (simp only: atm_queue_size_def option.case length_0_conv)
qed

lemma atm_queue_pop_abs:
  assumes wf: "wf_queue q" and n: "length (queue_abs q) < 2 ^ 32"
  shows "case queue_abs q of
      [] \<Rightarrow> atm_queue_pop (Some q) = (if q_blk_type q = ATM_QUEUE_BLOCK then Inl No_return else Inr (None, Some q))
    | v # vs \<Rightarrow> (\<exists>q'. atm_queue_pop (Some q) = Inr (Some v, Some q') \<and> wf_queue q' \<and> queue_abs q' = vs
        \<and> q_blk_type q' = q_blk_type q)"
proof (cases "queue_abs q")
  case Nil
  then show ?thesis using lpop_abs_empty [OF wf Nil] atm_queue_size_abs [OF wf n] wf
    by (auto simp: atm_queue_pop_def atm_queue_nonempty_wait_def wf_queue_def Let_def)
next
  case (Cons v vs)
  obtain l where "atm_list_lpop (q_vals q) = Inr (Some v, l)" "wf_queue (q\<lparr>q_vals := l\<rparr>)" "list_vals l = vs"
    using lpop_abs [OF wf Cons] by blast
  then show ?thesis using Cons atm_queue_size_abs [OF wf n] wf
    by (auto simp: atm_queue_pop_def atm_queue_nonempty_wait_def wf_queue_def queue_abs_def Let_def)
qed

section \<open>Producers and consumers\<close>

text \<open>
  A consumer is idle, waiting in \<^verbatim>\<open>atm_queue_nonempty_wait\<close>, past the wait and about to pop, or
  holds what the pop returned. \<^verbatim>\<open>qs_in\<close> and \<^verbatim>\<open>qs_out\<close> record what was pushed and popped.
\<close>

datatype 'v qpc = Q_idle | Q_waiting | Q_ready | Q_got "'v option"

record 'v qsys =
  qs_q :: "'v atm_queue"
  qs_pc :: "nat \<Rightarrow> 'v qpc"
  qs_in :: "'v list"
  qs_out :: "'v list"

inductive q_step :: "nat set \<Rightarrow> 'v qsys \<Rightarrow> 'v qsys \<Rightarrow> bool" for who where
  push: "atm_queue_push (Some (qs_q s)) v = Inr (Some q') \<Longrightarrow>
    q_step who s (s\<lparr>qs_q := q', qs_in := qs_in s @ [v]\<rparr>)"
| call: "i \<in> who \<Longrightarrow> qs_pc s i \<noteq> Q_waiting \<Longrightarrow> qs_pc s i \<noteq> Q_ready \<Longrightarrow>
    q_step who s (s\<lparr>qs_pc := (qs_pc s)(i := Q_waiting)\<rparr>)"
| wait: "i \<in> who \<Longrightarrow> qs_pc s i = Q_waiting \<Longrightarrow> atm_queue_nonempty_wait (Some (qs_q s)) = Inr True \<Longrightarrow>
    q_step who s (s\<lparr>qs_pc := (qs_pc s)(i := Q_ready)\<rparr>)"
| pop: "i \<in> who \<Longrightarrow> qs_pc s i = Q_ready \<Longrightarrow> atm_list_lpop (q_vals (qs_q s)) = Inr (v, l) \<Longrightarrow>
    q_step who s (s\<lparr>qs_q := (qs_q s)\<lparr>q_vals := l\<rparr>, qs_pc := (qs_pc s)(i := Q_got v),
      qs_out := (case v of None \<Rightarrow> qs_out s | Some x \<Rightarrow> qs_out s @ [x])\<rparr>)"

inductive_cases q_stepE: "q_step who s t"

definition q_init :: "'v atm_T option \<Rightarrow> u32 \<Rightarrow> 'v qsys" where
  "q_init t f = \<lparr>qs_q = \<lparr>q_blk_type = ATM_QUEUE_BLOCK, q_vals = atm_list_new t f\<rparr>,
     qs_pc = (\<lambda>_. Q_idle), qs_in = [], qs_out = []\<rparr>"

definition q_inv :: "nat \<Rightarrow> 'v qsys \<Rightarrow> bool" where
  "q_inv i s \<longleftrightarrow> wf_queue (qs_q s) \<and> qs_in s = qs_out s @ queue_abs (qs_q s)
     \<and> (\<forall>j. j \<noteq> i \<longrightarrow> qs_pc s j = Q_idle) \<and> qs_pc s i \<noteq> Q_got None
     \<and> (qs_pc s i = Q_ready \<longrightarrow> queue_abs (qs_q s) \<noteq> [])"

lemma wait_nonempty:
  assumes "wf_queue q" "atm_queue_nonempty_wait (Some q) = Inr True"
  shows "queue_abs q \<noteq> []"
proof
  assume "queue_abs q = []"
  then have "l_size (q_vals q) = 0"
    using ld.count_law [of "q_vals q"] assms(1) by (simp add: wf_queue_def queue_abs_def)
  then show False using assms(2)
    by (simp add: atm_queue_nonempty_wait_def atm_queue_size_def split: if_splits)
qed

lemma q_step_inv: "q_step {i} s t \<Longrightarrow> q_inv i s \<Longrightarrow> q_inv i t"
proof (induction rule: q_step.induct)
  case (push s v q')
  then show ?case using atm_queue_push_abs [of "qs_q s" v] by (auto simp: q_inv_def)
next
  case (call j s)
  then show ?case by (auto simp: q_inv_def)
next
  case (wait j s)
  then show ?case using wait_nonempty [of "qs_q s"] by (auto simp: q_inv_def)
next
  case (pop j s v l)
  then have j: "j = i" and inv: "q_inv i s" by simp_all
  then obtain x xs where x: "queue_abs (qs_q s) = x # xs"
    using pop.hyps(2) by (cases "queue_abs (qs_q s)") (auto simp: q_inv_def)
  have "wf_queue (qs_q s)" using inv by (simp add: q_inv_def)
  from lpop_abs [OF this x] pop.hyps(3)
  have "v = Some x" "wf_queue ((qs_q s)\<lparr>q_vals := l\<rparr>)" "list_vals l = xs" by simp_all
  then show ?case using inv j x by (auto simp: q_inv_def queue_abs_def)
qed

section \<open>Properties\<close>


text \<open>A run: a value is pushed, the consumer calls, waits and pops.\<close>

definition q_run1 :: "nat qsys" where
  "q_run1 = (q_init None ATM_FREE_SHALLOW)\<lparr>
     qs_q := \<lparr>q_blk_type = ATM_QUEUE_BLOCK,
       q_vals = (case atm_list_push (atm_list_new None ATM_FREE_SHALLOW) (7 :: nat) of Inr l \<Rightarrow> l
         | Inl _ \<Rightarrow> atm_list_new None ATM_FREE_SHALLOW)\<rparr>, qs_in := [7]\<rparr>"

lemma q_run1_push: "q_step who (q_init None ATM_FREE_SHALLOW) q_run1"
proof -
  have "atm_queue_push (Some (qs_q (q_init None ATM_FREE_SHALLOW))) 7 = Inr (Some (qs_q q_run1))"
    using ld.push_law [of "atm_list_new None ATM_FREE_SHALLOW" "7 :: nat"]
    by (auto simp: atm_queue_push_def q_init_def q_run1_def)
  from q_step.push [OF this, of who] show ?thesis by (simp add: q_run1_def q_init_def)
qed


text \<open>
  With two consumers the same pop can return NULL: the wait and the pop are two
  critical sections, and both consumers can pass the wait for one value.
\<close>

theorem atm_queue_two_consumers:
  "\<exists>s :: nat qsys. (q_step {0, 1})\<^sup>*\<^sup>* (q_init None ATM_FREE_SHALLOW) s \<and> qs_pc s 1 = Q_got None"
proof -
  let ?W = "{0, 1} :: nat set"
  have q1: "wf_queue (qs_q q_run1) \<and> queue_abs (qs_q q_run1) = [7] \<and> q_blk_type (qs_q q_run1) = ATM_QUEUE_BLOCK"
    using ld.push_law [of "atm_list_new None ATM_FREE_SHALLOW" "7 :: nat"]
    by (auto simp: q_run1_def wf_queue_def queue_abs_def)
  have w: "atm_queue_nonempty_wait (Some (qs_q q_run1)) = Inr True"
    using q1 atm_queue_size_abs [of "qs_q q_run1"] by (simp add: atm_queue_nonempty_wait_def)
  have pc: "qs_pc q_run1 = (\<lambda>_. Q_idle)" by (simp add: q_run1_def q_init_def)
  let ?s1 = "q_run1\<lparr>qs_pc := (qs_pc q_run1)(0 := Q_waiting)\<rparr>"
  let ?s2 = "?s1\<lparr>qs_pc := (qs_pc ?s1)(1 := Q_waiting)\<rparr>"
  let ?s3 = "?s2\<lparr>qs_pc := (qs_pc ?s2)(0 := Q_ready)\<rparr>"
  let ?s4 = "?s3\<lparr>qs_pc := (qs_pc ?s3)(1 := Q_ready)\<rparr>"
  obtain l where l: "atm_list_lpop (q_vals (qs_q q_run1)) = Inr (Some 7, l)"
      "wf_queue ((qs_q q_run1)\<lparr>q_vals := l\<rparr>)" "list_vals l = []"
    using lpop_abs [of "qs_q q_run1"] q1 by auto
  let ?s5 = "?s4\<lparr>qs_q := (qs_q ?s4)\<lparr>q_vals := l\<rparr>, qs_pc := (qs_pc ?s4)(0 := Q_got (Some 7)), qs_out := qs_out ?s4 @ [7]\<rparr>"
  have e: "atm_list_lpop (q_vals (qs_q ?s5)) = Inr (None, l)"
    using lpop_abs_empty [OF l(2)] l(3) by (simp add: queue_abs_def)
  let ?s6 = "?s5\<lparr>qs_q := (qs_q ?s5)\<lparr>q_vals := l\<rparr>, qs_pc := (qs_pc ?s5)(1 := Q_got None), qs_out := qs_out ?s5\<rparr>"
  have "q_step ?W q_run1 ?s1" by (rule q_step.call) (simp_all add: pc)
  moreover have "q_step ?W ?s1 ?s2" by (rule q_step.call) (simp_all add: pc)
  moreover have "q_step ?W ?s2 ?s3" by (rule q_step.wait) (simp_all add: w)
  moreover have "q_step ?W ?s3 ?s4" by (rule q_step.wait) (simp_all add: w)
  moreover have "q_step ?W ?s4 ?s5" using q_step.pop [of 0 ?W ?s4 "Some 7" l] l(1) by simp
  moreover have "q_step ?W ?s5 ?s6" using q_step.pop [of 1 ?W ?s5 None l] e by simp
  ultimately have "(q_step ?W)\<^sup>*\<^sup>* q_run1 ?s6" by (meson converse_rtranclp_into_rtranclp rtranclp.rtrancl_refl)
  then have "(q_step ?W)\<^sup>*\<^sup>* (q_init None ATM_FREE_SHALLOW) ?s6"
    using q_run1_push by (rule converse_rtranclp_into_rtranclp [rotated])
  moreover have "qs_pc ?s6 1 = Q_got None" by simp
  ultimately show ?thesis by blast
qed

end
