(* ===== verification/Atm_Event.thy ===== *)
theory Atm_Event
  imports Atm_Core
begin

text \<open>
  \<^verbatim>\<open>src/core/atm_event.c\<close>: the events that are registered with epoll. The calls of
  \<^verbatim>\<open>epoll_ctl\<close> are the output of the operations: their results are only logged. The address
  of an event, which epoll hands back, is its field \<^verbatim>\<open>ev_addr\<close>; \<^verbatim>\<open>load\<close> is the object that
  has the event. The lemmas: the flag \<^verbatim>\<open>_registed\<close> and the mask always agree with what
  epoll knows of the file descriptor, by the documented effect of the calls.
\<close>

unbundle bit_operations_syntax

section \<open>Constants\<close>

definition EPOLLIN :: u32 where "EPOLLIN = 0x001"
definition EPOLLOUT :: u32 where "EPOLLOUT = 0x004"
definition EPOLLERR :: u32 where "EPOLLERR = 0x008"
definition EPOLLHUP :: u32 where "EPOLLHUP = 0x010"
definition EPOLLET :: u32 where "EPOLLET = 0x80000000"
definition ATM_EVENT_NONE :: u32 where "ATM_EVENT_NONE = 0"
definition ATM_EVENT_ALL :: u32 where "ATM_EVENT_ALL = -1"
definition ATM_EVENT_READ :: u32 where "ATM_EVENT_READ = EPOLLIN"
definition ATM_EVENT_WRITE :: u32 where "ATM_EVENT_WRITE = EPOLLOUT"

lemmas event_masks = EPOLLIN_def EPOLLOUT_def EPOLLERR_def EPOLLHUP_def EPOLLET_def
  ATM_EVENT_NONE_def ATM_EVENT_ALL_def ATM_EVENT_READ_def ATM_EVENT_WRITE_def

section \<open>Events\<close>

record atm_event =
  ev_addr :: addr
  ev_fd :: int
  ev_events :: u32
  ev_registed :: bool
  ev_active :: bool
  ev_handle_read :: bool
  ev_handle_write :: bool

datatype ctl_op = EPOLL_CTL_ADD | EPOLL_CTL_MOD | EPOLL_CTL_DEL

text \<open>A call of \<^verbatim>\<open>epoll_ctl\<close>: the operation, the file descriptor, the mask, the pointer.\<close>

type_synonym ctl_call = "ctl_op \<times> int \<times> u32 \<times> addr"

text \<open>The two handlers of an event are function pointers: only whether they are NULL is kept.\<close>

definition atm_event_new :: "addr \<Rightarrow> int \<Rightarrow> bool \<Rightarrow> bool \<Rightarrow> atm_event" where
  "atm_event_new a fd handle_read handle_write =
     \<lparr>ev_addr = a, ev_fd = fd, ev_events = ATM_EVENT_NONE, ev_registed = False, ev_active = True,
      ev_handle_read = handle_read, ev_handle_write = handle_write\<rparr>"

definition atm_event_add_event :: "atm_event \<Rightarrow> u32 \<Rightarrow> atm_event \<times> ctl_call list" where
  "atm_event_add_event e msk =
     (let e = e\<lparr>ev_events := ev_events e OR msk\<rparr> in
      if ev_events e \<noteq> ATM_EVENT_NONE then
        let op = (if ev_registed e then EPOLL_CTL_MOD else EPOLL_CTL_ADD)
        in (e\<lparr>ev_registed := True\<rparr>, [(op, ev_fd e, ev_events e, ev_addr e)])
      else (e, []))"

definition atm_event_del_event :: "atm_event \<Rightarrow> u32 \<Rightarrow> atm_event \<times> ctl_call list" where
  "atm_event_del_event e unmask =
     (let e = e\<lparr>ev_events := ev_events e AND NOT unmask\<rparr> in
      if ev_registed e then
        let op = (if ev_events e \<noteq> ATM_EVENT_NONE then EPOLL_CTL_MOD else EPOLL_CTL_DEL)
        in ((if op = EPOLL_CTL_DEL then e\<lparr>ev_registed := False\<rparr> else e),
            [(op, ev_fd e, ev_events e, ev_addr e)])
      else (e, []))"

definition atm_event_inactive :: "atm_event \<Rightarrow> atm_event" where
  "atm_event_inactive e = e\<lparr>ev_active := False\<rparr>"

text \<open>Freeing removes the event from epoll.\<close>

definition atm_event_free :: "atm_event option \<Rightarrow> ctl_call list" where
  "atm_event_free ev =
     (case ev of None \<Rightarrow> [] | Some e \<Rightarrow> snd (atm_event_del_event e ATM_EVENT_ALL))"

text \<open>
  Registering a listening socket and a connection: the event is made on the first call. The
  new event gets the address \<^verbatim>\<open>a\<close>.
\<close>

definition atm_event_add_listen ::
  "addr \<Rightarrow> int \<Rightarrow> atm_event option \<Rightarrow> atm_event option \<times> ctl_call list" where
  "atm_event_add_listen a sfd ev =
     (let le = (case ev of None \<Rightarrow> atm_event_new a sfd True False | Some e \<Rightarrow> e);
          (le, calls) = atm_event_add_event le (EPOLLIN OR EPOLLHUP)
      in (Some le, calls))"

definition atm_event_add_conn ::
  "addr \<Rightarrow> int \<Rightarrow> atm_event option \<Rightarrow> atm_event option \<times> ctl_call list" where
  "atm_event_add_conn a cfd ev =
     (let ce = (case ev of None \<Rightarrow> atm_event_new a cfd True True | Some e \<Rightarrow> e);
          (ce, calls) = atm_event_add_event ce (EPOLLIN OR EPOLLHUP OR EPOLLET)
      in (Some ce, calls))"

section \<open>Dispatching\<close>

text \<open>
  The handlers change the state of the program, the event included: \<^verbatim>\<open>ev\<close> reads it from the
  state, \<^verbatim>\<open>hr\<close> and \<^verbatim>\<open>hw\<close> are the calls through the pointers.
\<close>

definition atm_event_process_ev ::
  "('s \<Rightarrow> atm_event res) \<Rightarrow> ('s \<Rightarrow> 's res) \<Rightarrow> ('s \<Rightarrow> 's res) \<Rightarrow> u32 \<Rightarrow> 's \<Rightarrow> 's res" where
  "atm_event_process_ev ev hr hw evs s =
     (let evs = (if evs AND (EPOLLERR OR EPOLLHUP) \<noteq> 0 then evs OR (EPOLLIN OR EPOLLOUT) else evs) in
      res_bind
        (if evs AND EPOLLIN \<noteq> 0 then
           res_bind (ev s) (\<lambda>e. if ev_handle_read e \<and> ev_active e then hr s else Inr s)
         else Inr s) (\<lambda>s.
      if evs AND EPOLLOUT \<noteq> 0 then
        res_bind (ev s) (\<lambda>e. if ev_handle_write e \<and> ev_active e then hw s else Inr s)
      else Inr s))"

text \<open>The loop over the array that \<^verbatim>\<open>epoll_wait\<close> filled: pointers with masks.\<close>

fun process_all ::
  "(addr \<Rightarrow> 's \<Rightarrow> atm_event res) \<Rightarrow> (addr \<Rightarrow> 's \<Rightarrow> 's res) \<Rightarrow> (addr \<Rightarrow> 's \<Rightarrow> 's res) \<Rightarrow>
   (addr \<times> u32) list \<Rightarrow> 's \<Rightarrow> 's res" where
  "process_all ev hr hw [] s = Inr s"
| "process_all ev hr hw ((a, evs) # es) s =
     res_bind (ev a s) (\<lambda>e.
     res_bind (if ev_fd e = -1 then Inr s
               else atm_event_process_ev (ev a) (hr a) (hw a) evs s)
       (process_all ev hr hw es))"

definition atm_event_process_events ::
  "(addr \<Rightarrow> 's \<Rightarrow> atm_event res) \<Rightarrow> (addr \<Rightarrow> 's \<Rightarrow> 's res) \<Rightarrow> (addr \<Rightarrow> 's \<Rightarrow> 's res) \<Rightarrow>
   int \<times> (addr \<times> u32) list \<Rightarrow> 's \<Rightarrow> 's res" where
  "atm_event_process_events ev hr hw waited s =
     (case waited of (ev_count, event_list) \<Rightarrow>
        if 0 < ev_count then process_all ev hr hw (take (nat ev_count) event_list) s else Inr s)"

definition atm_event_routine ::
  "(addr \<Rightarrow> 's \<Rightarrow> atm_event res) \<Rightarrow> (addr \<Rightarrow> 's \<Rightarrow> 's res) \<Rightarrow> (addr \<Rightarrow> 's \<Rightarrow> 's res) \<Rightarrow>
   int \<times> (addr \<times> u32) list \<Rightarrow> 's \<Rightarrow> 's res" where
  "atm_event_routine ev hr hw waited s = atm_event_process_events ev hr hw waited s"

section \<open>What epoll knows\<close>

text \<open>
  The interest list of epoll and the documented effect of a call on it: \<^verbatim>\<open>EPOLL_CTL_ADD\<close>
  fails for a descriptor that is there, the others for one that is not.
\<close>

type_synonym interest = "int \<rightharpoonup> u32 \<times> addr"

definition ctl_effect :: "ctl_call \<Rightarrow> interest \<Rightarrow> interest option" where
  "ctl_effect c t = (case c of (op, fd, msk, a) \<Rightarrow>
     case op of
       EPOLL_CTL_ADD \<Rightarrow> if t fd = None then Some (t(fd \<mapsto> (msk, a))) else None
     | EPOLL_CTL_MOD \<Rightarrow> if t fd = None then None else Some (t(fd \<mapsto> (msk, a)))
     | EPOLL_CTL_DEL \<Rightarrow> if t fd = None then None else Some (t(fd := None)))"

fun ctl_effects :: "ctl_call list \<Rightarrow> interest \<Rightarrow> interest option" where
  "ctl_effects [] t = Some t"
| "ctl_effects (c # cs) t = Option.bind (ctl_effect c t) (ctl_effects cs)"

definition knows :: "interest \<Rightarrow> atm_event \<Rightarrow> bool" where
  "knows t e \<longleftrightarrow> t (ev_fd e) = (if ev_registed e then Some (ev_events e, ev_addr e) else None)
     \<and> (ev_registed e \<longleftrightarrow> ev_events e \<noteq> 0)"

text \<open>A program of calls on one event.\<close>

datatype ev_cmd = Ev_add u32 | Ev_del u32 | Ev_inactive

definition ev_step :: "ev_cmd \<Rightarrow> atm_event \<Rightarrow> atm_event \<times> ctl_call list" where
  "ev_step c e = (case c of Ev_add m \<Rightarrow> atm_event_add_event e m
     | Ev_del m \<Rightarrow> atm_event_del_event e m | Ev_inactive \<Rightarrow> (atm_event_inactive e, []))"

fun ev_run :: "ev_cmd list \<Rightarrow> atm_event \<Rightarrow> atm_event \<times> ctl_call list" where
  "ev_run [] e = (e, [])"
| "ev_run (c # cs) e = (let (e, xs) = ev_step c e; (e, ys) = ev_run cs e in (e, xs @ ys))"

lemma ctl_effects_append: "ctl_effects (xs @ ys) t = Option.bind (ctl_effects xs t) (ctl_effects ys)"
proof (induction xs arbitrary: t)
  case (Cons x xs)
  then show ?case by (cases "ctl_effect x t") simp_all
qed simp

lemma ev_step_knows:
  assumes "knows t e"
  shows "\<exists>t'. ctl_effects (snd (ev_step c e)) t = Some t' \<and> knows t' (fst (ev_step c e))
    \<and> (\<forall>fd. fd \<noteq> ev_fd e \<longrightarrow> t' fd = t fd)
    \<and> ev_fd (fst (ev_step c e)) = ev_fd e"
proof (cases c)
  case (Ev_add m)
  have "ev_events e OR m \<noteq> 0" if "ev_events e \<noteq> 0"
    using that by (metis bit.disj_zero_right or.left_idem word_bw_lcs(2) word_log_esimps(3))
  then show ?thesis using Ev_add assms
    by (auto simp: ev_step_def atm_event_add_event_def Let_def knows_def ctl_effect_def ATM_EVENT_NONE_def)
next
  case (Ev_del m)
  then show ?thesis using assms
    by (auto simp: ev_step_def atm_event_del_event_def Let_def knows_def ctl_effect_def ATM_EVENT_NONE_def)
next
  case Ev_inactive
  then show ?thesis using assms by (simp add: ev_step_def atm_event_inactive_def knows_def)
qed

text \<open>
  Property C29. Whatever is added to and removed from the mask of an event, in any order, every
  call of \<^verbatim>\<open>epoll_ctl\<close> it makes is one that epoll accepts (no second \<^verbatim>\<open>ADD\<close>, no \<^verbatim>\<open>MOD\<close> or
  \<^verbatim>\<open>DEL\<close> of an unknown descriptor), other descriptors are left alone, and afterwards epoll has
  exactly the mask of the event, or no entry when the mask is empty.
\<close>

theorem atm_event_epoll_agrees:
  assumes "t (ev_fd e) = None" "e = atm_event_new a fd hr hw"
  shows "\<exists>t'. ctl_effects (snd (ev_run cs e)) t = Some t'
    \<and> t' fd = (let e' = fst (ev_run cs e) in if ev_events e' = 0 then None else Some (ev_events e', a))
    \<and> (\<forall>fd'. fd' \<noteq> fd \<longrightarrow> t' fd' = t fd')"
proof -
  have run: "knows t e \<Longrightarrow> \<exists>t'. ctl_effects (snd (ev_run cs e)) t = Some t' \<and> knows t' (fst (ev_run cs e))
      \<and> (\<forall>fd'. fd' \<noteq> ev_fd e \<longrightarrow> t' fd' = t fd') \<and> ev_fd (fst (ev_run cs e)) = ev_fd e" for t e
  proof (induction cs arbitrary: t e)
    case (Cons c cs)
    obtain t1 where t1: "ctl_effects (snd (ev_step c e)) t = Some t1" "knows t1 (fst (ev_step c e))"
        "\<forall>fd. fd \<noteq> ev_fd e \<longrightarrow> t1 fd = t fd" "ev_fd (fst (ev_step c e)) = ev_fd e"
      using ev_step_knows [OF Cons.prems] by blast
    from Cons.IH [OF t1(2)] show ?case using t1 by (auto simp: case_prod_beta Let_def ctl_effects_append)
  qed simp
  have addr: "ev_addr (fst (ev_run cs e)) = ev_addr e" for cs e
    by (induction cs arbitrary: e)
       (auto simp: case_prod_beta Let_def ev_step_def atm_event_add_event_def atm_event_del_event_def
          atm_event_inactive_def split: ev_cmd.split)
  have e: "ev_fd e = fd" "ev_addr e = a" "ev_events e = 0" "\<not> ev_registed e"
    using assms(2) by (simp_all add: atm_event_new_def ATM_EVENT_NONE_def)
  have "knows t e" using assms(1) e by (simp add: knows_def)
  from run [OF this] e show ?thesis
    by (auto simp: knows_def Let_def addr)
qed

theorem atm_event_epoll_agrees_witness:
  "\<exists>t'. ctl_effects (snd (ev_run [Ev_add 0x11, Ev_del 0x10, Ev_add 4, Ev_del 5] (atm_event_new 7 3 True True))) Map.empty = Some t'
    \<and> t' 3 = None"
proof -
  have "fst (ev_run [Ev_add 0x11, Ev_del 0x10, Ev_add 4, Ev_del 5] (atm_event_new 7 3 True True))
      = (atm_event_new 7 3 True True)" by code_simp
  moreover have "ev_events (atm_event_new 7 3 True True) = 0" by (simp add: atm_event_new_def ATM_EVENT_NONE_def)
  ultimately show ?thesis
    using atm_event_epoll_agrees [of Map.empty "atm_event_new 7 3 True True" 7 3 True True
        "[Ev_add 0x11, Ev_del 0x10, Ev_add 4, Ev_del 5]"] by (auto simp: Let_def)
qed

end
