(* ===== verification/Atm_Pipe.thy ===== *)
theory Atm_Pipe
  imports Atm_Queue Atm_Event
begin

text \<open>
  \<^verbatim>\<open>src/os/unix/atm_pipe.c\<close> and the part of \<^verbatim>\<open>src/core/atm_event.c\<close> that works through a pipe: a
  queue of messages for the main thread and a kernel pipe that wakes it up. Reading and
  writing one byte of the kernel pipe are parameters; \<^verbatim>\<open>pipe_kernel\<close> is what pipe(7) says of
  them for the non-blocking ends that \<^verbatim>\<open>atm_pipe_new\<close> sets up. The step relation \<^verbatim>\<open>p_step\<close>
  interleaves any number of notifying threads with the handler.
\<close>

unbundle bit_operations_syntax

section \<open>Messages and pipes\<close>

definition ATM_PIPE_NCHAR :: u8 where "ATM_PIPE_NCHAR = 97"

text \<open>\<^verbatim>\<open>'c\<close> names the function that a message calls back.\<close>

record ('l, 'c) pipe_msg =
  pm_load :: 'l
  pm_call_back :: 'c

record 'm atm_pipe =
  pp_recv_fd :: int
  pp_sent_fd :: int
  pp_mqueue :: "'m atm_queue"
  pp_event :: "atm_event option"

type_synonym 'k pipe_read = "'k \<Rightarrow> int \<times> u8 \<times> 'k"
type_synonym 'k pipe_write = "'k \<Rightarrow> u8 \<Rightarrow> int \<times> 'k"

definition atm_pipe_msg_new :: "'l \<Rightarrow> 'c \<Rightarrow> ('l, 'c) pipe_msg" where
  "atm_pipe_msg_new load call_back = \<lparr>pm_load = load, pm_call_back = call_back\<rparr>"

text \<open>\<^verbatim>\<open>created\<close> is the result of \<^verbatim>\<open>pipe(fds)\<close> with the two descriptors.\<close>

definition ATM_PIPE_MSG_T :: "'m atm_T" where
  "ATM_PIPE_MSG_T = \<lparr>T_id = ''ATM_PIPE_MSG_TYPE'', T_match = None, T_hash = None, T_compare = None,
     T_str = None, T_free = True\<rparr>"

definition atm_pipe_new :: "int \<times> int \<times> int \<Rightarrow> 'm atm_pipe res" where
  "atm_pipe_new created =
     (case created of (ret, fd0, fd1) \<Rightarrow>
        if ret \<noteq> 0 then Inl (Exit 1)
        else res_bind (atm_queue_new (Some ATM_PIPE_MSG_T) ATM_FREE_DEEP ATM_QUEUE_NONBLOCK) (\<lambda>q.
             res_bind (of_some Null_deref q) (\<lambda>q.
               Inr \<lparr>pp_recv_fd = fd0, pp_sent_fd = fd1, pp_mqueue = q, pp_event = None\<rparr>)))"

definition atm_pipe_event_init :: "addr \<Rightarrow> 'm atm_pipe \<Rightarrow> 'm atm_pipe \<times> ctl_call list" where
  "atm_pipe_event_init a p =
     (let (pe, calls) = atm_event_add_event (atm_event_new a (pp_recv_fd p) True False)
            (EPOLLIN OR EPOLLHUP OR EPOLLET)
      in (p\<lparr>pp_event := Some pe\<rparr>, calls))"

text \<open>The messages that are freed unprocessed, and the calls of \<^verbatim>\<open>epoll_ctl\<close>.\<close>

definition atm_pipe_free :: "'m atm_pipe option \<Rightarrow> ('m list \<times> ctl_call list) res" where
  "atm_pipe_free pipe =
     (case pipe of None \<Rightarrow> Inr ([], [])
      | Some p \<Rightarrow> res_map (\<lambda>ms. (ms, atm_event_free (pp_event p))) (atm_queue_free (Some (pp_mqueue p))))"

section \<open>Receiving\<close>

text \<open>
  Popping until the queue is empty; \<^verbatim>\<open>call\<close> runs the call back of a message. The fuel is one
  more than the queue has ever held.
\<close>

fun msgs_loop ::
  "('m \<Rightarrow> 's \<Rightarrow> 's res) \<Rightarrow> nat \<Rightarrow> 'm atm_queue \<Rightarrow> 's \<Rightarrow> ('m atm_queue \<times> 's) res" where
  "msgs_loop call 0 q s = Inl No_return"
| "msgs_loop call (Suc n) q s =
     res_bind (atm_queue_pop (Some q)) (\<lambda>(msg, q').
     res_bind (of_some Null_deref q') (\<lambda>q.
       case msg of None \<Rightarrow> Inr (q, s)
       | Some m \<Rightarrow> res_bind (call m s) (msgs_loop call n q)))"

definition atm_pipe_process_msgs ::
  "('m \<Rightarrow> 's \<Rightarrow> 's res) \<Rightarrow> u8 \<Rightarrow> 'm atm_queue \<Rightarrow> 's \<Rightarrow> ('m atm_queue \<times> 's) res" where
  "atm_pipe_process_msgs call notify q s =
     (if notify = ATM_PIPE_NCHAR then msgs_loop call (Suc (l_brk (q_vals q))) q s else Inr (q, s))"

text \<open>The loop over the bytes of the kernel pipe; only the first has the messages processed.\<close>

fun recv_loop ::
  "'k pipe_read \<Rightarrow> ('m \<Rightarrow> 's \<Rightarrow> 's res) \<Rightarrow> nat \<Rightarrow> bool \<Rightarrow> 'm atm_queue \<times> 'k \<times> 's \<Rightarrow>
   ('m atm_queue \<times> 'k \<times> 's) res" where
  "recv_loop rd call 0 processed st = Inl No_return"
| "recv_loop rd call (Suc n) processed (q, k, s) =
     (case rd k of (ret, c, k) \<Rightarrow>
        if 0 < ret then
          res_bind (if processed then Inr (q, s) else atm_pipe_process_msgs call c q s) (\<lambda>(q, s).
            recv_loop rd call n True (q, k, s))
        else Inr (q, k, s))"

definition atm_pip_handle_recv ::
  "'k pipe_read \<Rightarrow> ('m \<Rightarrow> 's \<Rightarrow> 's res) \<Rightarrow> nat \<Rightarrow> 'm atm_queue \<times> 'k \<times> 's \<Rightarrow> ('m atm_queue \<times> 'k \<times> 's) res" where
  "atm_pip_handle_recv rd call fuel st = recv_loop rd call fuel False st"

section \<open>Notifying\<close>

text \<open>The push under the lock and the write after it are two steps; a failed write is logged.\<close>

definition notify_push :: "'m \<Rightarrow> 'm atm_queue \<Rightarrow> 'm atm_queue res" where
  "notify_push msg q =
     res_bind (atm_queue_push (Some q) msg) (of_some Null_deref)"

definition notify_write :: "'k pipe_write \<Rightarrow> 'k \<Rightarrow> 'k" where
  "notify_write wr k = snd (wr k ATM_PIPE_NCHAR)"

definition atm_pipe_notify :: "'k pipe_write \<Rightarrow> 'm \<Rightarrow> 'm atm_queue \<times> 'k \<Rightarrow> ('m atm_queue \<times> 'k) res" where
  "atm_pipe_notify wr msg st =
     (case st of (q, k) \<Rightarrow> res_map (\<lambda>q. (q, notify_write wr k)) (notify_push msg q))"

section \<open>The event engine\<close>

text \<open>An operation on an event that another thread asks the main thread for.\<close>

record event_op =
  eo_e :: addr
  eo_mask :: u32
  eo_op_type :: u32

definition ATM_EVENT_OP_ADD :: u32 where "ATM_EVENT_OP_ADD = 1"
definition ATM_EVENT_OP_DEL :: u32 where "ATM_EVENT_OP_DEL = 2"

definition atm_event_op_new :: "addr \<Rightarrow> u32 \<Rightarrow> u32 \<Rightarrow> event_op" where
  "atm_event_op_new e msk op_type = \<lparr>eo_e = e, eo_mask = msk, eo_op_type = op_type\<rparr>"

text \<open>\<^verbatim>\<open>upd\<close> applies a function to the event at an address in the state of the program.\<close>

definition atm_event_notify_handle ::
  "(addr \<Rightarrow> (atm_event \<Rightarrow> atm_event \<times> ctl_call list) \<Rightarrow> 's \<Rightarrow> 's res) \<Rightarrow> event_op option \<Rightarrow> 's \<Rightarrow> 's res" where
  "atm_event_notify_handle upd eop s =
     (case eop of None \<Rightarrow> Inr s
      | Some op \<Rightarrow>
          if eo_op_type op = ATM_EVENT_OP_ADD then upd (eo_e op) (\<lambda>e. atm_event_add_event e (eo_mask op)) s
          else if eo_op_type op = ATM_EVENT_OP_DEL then upd (eo_e op) (\<lambda>e. atm_event_del_event e (eo_mask op)) s
          else Inr s)"

definition atm_event_add_notify ::
  "'k pipe_write \<Rightarrow> addr \<Rightarrow> u32 \<Rightarrow> event_op atm_queue \<times> 'k \<Rightarrow> (event_op atm_queue \<times> 'k) res" where
  "atm_event_add_notify wr e msk st = atm_pipe_notify wr (atm_event_op_new e msk ATM_EVENT_OP_ADD) st"

record engine =
  en_ep :: int
  en_nevents :: u32
  en_pipe :: "event_op atm_pipe option"

definition ATM_EVENT_LIST_SIZE :: u32 where "ATM_EVENT_LIST_SIZE = 1024"

definition atm_event_init ::
  "int \<Rightarrow> int \<times> int \<times> int \<Rightarrow> addr \<Rightarrow> engine \<Rightarrow> (engine \<times> ctl_call list) res" where
  "atm_event_init epfd created a en =
     (if en_ep en = -1 then
        res_map (\<lambda>p. let (p, calls) = atm_pipe_event_init a p
            in (en\<lparr>en_ep := epfd, en_nevents := ATM_EVENT_LIST_SIZE, en_pipe := Some p\<rparr>, calls))
          (atm_pipe_new created)
      else Inr (en, []))"

section \<open>Receiving drains the queue\<close>

lemma list_vals_brk: "wf_list l \<Longrightarrow> length (list_vals l) \<le> l_brk l"
  using wf_list_rep [of l] list_rep_length [of l] by fastforce

lemma pop_nonblock:
  assumes "wf_queue q" "q_blk_type q = ATM_QUEUE_NONBLOCK"
  shows "case queue_abs q of [] \<Rightarrow> atm_queue_pop (Some q) = Inr (None, Some q)
    | v # vs \<Rightarrow> (\<exists>q'. atm_queue_pop (Some q) = Inr (Some v, Some q') \<and> wf_queue q' \<and> queue_abs q' = vs
        \<and> q_blk_type q' = ATM_QUEUE_NONBLOCK)"
proof (cases "queue_abs q")
  case Nil
  then show ?thesis using lpop_abs_empty [OF assms(1) Nil] assms(2) by (simp add: atm_queue_pop_def)
next
  case (Cons v vs)
  obtain l where "atm_list_lpop (q_vals q) = Inr (Some v, l)" "wf_queue (q\<lparr>q_vals := l\<rparr>)" "list_vals l = vs"
    using lpop_abs [OF assms(1) Cons] by blast
  then show ?thesis using Cons assms(2) by (simp add: atm_queue_pop_def queue_abs_def)
qed

fun call_all :: "('m \<Rightarrow> 's \<Rightarrow> 's res) \<Rightarrow> 'm list \<Rightarrow> 's \<Rightarrow> 's res" where
  "call_all call [] s = Inr s"
| "call_all call (m # ms) s = res_bind (call m s) (call_all call ms)"

lemma msgs_loop_all:
  assumes "wf_queue q" "q_blk_type q = ATM_QUEUE_NONBLOCK" "length (queue_abs q) < n"
  shows "case call_all call (queue_abs q) s of Inl f \<Rightarrow> msgs_loop call n q s = Inl f
    | Inr s' \<Rightarrow> (\<exists>q'. msgs_loop call n q s = Inr (q', s') \<and> wf_queue q' \<and> queue_abs q' = []
        \<and> q_blk_type q' = ATM_QUEUE_NONBLOCK)"
  using assms
proof (induction n arbitrary: q s)
  case (Suc n)
  show ?case
  proof (cases "queue_abs q")
    case Nil
    then show ?thesis using pop_nonblock [OF Suc.prems(1,2)] Suc.prems(1,2) by simp
  next
    case (Cons m ms)
    then obtain q1 where q1: "atm_queue_pop (Some q) = Inr (Some m, Some q1)" "wf_queue q1" "queue_abs q1 = ms"
        "q_blk_type q1 = ATM_QUEUE_NONBLOCK"
      using pop_nonblock [OF Suc.prems(1,2)] by auto
    have "length (queue_abs q1) < n" using Suc.prems(3) Cons q1(3) by simp
    note IH = Suc.IH [OF q1(2,4) this]
    show ?thesis
    proof (cases "call m s")
      case (Inr s1)
      have "msgs_loop call (Suc n) q s = msgs_loop call n q1 s1" using q1(1) Inr by simp
      moreover have "call_all call (queue_abs q) s = call_all call (queue_abs q1) s1" using Cons q1(3) Inr by simp
      ultimately show ?thesis using IH [of s1] by (simp only:)
    qed (use Cons q1 in simp)
  qed
qed simp

section \<open>The kernel pipe\<close>

definition pipe_kernel :: "'k pipe_read \<Rightarrow> 'k pipe_write \<Rightarrow> ('k \<Rightarrow> u8 list) \<Rightarrow> bool" where
  "pipe_kernel rd wr content \<longleftrightarrow>
     (\<forall>k. case rd k of (r, c, k') \<Rightarrow> (case content k of
          [] \<Rightarrow> r \<le> 0 \<and> content k' = []
        | b # bs \<Rightarrow> r = 1 \<and> c = b \<and> content k' = bs))
     \<and> (\<forall>k c. case wr k c of (r, k') \<Rightarrow>
          if r = 1 then content k' = content k @ [c] else content k' = content k \<and> content k \<noteq> [])"

lemma pipe_kernel_rd:
  assumes "pipe_kernel rd wr content" "rd k = (r, c, k')"
  shows "content k = [] \<Longrightarrow> r \<le> 0 \<and> content k' = []"
    and "content k = b # bs \<Longrightarrow> r = 1 \<and> c = b \<and> content k' = bs"
  using assms by (auto simp: pipe_kernel_def dest!: spec [of _ k])

lemma pipe_kernel_wr:
  assumes "pipe_kernel rd wr content"
  shows "content (notify_write wr k) \<noteq> [] \<and>
    (content (notify_write wr k) = content k @ [ATM_PIPE_NCHAR] \<or> content (notify_write wr k) = content k)"
proof -
  obtain r k' where w: "wr k ATM_PIPE_NCHAR = (r, k')" by fastforce
  have "if r = 1 then content k' = content k @ [ATM_PIPE_NCHAR] else content k' = content k \<and> content k \<noteq> []"
    using assms w by (auto simp: pipe_kernel_def split: prod.splits)
  then show ?thesis using w by (auto simp: notify_write_def split: if_splits)
qed

lemma recv_flush:
  assumes "pipe_kernel rd wr content" "length (content k) < n"
  shows "\<exists>k'. recv_loop rd call n True (q, k, s) = Inr (q, k', s) \<and> content k' = []"
  using assms(2)
proof (induction n arbitrary: k)
  case (Suc n)
  obtain r c k1 where r: "rd k = (r, c, k1)" by (cases "rd k")
  note kr = pipe_kernel_rd [OF assms(1) r]
  show ?case
  proof (cases "content k")
    case Nil
    then show ?thesis using kr(1) r by auto
  next
    case (Cons b bs)
    then have "length (content k1) < n" using kr(2) Suc.prems by simp
    from Suc.IH [OF this] show ?thesis using kr(2) [OF Cons] r by auto
  qed
qed simp

text \<open>The handler: without a byte nothing happens, with one all messages are processed.\<close>

lemma handle_recv_ok:
  assumes kern: "pipe_kernel rd wr content" and q: "wf_queue q" "q_blk_type q = ATM_QUEUE_NONBLOCK"
    and n: "length (content k) < n" and bytes: "set (content k) \<subseteq> {ATM_PIPE_NCHAR}"
    and call: "call_all call (queue_abs q) s = Inr s'"
  shows "\<exists>q' k'. atm_pip_handle_recv rd call n (q, k, s) = Inr (q', k', if content k = [] then s else s')
    \<and> wf_queue q' \<and> q_blk_type q' = ATM_QUEUE_NONBLOCK \<and> content k' = []
    \<and> queue_abs q' = (if content k = [] then queue_abs q else [])"
proof -
  obtain m where m: "n = Suc m" using n by (cases n) auto
  obtain r c k1 where r: "rd k = (r, c, k1)" by (cases "rd k")
  note kr = pipe_kernel_rd [OF kern r]
  show ?thesis
  proof (cases "content k")
    case Nil
    then show ?thesis using kr(1) r m q by (auto simp: atm_pip_handle_recv_def)
  next
    case (Cons b bs)
    then have c: "r = 1" "c = ATM_PIPE_NCHAR" "content k1 = bs" using kr(2) bytes by auto
    have len: "length (queue_abs q) < Suc (l_brk (q_vals q))"
      using list_vals_brk [of "q_vals q"] q(1) by (simp add: wf_queue_def queue_abs_def)
    obtain q' where q': "msgs_loop call (Suc (l_brk (q_vals q))) q s = Inr (q', s')" "wf_queue q'"
        "queue_abs q' = []" "q_blk_type q' = ATM_QUEUE_NONBLOCK"
      using msgs_loop_all [OF q len, of call s] call by auto
    have "length (content k1) < m" using n m Cons c(3) by simp
    from recv_flush [OF kern this, of call q' s'] obtain k' where
      "recv_loop rd call m True (q', k1, s') = Inr (q', k', s')" "content k' = []" by blast
    then show ?thesis using Cons r m c q'
      by (auto simp: atm_pip_handle_recv_def atm_pipe_process_msgs_def simp del: msgs_loop.simps)
  qed
qed

section \<open>Notifying threads and the handler\<close>

text \<open>\<^verbatim>\<open>ps_inflight\<close> counts the threads between their push and their write.\<close>

record ('m, 'k) psys =
  ps_q :: "'m atm_queue"
  ps_k :: 'k
  ps_inflight :: nat
  ps_sent :: "'m list"
  ps_got :: "'m list"

definition pipe_log :: "'m \<Rightarrow> 'm list \<Rightarrow> 'm list res" where
  "pipe_log m xs = Inr (xs @ [m])"

inductive p_step :: "'k pipe_read \<Rightarrow> 'k pipe_write \<Rightarrow> ('m, 'k) psys \<Rightarrow> ('m, 'k) psys \<Rightarrow> bool"
  for rd wr where
  push: "notify_push m (ps_q s) = Inr q \<Longrightarrow>
    p_step rd wr s (s\<lparr>ps_q := q, ps_inflight := Suc (ps_inflight s), ps_sent := ps_sent s @ [m]\<rparr>)"
| signal: "ps_inflight s = Suc n \<Longrightarrow>
    p_step rd wr s (s\<lparr>ps_k := notify_write wr (ps_k s), ps_inflight := n\<rparr>)"
| recv: "atm_pip_handle_recv rd pipe_log fuel (ps_q s, ps_k s, ps_got s) = Inr (q, k, got) \<Longrightarrow>
    p_step rd wr s (s\<lparr>ps_q := q, ps_k := k, ps_got := got\<rparr>)"

inductive_cases p_stepE: "p_step rd wr s t"

definition p_inv :: "('k \<Rightarrow> u8 list) \<Rightarrow> ('m, 'k) psys \<Rightarrow> bool" where
  "p_inv content s \<longleftrightarrow> wf_queue (ps_q s) \<and> q_blk_type (ps_q s) = ATM_QUEUE_NONBLOCK
     \<and> set (content (ps_k s)) \<subseteq> {ATM_PIPE_NCHAR} \<and> ps_sent s = ps_got s @ queue_abs (ps_q s)
     \<and> (queue_abs (ps_q s) \<noteq> [] \<longrightarrow> content (ps_k s) \<noteq> [] \<or> 0 < ps_inflight s)"

definition p_init :: "'k \<Rightarrow> ('m, 'k) psys" where
  "p_init k = \<lparr>ps_q = \<lparr>q_blk_type = ATM_QUEUE_NONBLOCK, q_vals = atm_list_new (Some ATM_PIPE_MSG_T) ATM_FREE_DEEP\<rparr>,
     ps_k = k, ps_inflight = 0, ps_sent = [], ps_got = []\<rparr>"

lemma call_all_log: "call_all pipe_log ms xs = Inr (xs @ ms)"
  by (induction ms arbitrary: xs) (simp_all add: pipe_log_def)

lemma recv_enough:
  "recv_loop rd call n p st = Inr x \<Longrightarrow> n \<le> m \<Longrightarrow> recv_loop rd call m p st = Inr x"
proof (induction rd call n p st arbitrary: m rule: recv_loop.induct)
  case (2 rd call n p q k s)
  obtain m' where m: "m = Suc m'" "n \<le> m'" using 2(3) by (cases m) auto
  obtain r c k1 where r: "rd k = (r, c, k1)" by (cases "rd k")
  show ?case
  proof (cases "0 < r")
    case True
    obtain q1 s1 where q1: "(if p then Inr (q, s) else atm_pipe_process_msgs call c q s) = Inr (q1, s1)"
        "recv_loop rd call n True (q1, k1, s1) = Inr x"
      using 2(2) r True by (auto simp: res_bind_eq_Inr)
    have "recv_loop rd call m' True (q1, k1, s1) = Inr x"
      using 2(1) [OF r [symmetric] refl True q1(1) refl q1(2) m(2)] .
    then show ?thesis using r True m q1(1) by simp
  next
    case False
    then show ?thesis using 2(2) r m by simp
  qed
qed simp

lemma p_step_inv:
  assumes kern: "pipe_kernel rd wr content"
  shows "p_step rd wr s t \<Longrightarrow> p_inv content s \<Longrightarrow> p_inv content t"
proof (induction rule: p_step.induct)
  case (push m s q)
  then show ?case using atm_queue_push_abs [of "ps_q s" m]
    by (auto simp: p_inv_def notify_push_def)
next
  case (signal s n)
  then show ?case using pipe_kernel_wr [OF kern, of "ps_k s"] by (auto simp: p_inv_def)
next
  case (recv fuel s q k got)
  let ?n = "max fuel (Suc (length (content (ps_k s))))"
  have call: "call_all pipe_log (queue_abs (ps_q s)) (ps_got s) = Inr (ps_got s @ queue_abs (ps_q s))"
    by (rule call_all_log)
  have "atm_pip_handle_recv rd pipe_log ?n (ps_q s, ps_k s, ps_got s) = Inr (q, k, got)"
    using recv_enough [OF recv.hyps [unfolded atm_pip_handle_recv_def], of ?n] by (simp add: atm_pip_handle_recv_def)
  with handle_recv_ok [OF kern _ _ _ _ call, of "ps_k s" ?n] recv.prems
  show ?case by (auto simp: p_inv_def split: if_splits)
qed

lemma p_reach_inv:
  assumes "pipe_kernel rd wr content" "content k = []" "(p_step rd wr)\<^sup>*\<^sup>* (p_init k) s"
  shows "p_inv content s"
  using assms(3)
proof (induction rule: rtranclp_induct)
  case base
  show ?case using assms(2) by (simp add: p_inv_def p_init_def wf_queue_def queue_abs_def)
next
  case (step y z)
  then show ?case using p_step_inv [OF assms(1)] by blast
qed

text \<open>
  Property C30. No wake-up is lost. However pushes, writes of the wake-up byte (also into a
  full pipe, where they fail) and runs of the handler interleave: the messages arrive in the
  order they were pushed, once each, and whenever one is waiting there is a byte in the pipe
  or a thread that still has to write one. When no thread is between its push and its write,
  one run of the handler delivers everything.
\<close>

theorem atm_pipe_no_lost_wakeup:
  assumes kern: "pipe_kernel rd wr content" "content k = []" and run: "(p_step rd wr)\<^sup>*\<^sup>* (p_init k) s"
  shows "ps_sent s = ps_got s @ queue_abs (ps_q s)
    \<and> (queue_abs (ps_q s) \<noteq> [] \<longrightarrow> content (ps_k s) \<noteq> [] \<or> 0 < ps_inflight s)
    \<and> (ps_inflight s = 0 \<longrightarrow> (\<exists>q' k'. atm_pip_handle_recv rd pipe_log (Suc (length (content (ps_k s))))
          (ps_q s, ps_k s, ps_got s) = Inr (q', k', ps_sent s) \<and> queue_abs q' = []))"
proof -
  have inv: "p_inv content s" using p_reach_inv [OF kern run] .
  have len: "length (content (ps_k s)) < Suc (length (content (ps_k s)))" by simp
  note h = handle_recv_ok [OF kern(1) _ _ len _ call_all_log]
  show ?thesis using inv h [of "ps_q s" "ps_got s"] by (auto simp: p_inv_def split: if_splits)
qed

text \<open>A pipe of two bytes.\<close>

definition two_rd :: "u8 list pipe_read" where
  "two_rd k = (case k of [] \<Rightarrow> (-1, 0, []) | c # cs \<Rightarrow> (1, c, cs))"

definition two_wr :: "u8 list pipe_write" where
  "two_wr k c = (if length k < 2 then (1, k @ [c]) else (-1, k))"

theorem atm_pipe_no_lost_wakeup_witness:
  "pipe_kernel two_rd two_wr (id :: u8 list \<Rightarrow> u8 list) \<and>
   (\<exists>s :: (nat, u8 list) psys. (p_step two_rd two_wr)\<^sup>*\<^sup>* (p_init []) s \<and> ps_sent s = [5]
      \<and> ps_sent s = ps_got s @ queue_abs (ps_q s))"
proof -
  have kern: "pipe_kernel two_rd two_wr (id :: u8 list \<Rightarrow> u8 list)"
    by (auto simp: pipe_kernel_def two_rd_def two_wr_def split: list.splits)
  obtain q where q: "notify_push 5 (ps_q (p_init [] :: (nat, u8 list) psys)) = Inr q"
    using atm_queue_push_abs [of "ps_q (p_init [] :: (nat, u8 list) psys)" 5]
    by (auto simp: notify_push_def p_init_def wf_queue_def)
  let ?s = "(p_init [] :: (nat, u8 list) psys)\<lparr>ps_q := q, ps_inflight := 1, ps_sent := [5]\<rparr>"
  have "p_step two_rd two_wr (p_init []) ?s"
    using p_step.push [OF q, of two_rd two_wr] by (simp add: p_init_def)
  then have r: "(p_step two_rd two_wr)\<^sup>*\<^sup>* (p_init []) ?s" by blast
  have e: "id ([] :: u8 list) = []" by simp
  show ?thesis using atm_pipe_no_lost_wakeup [OF kern e r] kern r by auto
qed

end
