(* ===== verification/Atm_Conn.thy ===== *)
theory Atm_Conn
  imports Atm_Buf Atm_Pipe Atm_Str
begin

text \<open>
  \<^verbatim>\<open>src/core/atm_conn.c\<close>, with the tasks of \<^verbatim>\<open>src/core/atm_task.c\<close> that it dispatches: a
  connection and what its functions do to the rest of the process. The rest is the record
  \<^verbatim>\<open>world\<close>: the block pool, the event operations and tasks that were sent through the two
  pipes (in the order in which \<^verbatim>\<open>Atm_Pipe\<close> shows them to arrive), the calls of \<^verbatim>\<open>epoll_ctl\<close>,
  and the list of connections to be freed. Sections under a mutex are atomic. The lemmas
  are about the write path, about freeing, and about where an output stalls.
\<close>

section \<open>Tasks and the world\<close>

datatype task_fn = Task_read | Task_write | Task_free

record atm_task =
  t_load :: "addr option"
  t_run :: task_fn

definition atm_task_new :: "addr option \<Rightarrow> task_fn \<Rightarrow> atm_task" where
  "atm_task_new load run = \<lparr>t_load = load, t_run = run\<rparr>"

record world =
  w_pool :: blk_pool
  w_ops :: "event_op list"
  w_tasks :: "atm_task list"
  w_ctl :: "ctl_call list"
  w_free :: "addr atm_list"

definition atm_task_dispatch :: "atm_task \<Rightarrow> 'w world_scheme \<Rightarrow> 'w world_scheme" where
  "atm_task_dispatch t w = w\<lparr>w_tasks := w_tasks w @ [t]\<rparr>"

text \<open>\<^verbatim>\<open>atm_event_add_notify\<close>, as the message it leaves in the pipe of the engine.\<close>

definition add_notify :: "atm_event \<Rightarrow> u32 \<Rightarrow> 'w world_scheme \<Rightarrow> 'w world_scheme" where
  "add_notify e msk w = w\<lparr>w_ops := w_ops w @ [atm_event_op_new (ev_addr e) msk ATM_EVENT_OP_ADD]\<rparr>"

definition log_ctl :: "ctl_call list \<Rightarrow> 'w world_scheme \<Rightarrow> 'w world_scheme" where
  "log_ctl calls w = w\<lparr>w_ctl := w_ctl w @ calls\<rparr>"

section \<open>Connections\<close>

record atm_socket =
  so_fd :: int
  so_src_ip :: atm_str
  so_src_port :: int
  so_dst_ip :: atm_str
  so_dst_port :: int

record atm_conn =
  c_addr :: addr
  c_sock :: atm_socket
  c_event :: "atm_event option"
  c_r_buf :: atm_buf
  c_w_buf :: atm_buf
  c_on_read :: bool
  c_on_write :: bool
  c_write_reqs :: u32

definition atm_conn_new :: "addr \<Rightarrow> atm_socket \<Rightarrow> atm_conn" where
  "atm_conn_new a cs = \<lparr>c_addr = a, c_sock = cs, c_event = None, c_r_buf = atm_buf_new,
     c_w_buf = atm_buf_new, c_on_read = False, c_on_write = False, c_write_reqs = 0\<rparr>"

definition conn_event :: "atm_conn \<Rightarrow> atm_event res" where
  "conn_event c = of_some Null_deref (c_event c)"

text \<open>The pointer to \<^verbatim>\<open>on_read\<close> or \<^verbatim>\<open>on_write\<close> that a function gets.\<close>

datatype conn_flag = On_read | On_write

definition clear_flag :: "conn_flag \<Rightarrow> atm_conn \<Rightarrow> atm_conn" where
  "clear_flag f c = (case f of On_read \<Rightarrow> c\<lparr>c_on_read := False\<rparr> | On_write \<Rightarrow> c\<lparr>c_on_write := False\<rparr>)"

section \<open>Freeing\<close>

definition atm_conn_free_notify :: "'w world_scheme \<Rightarrow> 'w world_scheme" where
  "atm_conn_free_notify w = atm_task_dispatch (atm_task_new None Task_free) w"

definition atm_conn_free_check ::
  "atm_conn \<Rightarrow> conn_flag \<Rightarrow> 'w world_scheme \<Rightarrow> (atm_conn \<times> 'w world_scheme) res" where
  "atm_conn_free_check c flag w =
     res_map (\<lambda>e. if \<not> ev_active e then (clear_flag flag c, atm_conn_free_notify w)
                  else (clear_flag flag c, w))
       (conn_event c)"

definition atm_conn_free_enqueue :: "atm_conn \<Rightarrow> 'w world_scheme \<Rightarrow> 'w world_scheme res" where
  "atm_conn_free_enqueue c w = res_map (\<lambda>l. w\<lparr>w_free := l\<rparr>) (atm_list_push (w_free w) (c_addr c))"

definition atm_conn_inactive ::
  "atm_conn \<Rightarrow> conn_flag \<Rightarrow> 'w world_scheme \<Rightarrow> (atm_conn \<times> 'w world_scheme) res" where
  "atm_conn_inactive c flag w =
     res_bind (conn_event c) (\<lambda>e.
     res_map (\<lambda>(c, w). (c, atm_conn_free_notify w))
       (if ev_active e then
          let c = clear_flag flag (c\<lparr>c_event := Some (atm_event_inactive e)\<rparr>)
          in res_map (Pair c) (atm_conn_free_enqueue c w)
        else Inr (c, w)))"

text \<open>
  The loop of \<^verbatim>\<open>atm_conn_free_func\<close> over the list of connections to be freed: \<^verbatim>\<open>busy\<close> reads the
  two flags of a connection, \<^verbatim>\<open>fr\<close> frees its session and it. It ends at the first connection
  that it has put back. The fuel is more than the list has nodes.
\<close>

fun free_loop ::
  "(addr \<Rightarrow> 's \<Rightarrow> bool res) \<Rightarrow> (addr \<Rightarrow> 's \<Rightarrow> 's res) \<Rightarrow> nat \<Rightarrow> addr option \<Rightarrow> addr atm_list \<Rightarrow> 's \<Rightarrow>
   (addr atm_list \<times> 's) res" where
  "free_loop busy fr 0 unproc ls s = Inl No_return"
| "free_loop busy fr (Suc n) unproc ls s =
     res_bind (atm_list_lpeek ls) (\<lambda>c.
       if c = unproc then Inr (ls, s)
       else
         res_bind (atm_list_lpop ls) (\<lambda>(c, ls).
         res_bind (of_some Null_deref c) (\<lambda>c.
         res_bind (busy c s) (\<lambda>b.
           if \<not> b then res_bind (fr c s) (free_loop busy fr n unproc ls)
           else
             res_bind (atm_list_push ls c) (\<lambda>ls.
               free_loop busy fr n (if unproc = None then Some c else unproc) ls s)))))"

definition atm_conn_free_func ::
  "(addr \<Rightarrow> 's \<Rightarrow> bool res) \<Rightarrow> (addr \<Rightarrow> 's \<Rightarrow> 's res) \<Rightarrow> addr atm_list \<Rightarrow> 's \<Rightarrow> (addr atm_list \<times> 's) res" where
  "atm_conn_free_func busy fr free_list s =
     free_loop busy fr (Suc (l_brk free_list)) None free_list s"

text \<open>
  Freeing the connection: the event leaves epoll, the buffers give their blocks back. The
  result is the descriptor that is closed and the string that is freed with the socket.
\<close>

definition atm_socket_free :: "atm_socket option \<Rightarrow> int list \<times> atm_str list" where
  "atm_socket_free sock = (case sock of None \<Rightarrow> ([], []) | Some s \<Rightarrow> ([so_fd s], [so_src_ip s]))"

definition atm_conn_free ::
  "atm_conn option \<Rightarrow> 'w world_scheme \<Rightarrow> (int list \<times> 'w world_scheme) res" where
  "atm_conn_free conn w =
     (case conn of None \<Rightarrow> Inr ([], w)
      | Some c \<Rightarrow>
          let w = log_ctl (atm_event_free (c_event c)) w;
              (closed, _) = atm_socket_free (Some (c_sock c))
          in res_bind (atm_buf_free (Some (c_r_buf c)) (w_pool w)) (\<lambda>pool.
             res_map (\<lambda>pool. (closed, w\<lparr>w_pool := pool\<rparr>)) (atm_buf_free (Some (c_w_buf c)) pool)))"

section \<open>Writing\<close>

definition atm_conn_inter_write ::
  "atm_conn \<Rightarrow> u32 \<Rightarrow> int \<Rightarrow> 'w world_scheme \<Rightarrow> (atm_conn \<times> 'w world_scheme) res" where
  "atm_conn_inter_write c wreqs wrmn w =
     res_map (\<lambda>e. (c\<lparr>c_on_write := False\<rparr>,
         if (c_write_reqs c > wreqs \<or> wrmn > 0) \<and> ev_active e then add_notify e ATM_EVENT_WRITE w else w))
       (conn_event c)"

definition atm_conn_yield_write :: "atm_conn \<Rightarrow> u32 \<Rightarrow> (bool \<times> atm_conn) res" where
  "atm_conn_yield_write c wreqs =
     res_map (\<lambda>e. if c_write_reqs c = wreqs \<or> \<not> ev_active e then (True, c\<lparr>c_on_write := False\<rparr>)
                  else (False, c))
       (conn_event c)"

definition atm_conn_write_notify ::
  "atm_conn \<Rightarrow> 'w world_scheme \<Rightarrow> (atm_conn \<times> 'w world_scheme) res" where
  "atm_conn_write_notify c w =
     res_map (\<lambda>e.
         if ev_active e then
           (c\<lparr>c_write_reqs := c_write_reqs c + 1\<rparr>,
            if \<not> c_on_write c then add_notify e ATM_EVENT_WRITE w else w)
         else (c, w))
       (conn_event c)"

definition atm_conn_write ::
  "atm_conn option \<Rightarrow> u8 list \<Rightarrow> u32 \<Rightarrow> 'w world_scheme \<Rightarrow> (atm_conn option \<times> 'w world_scheme) res" where
  "atm_conn_write conn src nbyte w =
     (case conn of None \<Rightarrow> Inr (None, w)
      | Some c \<Rightarrow>
          res_bind (atm_buf_write (c_w_buf c, w_pool w) src nbyte) (\<lambda>(_, (b, pool)).
          res_map (\<lambda>(c, w). (Some c, w))
            (atm_conn_write_notify (c\<lparr>c_w_buf := b\<rparr>) (w\<lparr>w_pool := pool\<rparr>))))"

definition atm_conn_write_str ::
  "atm_conn option \<Rightarrow> atm_str \<Rightarrow> 'w world_scheme \<Rightarrow> (atm_conn option \<times> 'w world_scheme) res" where
  "atm_conn_write_str conn s w =
     (case conn of None \<Rightarrow> Inr (None, w)
      | Some c \<Rightarrow> atm_conn_write (Some c) (str_bytes s) (atm_str_len s) w)"

section \<open>Reading\<close>

definition atm_conn_read ::
  "atm_conn \<Rightarrow> u32 \<Rightarrow> 'w world_scheme \<Rightarrow> (int \<times> u8 list \<times> atm_conn \<times> 'w world_scheme) res" where
  "atm_conn_read c nbyte w =
     res_map (\<lambda>(n, bytes, (b, pool)). (n, bytes, c\<lparr>c_r_buf := b\<rparr>, w\<lparr>w_pool := pool\<rparr>))
       (atm_buf_read (c_r_buf c, w_pool w) nbyte)"

definition atm_conn_read_line ::
  "atm_conn \<Rightarrow> 'w world_scheme \<Rightarrow> (atm_str \<times> atm_conn \<times> 'w world_scheme) res" where
  "atm_conn_read_line c w =
     res_bind (atm_buf_read_line (c_r_buf c, w_pool w)) (\<lambda>(s, (b, pool)).
     res_map (\<lambda>r. (r, c\<lparr>c_r_buf := b\<rparr>, w\<lparr>w_pool := pool\<rparr>))
       (case s of None \<Rightarrow> Inr None | Some bytes \<Rightarrow> atm_str_new (Some (map (\<lambda>b. char_of (unat b)) bytes))))"

section \<open>The tasks\<close>

text \<open>
  \<^verbatim>\<open>rd\<close> and \<^verbatim>\<open>wr\<close> are \<^verbatim>\<open>read\<close> and \<^verbatim>\<open>write\<close> of the kernel, \<^verbatim>\<open>eagain\<close> tells whether \<^verbatim>\<open>errno\<close> is
  \<^verbatim>\<open>EAGAIN\<close> after the last of them, \<^verbatim>\<open>proc\<close> is \<^verbatim>\<open>atm_sess_process\<close> on the session of the
  connection. The fuel bounds the calls of the kernel in a loop.
\<close>

definition atm_conn_task_read_raw ::
  "'s sys_read \<Rightarrow> nat \<Rightarrow> 's \<Rightarrow> atm_conn \<Rightarrow> 'w world_scheme \<Rightarrow> (int \<times> 's \<times> atm_conn \<times> 'w world_scheme) res" where
  "atm_conn_task_read_raw rd fuel s c w =
     res_map (\<lambda>(ret, s, (b, pool)). (ret, s, c\<lparr>c_r_buf := b\<rparr>, w\<lparr>w_pool := pool\<rparr>))
       (atm_buf_read_sock rd fuel s (c_r_buf c, w_pool w))"

definition atm_conn_task_write_raw ::
  "'s sys_write \<Rightarrow> nat \<Rightarrow> 's \<Rightarrow> atm_conn \<Rightarrow> 'w world_scheme \<Rightarrow> (int \<times> 's \<times> atm_conn \<times> 'w world_scheme) res" where
  "atm_conn_task_write_raw wr fuel s c w =
     res_map (\<lambda>(ret, s, (b, pool)). (ret, s, c\<lparr>c_w_buf := b\<rparr>, w\<lparr>w_pool := pool\<rparr>))
       (atm_buf_write_sock wr fuel s (c_w_buf c, w_pool w))"

text \<open>
  The session of the connection, apart from the connection itself, is \<^verbatim>\<open>x\<close>. The first part of
  the read task; \<^verbatim>\<open>False\<close> is the early return.
\<close>

definition task_read_proc ::
  "'s sys_read \<Rightarrow> ('s \<Rightarrow> bool) \<Rightarrow> nat \<Rightarrow>
   ('x \<Rightarrow> atm_conn \<Rightarrow> 'w world_scheme \<Rightarrow> (int \<times> 'x \<times> atm_conn \<times> 'w world_scheme) res) \<Rightarrow>
   's \<Rightarrow> 'x \<Rightarrow> atm_conn \<Rightarrow> 'w world_scheme \<Rightarrow> (bool \<times> 's \<times> 'x \<times> atm_conn \<times> 'w world_scheme) res" where
  "task_read_proc rd eagain fuel proc s x c w =
     res_bind (conn_event c) (\<lambda>e.
       if ev_active e then
         res_bind (atm_conn_task_read_raw rd fuel s c w) (\<lambda>(ret, s, c, w).
           if (ret = -1 \<and> \<not> eagain s) \<or> ret = 0 then
             res_map (\<lambda>(c, w). (False, s, x, c, w)) (atm_conn_inactive c On_read w)
           else
             res_bind (proc x c w) (\<lambda>(ret, x, c, w).
               if ret = ATM_ERROR then res_map (\<lambda>(c, w). (True, s, x, c, w)) (atm_conn_inactive c On_read w)
               else Inr (True, s, x, c, w)))
       else Inr (True, s, x, c, w))"

definition atm_conn_task_read ::
  "'s sys_read \<Rightarrow> ('s \<Rightarrow> bool) \<Rightarrow> nat \<Rightarrow>
   ('x \<Rightarrow> atm_conn \<Rightarrow> 'w world_scheme \<Rightarrow> (int \<times> 'x \<times> atm_conn \<times> 'w world_scheme) res) \<Rightarrow>
   's \<Rightarrow> 'x \<Rightarrow> atm_conn \<Rightarrow> 'w world_scheme \<Rightarrow> (int \<times> 's \<times> 'x \<times> atm_conn \<times> 'w world_scheme) res" where
  "atm_conn_task_read rd eagain fuel proc s x c w =
     res_bind (task_read_proc rd eagain fuel proc s x c w) (\<lambda>(go, s, x, c, w).
       if \<not> go then Inr (ATM_ERROR, s, x, c, w)
       else
         res_bind (conn_event c) (\<lambda>e.
         let w = (if ev_active e then add_notify e ATM_EVENT_READ w else w)
         in res_map (\<lambda>(c, w). (ATM_OK, s, x, c, w)) (atm_conn_free_check c On_read w)))"

text \<open>The loop of the write task: \<^verbatim>\<open>False\<close> for the early return, \<^verbatim>\<open>True\<close> for a \<^verbatim>\<open>break\<close> or the end.\<close>

fun task_write_loop ::
  "'s sys_write \<Rightarrow> ('s \<Rightarrow> bool) \<Rightarrow> nat \<Rightarrow> nat \<Rightarrow> 's \<Rightarrow> atm_conn \<Rightarrow> 'w world_scheme \<Rightarrow>
   (bool \<times> 's \<times> atm_conn \<times> 'w world_scheme) res" where
  "task_write_loop wr eagain fuel 0 s c w = Inl No_return"
| "task_write_loop wr eagain fuel (Suc n) s c w =
     res_bind (conn_event c) (\<lambda>e.
       if \<not> ev_active e then Inr (True, s, c, w)
       else
         let wreqs = c_write_reqs c in
         res_bind (atm_conn_task_write_raw wr fuel s c w) (\<lambda>(ret, s, c, w).
           if ret = -1 \<and> \<not> eagain s then
             res_map (\<lambda>(c, w). (False, s, c, w)) (atm_conn_inactive c On_write w)
           else if ret = 0 then
             res_map (\<lambda>(c, w). (True, s, c, w))
               (atm_conn_inter_write c wreqs (sint (ucast (buf_aval (c_w_buf c)) :: u32)) w)
           else
             res_bind (atm_conn_yield_write c wreqs) (\<lambda>(yield, c).
               if yield then Inr (True, s, c, w) else task_write_loop wr eagain fuel n s c w)))"

definition atm_conn_task_write ::
  "'s sys_write \<Rightarrow> ('s \<Rightarrow> bool) \<Rightarrow> nat \<Rightarrow> 's \<Rightarrow> atm_conn \<Rightarrow> 'w world_scheme \<Rightarrow>
   (int \<times> 's \<times> atm_conn \<times> 'w world_scheme) res" where
  "atm_conn_task_write wr eagain fuel s c w =
     res_bind (task_write_loop wr eagain fuel fuel s c w) (\<lambda>(go, s, c, w).
       if \<not> go then Inr (ATM_ERROR, s, c, w)
       else res_map (\<lambda>(c, w). (ATM_OK, s, c, w)) (atm_conn_free_check c On_write w))"

section \<open>The event handlers\<close>

definition conn_task ::
  "u32 \<Rightarrow> task_fn \<Rightarrow> atm_conn \<Rightarrow> 'w world_scheme \<Rightarrow> (atm_conn \<times> 'w world_scheme) res" where
  "conn_task msk run c w =
     res_map (\<lambda>e.
         if ev_active e then
           let (e, calls) = atm_event_del_event e msk
           in (c\<lparr>c_event := Some e\<rparr>,
               atm_task_dispatch (atm_task_new (Some (c_addr c)) run) (log_ctl calls w))
         else (c, w))
       (conn_event c)"

definition atm_conn_handle_read ::
  "atm_conn \<Rightarrow> 'w world_scheme \<Rightarrow> (atm_conn \<times> 'w world_scheme) res" where
  "atm_conn_handle_read c w =
     res_bind (conn_event c) (\<lambda>e.
     res_map (\<lambda>(c, w). (if ev_active e then c\<lparr>c_on_read := True\<rparr> else c, w))
       (conn_task ATM_EVENT_READ Task_read c w))"

definition atm_conn_handle_write ::
  "atm_conn \<Rightarrow> 'w world_scheme \<Rightarrow> (atm_conn \<times> 'w world_scheme) res" where
  "atm_conn_handle_write c w =
     res_bind (conn_event c) (\<lambda>e.
     res_map (\<lambda>(c, w). (if ev_active e then c\<lparr>c_on_write := True\<rparr> else c, w))
       (conn_task ATM_EVENT_WRITE Task_write c w))"

text \<open>
  One round of the loop in \<^verbatim>\<open>atm_conn_handle_accept\<close>, for an accepted socket: the connection
  and its event get the addresses \<^verbatim>\<open>a\<close> and \<^verbatim>\<open>ea\<close>; the session that is made for it is in
  \<^verbatim>\<open>Atm_Sess\<close>. The loop takes at most 1024 sockets of those that are waiting.
\<close>

definition ATM_CONN_PERCALL_ACCEPTS :: nat where "ATM_CONN_PERCALL_ACCEPTS = 1024"

definition accept_conn :: "addr \<Rightarrow> addr \<Rightarrow> atm_socket \<Rightarrow> 'w world_scheme \<Rightarrow> atm_conn \<times> 'w world_scheme" where
  "accept_conn a ea cs w =
     (let (ev, calls) = atm_event_add_conn ea (so_fd cs) None
      in ((atm_conn_new a cs)\<lparr>c_event := ev\<rparr>, log_ctl calls w))"

section \<open>Well-formed connections\<close>

text \<open>
  Both buffers of a connection share the block pool of the process. \<^verbatim>\<open>conn_in\<close> are the bytes
  that were read and not yet used, \<^verbatim>\<open>conn_out\<close> the bytes that wait to be sent.
\<close>

definition wf_conn :: "atm_conn \<Rightarrow> 'w world_scheme \<Rightarrow> bool" where
  "wf_conn c w \<longleftrightarrow> wf_buf (c_r_buf c, w_pool w) \<and> wf_buf (c_w_buf c, w_pool w)"

definition conn_in :: "atm_conn \<Rightarrow> u8 list" where
  "conn_in c = buf_stream (c_r_buf c, None)"

definition conn_out :: "atm_conn \<Rightarrow> u8 list" where
  "conn_out c = buf_stream (c_w_buf c, None)"

lemma buf_stream_pool: "buf_stream (b, pool) = buf_stream (b, None)"
  by (simp add: buf_stream_def buf_vals_def)

lemma wf_buf_pool: "wf_buf (b, pool) \<Longrightarrow> wf_pool pool' \<Longrightarrow> wf_buf (b, pool')"
  by (simp add: wf_buf_def buf_vals_def buf_stream_def)

lemma wf_buf_poolD: "wf_buf st \<Longrightarrow> wf_pool (snd st)"
  by (simp add: wf_buf_def)

text \<open>What an operation on the buffers leaves alone in the connection, and in the world.\<close>

definition conn_rest :: "atm_conn \<Rightarrow> atm_conn" where
  "conn_rest c = c\<lparr>c_r_buf := atm_buf_new, c_w_buf := atm_buf_new, c_write_reqs := 0\<rparr>"

definition world_rest :: "'w world_scheme \<Rightarrow> 'w world_scheme" where
  "world_rest w = w\<lparr>w_pool := None, w_ops := []\<rparr>"

lemma conn_restD:
  assumes "conn_rest c' = conn_rest c"
  shows "c_event c' = c_event c" "c_addr c' = c_addr c" "c_sock c' = c_sock c"
    "c_on_read c' = c_on_read c" "c_on_write c' = c_on_write c"
  using arg_cong [OF assms, of c_event] arg_cong [OF assms, of c_addr] arg_cong [OF assms, of c_sock]
    arg_cong [OF assms, of c_on_read] arg_cong [OF assms, of c_on_write]
  by (simp_all add: conn_rest_def)

lemma world_restD:
  assumes "world_rest w' = world_rest w"
  shows "w_tasks w' = w_tasks w" "w_ctl w' = w_ctl w" "w_free w' = w_free w"
    "world.more w' = world.more w"
  using arg_cong [OF assms, of w_tasks] arg_cong [OF assms, of w_ctl] arg_cong [OF assms, of w_free]
    arg_cong [OF assms, of world.more]
  by (simp_all add: world_rest_def)

definition notify_op :: "atm_event \<Rightarrow> u32 \<Rightarrow> event_op" where
  "notify_op e msk = atm_event_op_new (ev_addr e) msk ATM_EVENT_OP_ADD"

lemmas conn_defs = conn_event_def add_notify_def conn_rest_def world_rest_def conn_out_def conn_in_def
  notify_op_def wf_conn_def

text \<open>
  Writing appends the bytes. While no write task is on its way the event is registered for
  writing; otherwise the request is only counted.
\<close>

lemma atm_conn_write_ok:
  fixes w :: "'w world_scheme"
  assumes wf: "wf_conn c w" and e: "c_event c = Some e" and n: "unat n < 2 ^ 31" "unat n \<le> length src"
  shows "\<exists>c' w'. atm_conn_write (Some c) src n w = Inr (Some c', w') \<and> wf_conn c' w'
    \<and> conn_out c' = conn_out c @ take (unat n) src \<and> conn_in c' = conn_in c
    \<and> conn_rest c' = conn_rest c \<and> world_rest w' = world_rest w
    \<and> w_ops w' = w_ops w @ (if ev_active e \<and> \<not> c_on_write c then [notify_op e ATM_EVENT_WRITE] else [])"
proof -
  have nn: "of_nat (unat n) = n" by simp
  obtain b p where st: "atm_buf_write (c_w_buf c, w_pool w) src n = Inr (int (unat n), b, p)"
      "wf_buf (b, p)" "buf_stream (b, p) = buf_stream (c_w_buf c, w_pool w) @ take (unat n) src"
    using atm_buf_write_append [of "(c_w_buf c, w_pool w)" "unat n" src] wf n
    unfolding nn by (auto simp: wf_conn_def)
  have out: "buf_stream (b, None) = buf_stream (c_w_buf c, None) @ take (unat n) src"
    using st(3) by (simp add: buf_stream_pool [of _ "w_pool w"] buf_stream_pool [of _ p])
  have r: "wf_buf (c_r_buf c, p)"
    using wf wf_buf_pool [of "c_r_buf c" "w_pool w" p] wf_buf_poolD [OF st(2)] by (simp add: wf_conn_def)
  show ?thesis
    using st(1,2) e out r by (auto simp: atm_conn_write_def atm_conn_write_notify_def conn_defs)
qed

lemma atm_conn_write_str_ok:
  fixes w :: "'w world_scheme"
  assumes wf: "wf_conn c w" and e: "c_event c = Some e" and h: "wf_hdr h" "length (str_abs h) < 2 ^ 31"
  shows "\<exists>c' w'. atm_conn_write_str (Some c) (Some h) w = Inr (Some c', w') \<and> wf_conn c' w'
    \<and> conn_out c' = conn_out c @ map of_char (str_abs h) \<and> conn_in c' = conn_in c
    \<and> conn_rest c' = conn_rest c \<and> world_rest w' = world_rest w
    \<and> w_ops w' = w_ops w @ (if ev_active e \<and> \<not> c_on_write c then [notify_op e ATM_EVENT_WRITE] else [])"
proof -
  have n: "unat (str_len h) < 2 ^ 31" using h str_abs_length [of h] by simp
  have l: "unat (str_len h) \<le> length (map of_char (str_val h) :: u8 list)"
    using h(1) by (simp add: wf_hdr_def)
  show ?thesis
    using atm_conn_write_ok [OF wf e n l]
    by (simp add: atm_conn_write_str_def str_bytes_def atm_str_len_def str_abs_def take_map)
qed

text \<open>Reading a line takes it off the input, as \<^verbatim>\<open>atm_buf_read_line\<close> does.\<close>

definition line_text :: "u8 list \<Rightarrow> char list" where
  "line_text bs = map (\<lambda>b. char_of (unat b)) bs"

lemma atm_conn_read_line_ok:
  fixes w :: "'w world_scheme"
  assumes wf: "wf_conn c w" and len: "length (conn_in c) < 2 ^ 31"
  shows "if has_line (conn_in c)
    then \<exists>h c' w'. atm_conn_read_line c w = Inr (Some h, c', w') \<and> wf_hdr h
      \<and> str_abs h = line_text (line_of (conn_in c)) \<and> str_len h < str_cap h \<and> wf_conn c' w'
      \<and> conn_in c' = after_line (conn_in c) \<and> conn_out c' = conn_out c
      \<and> conn_rest c' = conn_rest c \<and> world_rest w' = world_rest w \<and> w_ops w' = w_ops w
    else \<exists>c' w'. atm_conn_read_line c w = Inr (None, c', w') \<and> c' = c \<and> w' = w"
proof -
  let ?st = "(c_r_buf c, w_pool w)"
  have s: "buf_stream ?st = conn_in c" unfolding conn_in_def by (rule buf_stream_pool)
  note rl = atm_buf_read_line_ok [of ?st, unfolded s]
  have wfs: "wf_buf ?st" using wf by (simp add: wf_conn_def)
  show ?thesis
  proof (cases "has_line (conn_in c)")
    case False
    then show ?thesis using rl [OF wfs len] by (simp add: atm_conn_read_line_def)
  next
    case True
    let ?l = "line_of (conn_in c)"
    obtain n b p where st: "atm_buf_read_line ?st = Inr (Some (?l @ replicate (Suc n) 0), b, p)"
        "wf_buf (b, p)" "buf_stream (b, p) = after_line (conn_in c)"
      using rl [OF wfs len] True by auto
    have nz: "0 \<notin> set ?l" by (auto simp: line_of_def is_nl_def dest: set_takeWhileD)
    have nul: "NUL \<notin> set (line_text ?l)"
    proof
      assume "NUL \<in> set (line_text ?l)"
      then obtain x where x: "x \<in> set ?l" "char_of (unat x) = NUL" by (auto simp: line_text_def)
      have "unat x < 256" using unsigned_less [of x] by simp
      then have "unat x = of_char (char_of (unat x) :: char)" by (simp add: of_char_of)
      then have "unat x = 0" using x(2) by (simp add: NUL_def)
      then show False using x(1) nz by (simp add: unat_eq_zero)
    qed
    have z: "char_of (unat (0 :: u8)) = NUL" by (simp add: NUL_def char_of_def)
    have cs: "c_str (line_text (?l @ replicate (Suc n) 0)) = line_text ?l"
      using c_str_append_NUL [OF nul, of "line_text (replicate n 0)"] z by (simp add: line_text_def)
    have "length ?l \<le> length (conn_in c)" by (simp add: line_of_def length_takeWhile_le)
    then have sm: "c_strlen (line_text (?l @ replicate (Suc n) 0)) < 2 ^ 32 - 32"
      using len cs by (simp add: c_strlen_def line_text_def)
    obtain h where h: "atm_str_new (Some (line_text (?l @ replicate (Suc n) 0))) = Inr (Some h)"
        "wf_hdr h" "str_abs h = line_text ?l" "length (line_text ?l) < unat (str_cap h)"
      using atm_str_new_text [OF sm] cs by (auto simp: c_strlen_def)
    have "str_len h < str_cap h"
      using h(4) str_abs_length [OF h(2)] h(3) by (simp add: word_less_nat_alt)
    moreover have "wf_buf (c_w_buf c, p)"
      using wf wf_buf_pool [of "c_w_buf c" "w_pool w" p] wf_buf_poolD [OF st(2)] by (simp add: wf_conn_def)
    moreover have "buf_stream (b, None) = after_line (conn_in c)" using st(3) by (simp add: buf_stream_pool [of _ p])
    ultimately show ?thesis using True st(1,2) h(1-3)
      by (simp add: atm_conn_read_line_def line_text_def conn_defs)
  qed
qed

end
