(* ===== verification/Atm_Conn_Props.thy ===== *)
theory Atm_Conn_Props
  imports Atm_Conn
begin

text \<open>
  What the write task of a connection sends and leaves, and which connections the free task
  frees. The stall is the case of the write task in which bytes are left and nothing will
  write them: the event is not registered again and no task is on its way.
\<close>

section \<open>The write task\<close>

lemma aval_pos:
  assumes "wf_buf (b, p)" "length (buf_stream (b, p)) < 2 ^ 31"
  shows "0 < sint (ucast (buf_aval b) :: u32) \<longleftrightarrow> buf_stream (b, p) \<noteq> []"
proof -
  have "buf_aval b = of_nat (length (buf_stream (b, p)))" using assms(1) by (simp add: wf_buf_def)
  moreover have "take_bit 64 (length (buf_stream (b, p))) = length (buf_stream (b, p))"
    using assms(2) by (intro take_bit_nat_eq_self) simp
  ultimately have "(ucast (buf_aval b) :: u32) = of_nat (length (buf_stream (b, p)))"
    by (simp add: unsigned_of_nat)
  moreover have "sint (of_nat (length (buf_stream (b, p))) :: u32) = int (length (buf_stream (b, p)))"
    using assms(2) by (simp add: signed_of_nat signed_take_bit_int_eq_self)
  ultimately show ?thesis by simp
qed

lemma task_write_raw_ok:
  fixes w :: "'w world_scheme"
  assumes wf: "wf_conn c w" and snk: "sock_sink wr sent" and fuel: "length (conn_out c) < fuel"
  shows "\<exists>k r s' c' w'. atm_buf_write_sock wr fuel s (c_w_buf c, w_pool w) = Inr (r, s', c_w_buf c', w_pool w')
    \<and> atm_conn_task_write_raw wr fuel s c w = Inr (r, s', c', w') \<and> wf_conn c' w'
    \<and> sent s' = sent s @ take k (conn_out c) \<and> conn_out c' = drop k (conn_out c) \<and> conn_in c' = conn_in c
    \<and> c_write_reqs c' = c_write_reqs c \<and> conn_rest c' = conn_rest c \<and> world_rest w' = world_rest w
    \<and> w_ops w' = w_ops w \<and> (0 < k \<longrightarrow> r = int k)
    \<and> (sock_eager wr good \<and> good s (length (conn_out c)) \<longrightarrow> k = length (conn_out c))"
proof -
  let ?st = "(c_w_buf c, w_pool w)"
  have s: "buf_stream ?st = conn_out c" unfolding conn_out_def by (rule buf_stream_pool)
  have wfs: "wf_buf ?st" using wf by (simp add: wf_conn_def)
  obtain k r s' st' where st': "write_sock_loop wr fuel s ?st 0 0 = Inr (r, s', st')" "wf_buf st'"
      "sent s' = sent s @ take k (conn_out c)" "buf_stream st' = drop k (conn_out c)"
      "0 < 0 + int k \<longrightarrow> r = 0 + int k"
      "sock_eager wr good \<and> good s (length (conn_out c)) \<longrightarrow> k = length (conn_out c)"
    using write_sock_loop_ok [OF snk wfs, of fuel 0 s 0 good] fuel unfolding s by blast
  obtain b p where bp: "st' = (b, p)" by (cases st')
  note st = st' [unfolded bp]
  have "wf_buf (c_r_buf c, p)"
    using wf wf_buf_pool [of "c_r_buf c" "w_pool w" p] wf_buf_poolD [OF st(2)] by (simp add: wf_conn_def)
  moreover have "buf_stream (b, None) = drop k (conn_out c)"
    using st(4) by (simp add: buf_stream_pool [of _ p])
  ultimately show ?thesis using st(1-3,5,6)
    by (intro exI [of _ k] exI [of _ r] exI [of _ s'] exI [of _ "c\<lparr>c_w_buf := b\<rparr>"] exI [of _ "w\<lparr>w_pool := p\<rparr>"])
       (simp add: atm_conn_task_write_raw_def atm_buf_write_sock_def conn_defs)
qed

text \<open>
  Property C20. The write task of an active connection sends a prefix of the waiting bytes,
  in order, and clears \<^verbatim>\<open>on_write\<close>. On an error of the socket it deactivates the connection,
  queues it to be freed and sends the free task. Otherwise the event is registered for
  writing again only if the result was 0: after a write that took a part of the bytes, or
  none for now, the rest stays in the buffer and nothing is registered that would send it.
\<close>

theorem atm_conn_task_write_outcome:
  fixes w :: "'w world_scheme"
  assumes wf: "wf_conn c w" and snk: "sock_sink wr sent" and e: "c_event c = Some e" "ev_active e"
    and fuel: "length (conn_out c) < fuel" and len: "length (conn_out c) < 2 ^ 31" and l: "wf_list (w_free w)"
  shows "\<exists>k r s' c' w' b p. atm_buf_write_sock wr fuel s (c_w_buf c, w_pool w) = Inr (r, s', b, p)
    \<and> sent s' = sent s @ take k (conn_out c) \<and> conn_out c' = drop k (conn_out c)
    \<and> (0 < k \<longrightarrow> r = int k) \<and> \<not> c_on_write c'
    \<and> (if r = -1 \<and> \<not> eagain s'
       then atm_conn_task_write wr eagain fuel s c w = Inr (ATM_ERROR, s', c', w')
         \<and> c_event c' = Some (atm_event_inactive e) \<and> w_ops w' = w_ops w
         \<and> list_vals (w_free w') = list_vals (w_free w) @ [c_addr c]
         \<and> w_tasks w' = w_tasks w @ [atm_task_new None Task_free]
       else atm_conn_task_write wr eagain fuel s c w = Inr (ATM_OK, s', c', w')
         \<and> c_event c' = Some e \<and> w_tasks w' = w_tasks w \<and> w_free w' = w_free w
         \<and> w_ops w' = w_ops w @ (if r = 0 \<and> conn_out c' \<noteq> [] then [notify_op e ATM_EVENT_WRITE] else []))"
proof -
  obtain n where n: "fuel = Suc n" using fuel by (cases fuel) simp_all
  obtain k r s' c1 w1 where raw: "atm_buf_write_sock wr fuel s (c_w_buf c, w_pool w) = Inr (r, s', c_w_buf c1, w_pool w1)"
      "atm_conn_task_write_raw wr fuel s c w = Inr (r, s', c1, w1)" "wf_conn c1 w1"
      "sent s' = sent s @ take k (conn_out c)" "conn_out c1 = drop k (conn_out c)"
      "c_write_reqs c1 = c_write_reqs c" "conn_rest c1 = conn_rest c" "world_rest w1 = world_rest w" "w_ops w1 = w_ops w"
      "0 < k \<longrightarrow> r = int k"
    using task_write_raw_ok [OF wf snk fuel] by blast
  note cr = conn_restD [OF raw(7)] and wr = world_restD [OF raw(8)]
  have e1: "conn_event c1 = Inr e" "conn_event c = Inr e" using cr e by (simp_all add: conn_event_def)
  let ?c = "c1\<lparr>c_on_write := False\<rparr>"
  have out: "conn_out ?c = drop k (conn_out c)" using raw(5) by (simp add: conn_out_def)
  consider (err) "r = -1" "\<not> eagain s'" | (zero) "r = 0" | (part) "r \<noteq> 0" "\<not> (r = -1 \<and> \<not> eagain s')" by blast
  then show ?thesis
  proof cases
    case err
    let ?d = "?c\<lparr>c_event := Some (atm_event_inactive e)\<rparr>"
    obtain fl where fl: "atm_list_push (w_free w1) (c_addr c) = Inr fl"
        "list_vals fl = list_vals (w_free w) @ [c_addr c]"
      using atm_list_push_vals [of "w_free w1" "c_addr c"] wr(3) l by auto
    have "atm_conn_task_write wr eagain fuel s c w =
        Inr (ATM_ERROR, s', ?d, atm_conn_free_notify (w1\<lparr>w_free := fl\<rparr>))"
      using err e e1 raw(2) fl(1) cr n
      by (simp add: atm_conn_task_write_def atm_conn_inactive_def atm_conn_free_enqueue_def clear_flag_def Let_def)
    then show ?thesis using err raw(1,4,5,9,10) fl(2) wr
      by (intro exI [of _ k] exI [of _ r] exI [of _ s'] exI [of _ ?d]
            exI [of _ "atm_conn_free_notify (w1\<lparr>w_free := fl\<rparr>)"] exI [of _ "c_w_buf c1"] exI [of _ "w_pool w1"])
         (simp add: atm_conn_free_notify_def atm_task_dispatch_def conn_out_def)
  next
    case zero
    have b: "wf_buf (c_w_buf c1, w_pool w1)" using raw(3) by (simp add: wf_conn_def)
    have bo: "buf_stream (c_w_buf c1, w_pool w1) = conn_out c1" unfolding conn_out_def by (rule buf_stream_pool)
    have av: "0 < sint (ucast (buf_aval (c_w_buf c1)) :: u32) \<longleftrightarrow> conn_out c1 \<noteq> []"
      using aval_pos [OF b] bo raw(5) len by simp
    let ?w = "if conn_out c1 \<noteq> [] then add_notify e ATM_EVENT_WRITE w1 else w1"
    have "atm_conn_task_write wr eagain fuel s c w = Inr (ATM_OK, s', ?c, ?w)"
      using zero e e1 raw(2,6) cr n av
      by (simp add: atm_conn_task_write_def atm_conn_inter_write_def atm_conn_free_check_def clear_flag_def Let_def
            conn_event_def)
    then show ?thesis using zero raw(1,4,5,9,10) wr cr e
      by (intro exI [of _ k] exI [of _ r] exI [of _ s'] exI [of _ ?c] exI [of _ ?w]
            exI [of _ "c_w_buf c1"] exI [of _ "w_pool w1"])
         (simp add: add_notify_def notify_op_def conn_out_def)
  next
    case part
    have "atm_conn_task_write wr eagain fuel s c w = Inr (ATM_OK, s', ?c, w1)"
      using part e e1 raw(2,6) cr n
      by (auto simp add: atm_conn_task_write_def atm_conn_yield_write_def atm_conn_free_check_def clear_flag_def Let_def
            conn_event_def)
    then show ?thesis using part raw(1,4,5,9,10) wr cr e
      by (intro exI [of _ k] exI [of _ r] exI [of _ s'] exI [of _ ?c] exI [of _ w1]
            exI [of _ "c_w_buf c1"] exI [of _ "w_pool w1"])
         (auto simp add: conn_out_def)
  qed
qed

definition once_write :: "u8 list sys_write" where
  "once_write s bs = (if s = [] then (int (length (take 2 bs)), take 2 bs) else (-1, s))"

text \<open>A connection and a world to run on.\<close>

definition test_sock :: atm_socket where
  "test_sock = \<lparr>so_fd = 5, so_src_ip = None, so_src_port = 80, so_dst_ip = None, so_dst_port = 0\<rparr>"

definition test_conn :: atm_conn where
  "test_conn = (atm_conn_new 0 test_sock)\<lparr>c_event := Some (atm_event_new 1 5 True True)\<rparr>"

definition test_world :: world where
  "test_world = \<lparr>w_pool = atm_blk_init, w_ops = [], w_tasks = [], w_ctl = [],
     w_free = atm_list_new None ATM_FREE_SHALLOW\<rparr>"

lemma test_conn_ok:
  "wf_conn test_conn test_world" "c_event test_conn = Some (atm_event_new 1 5 True True)"
  "ev_active (atm_event_new 1 5 True True)" "conn_out test_conn = []" "conn_in test_conn = []"
  "wf_list (w_free test_world)" "\<not> c_on_write test_conn"
  using wf_buf_new [of atm_blk_init] wf_buf_new(2) [of None]
  by (simp_all add: test_conn_def test_world_def atm_conn_new_def atm_event_new_def wf_conn_def
      conn_out_def conn_in_def)

lemma test_conn_out:
  assumes "length bs < 2 ^ 31"
  obtains c w where "atm_conn_write (Some test_conn) bs (of_nat (length bs)) test_world = Inr (Some c, w)"
    "wf_conn c w" "conn_out c = bs" "conn_in c = []" "c_event c = Some (atm_event_new 1 5 True True)"
    "world_rest w = world_rest test_world" "wf_list (w_free w)"
proof -
  have u: "unat (of_nat (length bs) :: u32) = length bs"
    using assms by (intro unat_of_nat_small) simp
  obtain c w where cw: "atm_conn_write (Some test_conn) bs (of_nat (length bs)) test_world = Inr (Some c, w)"
      "wf_conn c w" "conn_out c = conn_out test_conn @ take (unat (of_nat (length bs) :: u32)) bs"
      "conn_in c = conn_in test_conn" "conn_rest c = conn_rest test_conn" "world_rest w = world_rest test_world"
    using atm_conn_write_ok [OF test_conn_ok(1,2), of "of_nat (length bs)" bs] assms u by auto
  show thesis
    using that [OF cw(1,2)] cw(3,4,6) u test_conn_ok conn_restD(1) [OF cw(5)] world_restD(3) [OF cw(6)] by simp
qed

theorem atm_conn_task_write_outcome_witness:
  "\<exists>c w k r s' c' (w' :: world). conn_out c = [1, 2, 3] \<and> atm_conn_task_write once_write (\<lambda>_. True) 9 [] c w = Inr (ATM_OK, s', c', w')
    \<and> s' = take k [1, 2, 3] \<and> conn_out c' = drop k [1, 2, 3] \<and> (0 < k \<longrightarrow> r = int k) \<and> \<not> c_on_write c'
    \<and> (r \<noteq> 0 \<longrightarrow> w_ops w' = w_ops w)"
proof -
  obtain c w where cw: "wf_conn c w" "conn_out c = [1, 2, 3]"
      "c_event c = Some (atm_event_new 1 5 True True)" "wf_list (w_free (w :: world))"
    by (rule test_conn_out [of "[1, 2, 3]"]) (simp, rule that)
  have snk: "sock_sink once_write id" by (auto simp: sock_sink_def once_write_def min_def)
  have l: "length (conn_out c) < 9" "length (conn_out c) < 2 ^ 31" using cw(2) by simp_all
  from atm_conn_task_write_outcome [OF cw(1) snk cw(3) test_conn_ok(3) l cw(4), of "[]" "\<lambda>_. True",
      unfolded cw(2) id_apply append_Nil not_True_eq_False simp_thms if_False]
  obtain k r s' c' w' where h: "s' = take k [1, 2, 3]" "conn_out c' = drop k [1, 2, 3]" "0 < k \<longrightarrow> r = int k"
      "\<not> c_on_write c'" "atm_conn_task_write once_write (\<lambda>_. True) 9 [] c w = Inr (ATM_OK, s', c', w')"
      "w_ops w' = w_ops w @ (if r = 0 \<and> conn_out c' \<noteq> [] then [notify_op (atm_event_new 1 5 True True) ATM_EVENT_WRITE] else [])"
    by (elim exE conjE) (rule that)
  have "r \<noteq> 0 \<longrightarrow> w_ops w' = w_ops w" using h(6) by simp
  with h(1-5) cw(2) show ?thesis by blast
qed

section \<open>The free task\<close>

lemma free_loop_ok:
  assumes fr: "\<And>c s. fr c s = Inr (F c s)" and busy: "\<And>c d s. c \<noteq> d \<Longrightarrow> busy c (F d s) = busy c s"
  shows "wf_list l \<Longrightarrow> list_vals l = todo @ kept \<Longrightarrow> distinct (todo @ kept) \<Longrightarrow>
    unproc = (case kept of [] \<Rightarrow> None | d # _ \<Rightarrow> Some d) \<Longrightarrow> \<forall>c \<in> set todo. busy c s = Inr (B c) \<Longrightarrow>
    length todo < n \<Longrightarrow>
    \<exists>l'. free_loop busy fr n unproc l s = Inr (l', fold F (filter (\<lambda>c. \<not> B c) todo) s)
      \<and> wf_list l' \<and> list_vals l' = kept @ filter B todo"
proof (induction n arbitrary: unproc l s todo kept)
  case (Suc n)
  have pk: "atm_list_lpeek l = Inr (case todo @ kept of [] \<Rightarrow> None | c # _ \<Rightarrow> Some c)"
    using ld.lpeek_law [OF Suc.prems(1)] Suc.prems(2) by simp
  show ?case
  proof (cases todo)
    case Nil
    then have "atm_list_lpeek l = Inr unproc" using pk Suc.prems(4) by (simp split: list.splits)
    then show ?thesis using Suc.prems(1,2) Nil by simp
  next
    case (Cons c cs)
    have ne: "Some c \<noteq> unproc" using Suc.prems(3,4) Cons by (auto split: list.splits)
    have pk: "atm_list_lpeek l = Inr (Some c)" using pk Cons by simp
    obtain l1 where l1: "atm_list_lpop l = Inr (Some c, l1)" "wf_list l1" "list_vals l1 = cs @ kept"
      using ld.lpop_law [OF Suc.prems(1), of c "cs @ kept"] Suc.prems(2) Cons by auto
    have bc: "busy c s = Inr (B c)" using Suc.prems(5) Cons by simp
    show ?thesis
    proof (cases "B c")
      case False
      have b: "\<forall>d \<in> set cs. busy d (F c s) = Inr (B d)"
      proof
        fix d assume "d \<in> set cs"
        then have "d \<noteq> c" "busy d s = Inr (B d)" using Suc.prems(3,5) Cons by auto
        then show "busy d (F c s) = Inr (B d)" using busy by simp
      qed
      have "distinct (cs @ kept)" "length cs < n" using Suc.prems(3,6) Cons by simp_all
      from Suc.IH [OF l1(2,3) this(1) Suc.prems(4) b this(2)] show ?thesis
        using pk ne l1(1) bc False fr Cons by simp
    next
      case True
      obtain l2 where l2: "atm_list_push l1 c = Inr l2" "wf_list l2" "list_vals l2 = cs @ kept @ [c]"
        using ld.push_law [OF l1(2), of c] l1(3) by auto
      let ?u = "if unproc = None then Some c else unproc"
      have u: "?u = (case kept @ [c] of [] \<Rightarrow> None | d # _ \<Rightarrow> Some d)"
        using Suc.prems(4) by (simp split: list.splits)
      have d: "distinct (cs @ kept @ [c])" and b: "\<forall>d \<in> set cs. busy d s = Inr (B d)" and n: "length cs < n"
        using Suc.prems(3,5,6) Cons by auto
      from Suc.IH [OF l2(2,3) d u b n] show ?thesis
        using pk ne l1(1) l2(1) bc True Cons by simp
    qed
  qed
qed simp

lemma fold_remove: "fold (\<lambda>c h. h(c := None)) cs h = (\<lambda>x. if x \<in> set cs then None else h x)"
  by (induction cs arbitrary: h) (auto simp: fun_eq_iff)



end
