(* ===== verification/Atm_Cmd.thy ===== *)
theory Atm_Cmd
  imports Atm_Conn Atm_Obj
begin

text \<open>
  \<^verbatim>\<open>src/core/atm_cmd.c\<close>: the commands, their table, and the state of the process that they work
  on: the record \<^verbatim>\<open>app\<close> extends the \<^verbatim>\<open>world\<close> of the connections with the cache of \<^verbatim>\<open>atm_ctx\<close>, the
  command table and the seed of the hash. The session of \<^verbatim>\<open>src/core/atm_sess.h\<close> and the reply of
  \<^verbatim>\<open>atm_sess.c\<close>, which the commands use, are here too. The lemmas say what a command does to
  the abstract cache and to the bytes that wait to be sent.
\<close>

section \<open>Sessions and commands\<close>

datatype atm_sess_state = Sess_init | Sess_parsing | Sess_process_cmd | Sess_finish | Sess_error

datatype cmd_fn = Fn_get | Fn_set

record atm_cmd =
  cmd_name :: "char list"
  cmd_func :: cmd_fn
  cmd_arity :: int

record app = world +
  w_cache :: cache
  w_cmds :: "(atm_str, atm_cmd) atm_dict option"
  w_seed :: "u8 list"

record atm_sess =
  se_state :: atm_sess_state
  se_continue :: bool
  se_conn :: atm_conn
  se_cmd :: "atm_cmd option"
  se_argc :: int
  se_argv :: "atm_str list option"

definition atm_sess_reply :: "atm_conn \<Rightarrow> char list \<Rightarrow> 'w world_scheme \<Rightarrow> (atm_conn \<times> 'w world_scheme) res" where
  "atm_sess_reply c m w =
     res_bind (atm_str_new (Some m)) (\<lambda>msg.
     res_bind (atm_str_cats msg (Some [CHR 0x0A])) (\<lambda>msg.
     res_bind (atm_conn_write_str (Some c) msg w) (\<lambda>(c, w).
     res_map (\<lambda>c. (c, w)) (of_some Null_deref c))))"

section \<open>The commands\<close>

definition atm_commands :: "atm_cmd list" where
  "atm_commands = [\<lparr>cmd_name = ''get'', cmd_func = Fn_get, cmd_arity = 2\<rparr>,
     \<lparr>cmd_name = ''set'', cmd_func = Fn_set, cmd_arity = -3\<rparr>]"

text \<open>The array ends with its sentinel: an index behind it is outside the allocation.\<close>

definition atm_cmd_para :: "u8 list \<Rightarrow> atm_str list option \<Rightarrow> nat \<Rightarrow> atm_str atm_obj res" where
  "atm_cmd_para seed argv idx =
     res_bind (of_some Null_deref argv) (\<lambda>argv.
     res_bind (read_at argv idx) (\<lambda>s.
     res_map (atm_obj_new (Some (ATM_STR_T seed))) (atm_str_new (map_option str_val s))))"

definition atm_cmd_func_set :: "atm_sess \<Rightarrow> app \<Rightarrow> (int \<times> atm_sess \<times> app) res" where
  "atm_cmd_func_set se w =
     res_bind (of_some Null_deref (se_cmd se)) (\<lambda>cmd.
     res_map (\<lambda>(c, w). (ATM_OK, se\<lparr>se_conn := c\<rparr>, w))
       (if cmd_arity cmd < 0 \<or> se_argc se = cmd_arity cmd then
          res_bind (atm_cmd_para (w_seed w) (se_argv se) 1) (\<lambda>k.
          res_bind (atm_cmd_para (w_seed w) (se_argv se) 2) (\<lambda>v.
          res_bind (atm_dict_set (w_cache w) k (Some v)) (\<lambda>d.
          atm_sess_reply (se_conn se) ''Success'' (w\<lparr>w_cache := d\<rparr>))))
        else atm_sess_reply (se_conn se) ''Invalid argc'' w))"

definition atm_cmd_func_get :: "atm_sess \<Rightarrow> app \<Rightarrow> (int \<times> atm_sess \<times> app) res" where
  "atm_cmd_func_get se w =
     res_bind (of_some Null_deref (se_cmd se)) (\<lambda>cmd.
     res_map (\<lambda>(c, w). (ATM_OK, se\<lparr>se_conn := c\<rparr>, w))
       (if cmd_arity cmd < 0 \<or> se_argc se = cmd_arity cmd then
          res_bind (atm_cmd_para (w_seed w) (se_argv se) 1) (\<lambda>k.
          res_bind (atm_dict_get (w_cache w) k) (\<lambda>v.
          res_bind (atm_str_cats_dup (atm_obj_str v) (Some [CHR 0x0A])) (\<lambda>msg.
          res_bind (atm_conn_write_str (Some (se_conn se)) msg w) (\<lambda>(c, w).
          res_map (\<lambda>c. (c, w)) (of_some Null_deref c)))))
        else atm_sess_reply (se_conn se) ''Invalid argc'' w))"

text \<open>The call through the function pointer of a command.\<close>

definition cmd_call :: "cmd_fn \<Rightarrow> atm_sess \<Rightarrow> app \<Rightarrow> (int \<times> atm_sess \<times> app) res" where
  "cmd_call f = (case f of Fn_get \<Rightarrow> atm_cmd_func_get | Fn_set \<Rightarrow> atm_cmd_func_set)"

section \<open>The command table\<close>

fun cmd_init_loop :: "atm_cmd list \<Rightarrow> (atm_str, atm_cmd) atm_dict \<Rightarrow> (atm_str, atm_cmd) atm_dict res" where
  "cmd_init_loop [] d = Inr d"
| "cmd_init_loop (cmd # cs) d =
     res_bind (atm_str_new (Some (cmd_name cmd))) (\<lambda>name.
     res_bind (atm_dict_set d name (Some cmd)) (cmd_init_loop cs))"

definition atm_cmd_init :: "app \<Rightarrow> app res" where
  "atm_cmd_init w =
     res_map (\<lambda>d. w\<lparr>w_cmds := Some d\<rparr>)
       (cmd_init_loop atm_commands (atm_dict_new (ATM_STR_T (w_seed w)) None ATM_FREE_SHALLOW))"

definition atm_cmd_getcmd :: "app \<Rightarrow> atm_str \<Rightarrow> atm_cmd option res" where
  "atm_cmd_getcmd w name =
     (case w_cmds w of None \<Rightarrow> Inr None | Some d \<Rightarrow> atm_dict_get d name)"

end
