(* ===== verification/Atm_Sess.thy ===== *)
theory Atm_Sess
  imports Atm_Cmd
begin

text \<open>
  \<^verbatim>\<open>src/core/atm_sess.c\<close>: the state machine of a session. A session owns its connection, so the
  connection is a part of its record. The loop of \<^verbatim>\<open>atm_sess_process\<close> passes each state at
  most once, so that five rounds are enough.
\<close>

definition atm_sess_chstat :: "atm_sess \<Rightarrow> atm_sess_state \<Rightarrow> atm_sess" where
  "atm_sess_chstat se st = se\<lparr>se_state := st, se_continue := True\<rparr>"

definition atm_sess_reset :: "atm_sess \<Rightarrow> (int \<times> atm_sess) res" where
  "atm_sess_reset se =
     res_map (\<lambda>_. (ATM_OK, se\<lparr>se_argc := 0, se_argv := None, se_cmd := None,
         se_state := Sess_init, se_continue := False\<rparr>))
       (atm_str_split_free (se_argv se))"

definition atm_sess_process_cmd :: "atm_sess \<Rightarrow> app \<Rightarrow> (int \<times> atm_sess \<times> app) res" where
  "atm_sess_process_cmd se w =
     res_map (\<lambda>(se, w). (ATM_OK, atm_sess_chstat se Sess_finish, w))
       (case se_cmd se of
          Some cmd \<Rightarrow> res_map snd (cmd_call (cmd_func cmd) se w)
        | None \<Rightarrow> res_map (\<lambda>(c, w). (se\<lparr>se_conn := c\<rparr>, w)) (atm_sess_reply (se_conn se) ''Invalid cmd'' w))"

text \<open>The arguments: with none of them the name of the command is not initialised.\<close>

definition sess_args :: "atm_str list \<Rightarrow> atm_sess \<Rightarrow> app \<Rightarrow> atm_sess res" where
  "sess_args argv se w =
     res_bind (split_count argv) (\<lambda>argc.
     res_bind (if argc = 0 then Inl Bad_access else read_at argv 0) (\<lambda>cmd_name.
     res_map (\<lambda>cmd. se\<lparr>se_argc := int argc, se_argv := Some argv, se_cmd := cmd\<rparr>)
       (atm_cmd_getcmd w cmd_name)))"

definition atm_sess_parsing :: "atm_sess \<Rightarrow> app \<Rightarrow> (int \<times> atm_sess \<times> app) res" where
  "atm_sess_parsing se w =
     (let se = se\<lparr>se_continue := False\<rparr> in
      res_bind (atm_conn_read_line (se_conn se) w) (\<lambda>(line, c, w).
      let se = se\<lparr>se_conn := c\<rparr> in
      case line of None \<Rightarrow> Inr (ATM_OK, se, w)
      | Some h \<Rightarrow>
          res_bind (atm_str_split (str_val h) CHR '' '' (unat (atm_str_len line))) (\<lambda>argv.
          res_map (\<lambda>se. (ATM_OK, atm_sess_chstat se Sess_process_cmd, w))
            (case argv of None \<Rightarrow> Inr se | Some argv \<Rightarrow> sess_args argv se w))))"

definition atm_sess_new :: "atm_conn \<Rightarrow> atm_sess" where
  "atm_sess_new c = \<lparr>se_state = Sess_init, se_continue = False, se_conn = c, se_cmd = None,
     se_argc = 0, se_argv = None\<rparr>"

text \<open>\<^verbatim>\<open>sess\<close> is used before it is compared with NULL.\<close>

definition atm_sess_free :: "atm_sess option \<Rightarrow> 'w world_scheme \<Rightarrow> (int list \<times> 'w world_scheme) res" where
  "atm_sess_free sess w =
     res_bind (of_some Null_deref sess) (\<lambda>se.
     res_bind (case se_argv se of None \<Rightarrow> Inr () | Some argv \<Rightarrow> res_map (\<lambda>_. ()) (split_count argv)) (\<lambda>_.
     atm_conn_free (Some (se_conn se)) w))"

text \<open>One round of the loop; a return out of the loop is \<^verbatim>\<open>None\<close>.\<close>

definition sess_round :: "atm_sess \<Rightarrow> app \<Rightarrow> (atm_sess \<times> app) option res" where
  "sess_round se w =
     (let se = se\<lparr>se_continue := False\<rparr> in
      case se_state se of
        Sess_init \<Rightarrow> Inr (Some (atm_sess_chstat se Sess_parsing, w))
      | Sess_parsing \<Rightarrow> res_map (Some \<circ> snd) (atm_sess_parsing se w)
      | Sess_process_cmd \<Rightarrow> res_map (Some \<circ> snd) (atm_sess_process_cmd se w)
      | Sess_finish \<Rightarrow> res_map (\<lambda>(_, se). Some (se, w)) (atm_sess_reset se)
      | Sess_error \<Rightarrow> Inr None)"

fun sess_loop :: "nat \<Rightarrow> atm_sess \<Rightarrow> app \<Rightarrow> (int \<times> atm_sess \<times> app) res" where
  "sess_loop 0 se w = Inl No_return"
| "sess_loop (Suc n) se w =
     res_bind (sess_round se w) (\<lambda>r.
       case r of None \<Rightarrow> Inr (ATM_ERROR, se\<lparr>se_continue := False\<rparr>, w)
       | Some (se, w) \<Rightarrow> if se_continue se then sess_loop n se w else Inr (ATM_OK, se, w))"

definition atm_sess_process :: "atm_sess \<Rightarrow> app \<Rightarrow> (int \<times> atm_sess \<times> app) res" where
  "atm_sess_process se w = sess_loop 5 se w"

end
