(* ===== verification/Atm_Cmd_Lemmas.thy ===== *)
theory Atm_Cmd_Lemmas
  imports Atm_Sess Atm_Conn_Props Atm_Str_Words
begin

text \<open>
  The lemmas on the commands (\<^verbatim>\<open>src/core/atm_cmd.c\<close>) and on the texts they handle: messages with
  their line end, the words of a line, the command table after \<^verbatim>\<open>atm_cmd_init\<close>, and the cache
  as a map from texts to texts, which is what the specification of the commands is stated on.
\<close>

section \<open>Messages\<close>

text \<open>Bytes that a string leaves on a connection.\<close>

definition bytes_of :: "char list \<Rightarrow> u8 list" where
  "bytes_of t = map of_char t"

lemma atm_sess_reply_ok:
  fixes w :: "'w world_scheme"
  assumes wf: "wf_conn c w" and e: "c_event c = Some e" and m: "NUL \<notin> set m" "length m < 2 ^ 31 - 1"
  shows "\<exists>c' w'. atm_sess_reply c m w = Inr (c', w') \<and> wf_conn c' w'
    \<and> conn_out c' = conn_out c @ bytes_of (m @ [NL]) \<and> conn_in c' = conn_in c
    \<and> conn_rest c' = conn_rest c \<and> world_rest w' = world_rest w
    \<and> w_ops w' = w_ops w @ (if ev_active e \<and> \<not> c_on_write c then [notify_op e ATM_EVENT_WRITE] else [])"
proof -
  obtain h where h: "atm_str_new (Some m) = Inr (Some h)" "fit_hdr h" "str_abs h = m"
    using str_new_fit [OF m] by blast
  obtain h' where h': "atm_str_cats (Some h) (Some [NL]) = Inr (Some h')" "wf_hdr h'" "str_abs h' = m @ [NL]"
    using str_newline [OF h(2)] h(3) by auto
  have "length (str_abs h') < 2 ^ 31" using h'(3) m(2) by simp
  from atm_conn_write_str_ok [OF wf e h'(2) this] h(1) h'(1,3) show ?thesis
    by (auto simp: atm_sess_reply_def bytes_of_def)
qed

section \<open>The command table\<close>

definition cmd_table :: "char list \<rightharpoonup> atm_cmd" where
  "cmd_table = map_of (map (\<lambda>c. (cmd_name c, c)) atm_commands)"

definition cmds_ok :: "app \<Rightarrow> bool" where
  "cmds_ok w \<longleftrightarrow> (\<exists>d. w_cmds w = Some d \<and> dict_store (ATM_STR_T (w_seed w)) str_ok str_id (text_hash (w_seed w)) d
     \<and> dict_map str_id (text_hash (w_seed w)) d = cmd_table)"

lemma cmd_init_loop_ok:
  assumes "dict_store (ATM_STR_T seed) str_ok str_id (text_hash seed) d"
    "\<forall>c \<in> set cs. NUL \<notin> set (cmd_name c) \<and> length (cmd_name c) < 2 ^ 31 - 1"
    "\<forall>c \<in> set cs. dict_map str_id (text_hash seed) d (cmd_name c) = None" "distinct (map cmd_name cs)"
    "dict_n d + length cs < 2 ^ 27"
  shows "\<exists>d'. cmd_init_loop cs d = Inr d' \<and> dict_store (ATM_STR_T seed) str_ok str_id (text_hash seed) d'
    \<and> dict_map str_id (text_hash seed) d' = dict_map str_id (text_hash seed) d ++ map_of (map (\<lambda>c. (cmd_name c, c)) cs)"
  using assms
proof (induction cs arbitrary: d)
  case (Cons c cs)
  obtain h where h: "atm_str_new (Some (cmd_name c)) = Inr (Some h)" "fit_hdr h" "str_abs h = cmd_name c"
    using str_new_fit [of "cmd_name c"] Cons.prems(2) by auto
  have k: "str_ok (Some h)" "str_id (Some h) = cmd_name c" using h by (simp_all add: str_ok_def fit_hdr_def str_id_def)
  have none: "dict_map str_id (text_hash seed) d (str_id (Some h)) = None" using k(2) Cons.prems(3) by simp
  have n: "dict_n d + 1 < 2 ^ 27" using Cons.prems(5) by simp
  obtain d1 where d1: "atm_dict_set d (Some h) (Some c) = Inr d1"
      "dict_store (ATM_STR_T seed) str_ok str_id (text_hash seed) d1"
      "dict_map str_id (text_hash seed) d1 = (dict_map str_id (text_hash seed) d)(cmd_name c \<mapsto> c)" "dict_n d1 \<le> dict_n d + 1"
    using kvs.put_law [OF Cons.prems(1) k(1) kvs.room_law [OF Cons.prems(1) k(1) none n], of c] k(2) by auto
  have ne: "\<forall>x \<in> set cs. cmd_name x \<noteq> cmd_name c" using Cons.prems(4) by (auto simp: image_iff)
  have p: "\<forall>x \<in> set cs. dict_map str_id (text_hash seed) d1 (cmd_name x) = None"
    using ne d1(3) Cons.prems(3) by simp
  obtain d' where d': "cmd_init_loop cs d1 = Inr d'" "dict_store (ATM_STR_T seed) str_ok str_id (text_hash seed) d'"
      "dict_map str_id (text_hash seed) d' = dict_map str_id (text_hash seed) d1 ++ map_of (map (\<lambda>c. (cmd_name c, c)) cs)"
    using Cons.IH [OF d1(2) _ p] Cons.prems(2,4,5) d1(4) by auto
  have "map_of (map (\<lambda>c. (cmd_name c, c)) cs) (cmd_name c) = None"
    using ne by (auto simp: map_of_eq_None_iff image_iff)
  then have m: "dict_map str_id (text_hash seed) d' = dict_map str_id (text_hash seed) d ++ map_of (map (\<lambda>c. (cmd_name c, c)) (c # cs))"
    using d'(3) d1(3) by (auto simp: fun_eq_iff map_add_def split: option.splits)
  have "cmd_init_loop (c # cs) d = Inr d'" using d'(1) h(1) d1(1) by simp
  with m d'(2) show ?case by blast
qed simp

lemma atm_cmd_init_ok:
  "\<exists>w'. atm_cmd_init w = Inr w' \<and> cmds_ok w' \<and> (\<exists>d. w' = w\<lparr>w_cmds := d\<rparr>)"
proof -
  let ?d = "atm_dict_new (ATM_STR_T (w_seed w)) None ATM_FREE_SHALLOW :: (atm_str, atm_cmd) atm_dict"
  let ?m = "dict_map str_id (text_hash (w_seed w))"
  have new: "dict_store (ATM_STR_T (w_seed w)) str_ok str_id (text_hash (w_seed w)) ?d"
    by (rule key_type.dict_store_new [OF sk.key_type_axioms])
  have m: "?m ?d = (\<lambda>_. None)" "dict_n ?d = 0"
    using key_type.wf_dict_new(3,4) [OF sk.key_type_axioms [of "w_seed w"],
        where vt = "None :: atm_cmd atm_T option" and f = ATM_FREE_SHALLOW]
    by (simp_all add: dict_map_def fun_eq_iff)
  have "\<forall>c \<in> set atm_commands. NUL \<notin> set (cmd_name c) \<and> length (cmd_name c) < 2 ^ 31 - 1"
    "distinct (map cmd_name atm_commands)" "length atm_commands = 2"
    by (simp_all add: atm_commands_def NUL_def)
  then obtain d where "cmd_init_loop atm_commands ?d = Inr d"
      "dict_store (ATM_STR_T (w_seed w)) str_ok str_id (text_hash (w_seed w)) d" "?m d = ?m ?d ++ cmd_table"
    using cmd_init_loop_ok [OF new, of atm_commands] m by (auto simp: cmd_table_def)
  then show ?thesis using m by (auto simp: atm_cmd_init_def cmds_ok_def)
qed

lemma atm_cmd_getcmd_ok:
  assumes "cmds_ok w" "wf_hdr h"
  shows "atm_cmd_getcmd w (Some h) = Inr (cmd_table (str_abs h))"
proof -
  obtain d where d: "w_cmds w = Some d" "dict_store (ATM_STR_T (w_seed w)) str_ok str_id (text_hash (w_seed w)) d"
      "dict_map str_id (text_hash (w_seed w)) d = cmd_table"
    using assms(1) by (auto simp: cmds_ok_def)
  have "str_ok (Some h)" using assms(2) by (simp add: str_ok_def)
  from kvs.get_law [OF d(2) this] d show ?thesis by (simp add: atm_cmd_getcmd_def str_id_def)
qed

section \<open>The cache as a map of texts\<close>

definition val_ok :: "u8 list \<Rightarrow> atm_str atm_obj \<Rightarrow> bool" where
  "val_ok seed v \<longleftrightarrow> o_type v = Some (ATM_STR_T seed) \<and> (\<forall>h. o_value v = Some h \<longrightarrow> fit_hdr h)"

definition cache_map :: "app \<Rightarrow> char list \<rightharpoonup> atm_str atm_obj" where
  "cache_map w = dict_map obj_id (text_hash (w_seed w)) (w_cache w)"

definition cache_ok :: "app \<Rightarrow> bool" where
  "cache_ok w \<longleftrightarrow> dict_store ATM_OBJ_T (obj_ok (w_seed w)) obj_id (text_hash (w_seed w)) (w_cache w)
     \<and> (\<forall>v \<in> ran (cache_map w). val_ok (w_seed w) v)"

definition cache_abs :: "app \<Rightarrow> char list \<rightharpoonup> char list" where
  "cache_abs w t = map_option obj_id (cache_map w t)"

text \<open>Room for a key: see \<^verbatim>\<open>atm_dict_set_get\<close>.\<close>

definition cache_room :: "app \<Rightarrow> char list \<Rightarrow> bool" where
  "cache_room w t \<longleftrightarrow> dict_fresh obj_id (text_hash (w_seed w)) (w_cache w) t \<and> dict_n (w_cache w) + 1 < 2 ^ 27"

text \<open>The specification of the commands: words in, the changed map and the reply out.\<close>

definition cmd_spec :: "char list list \<Rightarrow> (char list \<rightharpoonup> char list) \<Rightarrow> (char list \<rightharpoonup> char list) \<times> char list" where
  "cmd_spec ws m =
     (case ws of
        [] \<Rightarrow> (m, ''Invalid cmd'')
      | c # args \<Rightarrow>
          if c = ''get'' then
            (case args of [k] \<Rightarrow> (m, case m k of None \<Rightarrow> [] | Some v \<Rightarrow> v) | _ \<Rightarrow> (m, ''Invalid argc''))
          else if c = ''set'' then
            (case args of [] \<Rightarrow> (m, []) | [k] \<Rightarrow> (m(k \<mapsto> []), ''Success'') | k # v # _ \<Rightarrow> (m(k \<mapsto> v), ''Success''))
          else (m, ''Invalid cmd''))"

text \<open>An argument, the sentinel, and behind it.\<close>

lemma atm_cmd_para_ok:
  assumes "i < length hs" "wf_hdr (hs ! i)" "length (str_abs (hs ! i)) < 2 ^ 31 - 1"
  shows "\<exists>ob. atm_cmd_para seed (Some (map Some hs @ [None])) i = Inr ob \<and> obj_ok seed ob \<and> val_ok seed ob
    \<and> obj_id ob = str_abs (hs ! i)"
proof -
  obtain h where h: "atm_str_new (Some (str_abs (hs ! i))) = Inr (Some h)" "fit_hdr h" "str_abs h = str_abs (hs ! i)"
    using str_new_fit [OF str_abs_NUL [OF assms(2)] assms(3)] by blast
  have c: "c_str (str_val (hs ! i)) = str_abs (hs ! i)" "c_str (str_abs (hs ! i)) = str_abs (hs ! i)"
    using wf_hdr_c_str [OF assms(2)] str_abs_NUL [OF assms(2)] by simp_all
  have "atm_str_new (Some (str_val (hs ! i))) = atm_str_new (Some (str_abs (hs ! i)))"
    unfolding atm_str_new_def option.case c_strlen_def c ..
  then have "atm_cmd_para seed (Some (map Some hs @ [None])) i = Inr (atm_obj_new (Some (ATM_STR_T seed)) (Some h))"
    using h(1) assms(1) by (simp add: atm_cmd_para_def nth_append)
  with h(2,3) show ?thesis
    by (auto simp: atm_obj_new_def obj_ok_def val_ok_def str_ok_def fit_hdr_def obj_id_def str_id_def)
qed

lemma atm_cmd_para_sentinel:
  "atm_cmd_para seed (Some (map Some hs @ [None])) (length hs) = Inr (atm_obj_new (Some (ATM_STR_T seed)) None)"
  by (simp add: atm_cmd_para_def nth_append atm_str_new_def)

lemma atm_cmd_para_behind:
  "length hs < i \<Longrightarrow> atm_cmd_para seed (Some (map Some hs @ [None])) i = Inl Bad_access"
  by (simp add: atm_cmd_para_def read_at_def)

lemma null_obj: "val_ok seed (atm_obj_new (Some (ATM_STR_T seed)) None)"
  "obj_id (atm_obj_new (Some (ATM_STR_T seed)) None) = []"
  by (simp_all add: val_ok_def atm_obj_new_def obj_id_def str_id_def)

lemma cache_set:
  assumes ok: "cache_ok w" and k: "obj_ok (w_seed w) k" and v: "val_ok (w_seed w) v" and room: "cache_room w (obj_id k)"
  shows "\<exists>d. atm_dict_set (w_cache w) k (Some v) = Inr d \<and> cache_ok (w\<lparr>w_cache := d\<rparr>)
    \<and> cache_abs (w\<lparr>w_cache := d\<rparr>) = (cache_abs w)(obj_id k \<mapsto> obj_id v)"
proof -
  have st: "dict_store ATM_OBJ_T (obj_ok (w_seed w)) obj_id (text_hash (w_seed w)) (w_cache w)"
    and rn: "\<forall>v \<in> ran (cache_map w). val_ok (w_seed w) v" using ok by (simp_all add: cache_ok_def)
  have "dict_room obj_id (text_hash (w_seed w)) (w_cache w) k" using room by (simp add: cache_room_def dict_room_def)
  from kvc.put_law [OF st k this, of v] obtain d where d: "atm_dict_set (w_cache w) k (Some v) = Inr d"
      "dict_store ATM_OBJ_T (obj_ok (w_seed w)) obj_id (text_hash (w_seed w)) d"
      "dict_map obj_id (text_hash (w_seed w)) d = (cache_map w)(obj_id k \<mapsto> v)"
    unfolding cache_map_def by blast
  have m: "cache_map (w\<lparr>w_cache := d\<rparr>) = (cache_map w)(obj_id k \<mapsto> v)" using d(3) by (simp add: cache_map_def)
  have "\<forall>x \<in> ran ((cache_map w)(obj_id k \<mapsto> v)). val_ok (w_seed w) x" using rn v by (auto simp: ran_def)
  then have "cache_ok (w\<lparr>w_cache := d\<rparr>)" using d(2) by (simp add: cache_ok_def m)
  moreover have "cache_abs (w\<lparr>w_cache := d\<rparr>) = (cache_abs w)(obj_id k \<mapsto> obj_id v)"
    by (simp add: fun_eq_iff cache_abs_def m)
  ultimately show ?thesis using d(1) by blast
qed

text \<open>The reply to \<^verbatim>\<open>get\<close> as a string: the text of the value, or nothing, with the line end.\<close>

lemma value_line:
  assumes "case v of None \<Rightarrow> True | Some v \<Rightarrow> val_ok seed v"
  shows "\<exists>h. atm_str_cats_dup (atm_obj_str v) (Some [NL]) = Inr (Some h) \<and> wf_hdr h
    \<and> str_abs h = (case v of None \<Rightarrow> [] | Some v \<Rightarrow> obj_id v) @ [NL] \<and> length (str_abs h) < 2 ^ 31"
proof -
  have "\<exists>h. atm_str_cats_dup (atm_obj_str v) (Some [NL]) = Inr (Some h) \<and> wf_hdr h
      \<and> str_abs h = [NL] \<and> (case v of None \<Rightarrow> [] | Some v \<Rightarrow> obj_id v) = []"
    if "v = None \<or> (\<exists>ob. v = Some ob \<and> o_value ob = None)"
    using that assms null_newline
    by (auto simp: atm_obj_str_def val_ok_def ATM_STR_T_def atm_str_string_def obj_id_def str_id_def)
  moreover have "\<exists>h'. atm_str_cats_dup (atm_obj_str v) (Some [NL]) = Inr (Some h') \<and> wf_hdr h'
      \<and> str_abs h' = str_abs h @ [NL] \<and> length (str_abs h) < 2 ^ 31 - 1"
    if "v = Some ob" "o_value ob = Some h" for ob h
  proof -
    have f: "fit_hdr h" "o_type ob = Some (ATM_STR_T seed)" using assms that by (simp_all add: val_ok_def)
    then have "atm_obj_str v = Some h" using that by (simp add: atm_obj_str_def ATM_STR_T_def atm_str_string_def)
    then show ?thesis using str_dup_fit [OF f(1)] str_newline [OF f(1)] f(1)
      by (auto simp: atm_str_cats_dup_def fit_hdr_def)
  qed
  ultimately show ?thesis
    by (cases v; cases "o_value (the v)") (fastforce simp: obj_id_def str_id_def)+
qed

end
