(* ===== verification/Atm_Sess_Props.thy ===== *)
theory Atm_Sess_Props
  imports Atm_Cmd_Lemmas
begin

text \<open>
  The session serves commands: each call of \<^verbatim>\<open>atm_sess_process\<close> with a complete line in the
  buffer refines the specification \<^verbatim>\<open>cmd_spec\<close> on the words of the line, and with no complete
  line waits for more. The loop of its state machine ends.
\<close>

section \<open>The effect of a command\<close>

text \<open>
  \<^verbatim>\<open>c\<close> and \<^verbatim>\<open>w\<close> before, \<^verbatim>\<open>c'\<close> and \<^verbatim>\<open>w'\<close> after: the reply \<^verbatim>\<open>r\<close> with its line end waits to be sent,
  the abstract cache is \<^verbatim>\<open>m\<close>, the event is registered for writing if no write task is on its
  way, and nothing else has changed.
\<close>

definition served :: "atm_conn \<Rightarrow> app \<Rightarrow> (char list \<rightharpoonup> char list) \<Rightarrow> char list \<Rightarrow> atm_conn \<Rightarrow> app \<Rightarrow> bool" where
  "served c w m r c' w' \<longleftrightarrow> wf_conn c' w' \<and> cmds_ok w' \<and> cache_ok w' \<and> cache_abs w' = m
     \<and> conn_out c' = conn_out c @ bytes_of (r @ [NL]) \<and> conn_in c' = conn_in c \<and> conn_rest c' = conn_rest c
     \<and> w_seed w' = w_seed w \<and> w_cmds w' = w_cmds w
     \<and> w_tasks w' = w_tasks w \<and> w_ctl w' = w_ctl w \<and> w_free w' = w_free w
     \<and> w_ops w' = w_ops w @ (case c_event c of None \<Rightarrow> [] | Some e \<Rightarrow>
          if ev_active e \<and> \<not> c_on_write c then [notify_op e ATM_EVENT_WRITE] else [])"

lemma app_restD:
  assumes "world_rest w' = world_rest (w :: app)"
  shows "w_cache w' = w_cache w" "w_cmds w' = w_cmds w" "w_seed w' = w_seed w"
  using arg_cong [OF assms, of w_cache] arg_cong [OF assms, of w_cmds] arg_cong [OF assms, of w_seed]
  by (simp_all add: world_rest_def)

lemma app_cong:
  assumes "w_cache w' = w_cache w" "w_cmds w' = w_cmds w" "w_seed w' = w_seed w"
  shows "cmds_ok w' = cmds_ok w" "cache_ok w' = cache_ok w" "cache_abs w' = cache_abs w"
  using assms by (simp_all add: cmds_ok_def cache_ok_def cache_map_def cache_abs_def fun_eq_iff)

lemma served_write:
  assumes "wf_conn c' w'" "conn_out c' = conn_out c @ bytes_of (r @ [NL])" "conn_in c' = conn_in c"
    "conn_rest c' = conn_rest c" "world_rest w' = world_rest w" "c_event c = Some e"
    "w_ops w' = w_ops w @ (if ev_active e \<and> \<not> c_on_write c then [notify_op e ATM_EVENT_WRITE] else [])"
    "cmds_ok w" "cache_ok w"
  shows "served c w (cache_abs w) r c' w'"
  using assms app_restD [OF assms(5)] world_restD [OF assms(5)] app_cong [OF app_restD [OF assms(5)]]
  by (simp add: served_def)

lemma reply_served:
  assumes "wf_conn c w" "c_event c = Some e" "cmds_ok w" "cache_ok w" "NUL \<notin> set r" "length r < 2 ^ 31 - 1"
  shows "\<exists>c' w'. atm_sess_reply c r w = Inr (c', w') \<and> served c w (cache_abs w) r c' w'"
  using atm_sess_reply_ok [OF assms(1,2,5,6)] served_write [OF _ _ _ _ _ assms(2) _ assms(3,4)] by blast

lemma messages: "NUL \<notin> set ''Success''" "NUL \<notin> set ''Invalid cmd''" "NUL \<notin> set ''Invalid argc''"
  by (simp_all add: NUL_def)

text \<open>A session with its arguments.\<close>

definition has_args :: "atm_sess \<Rightarrow> char list list \<Rightarrow> bool" where
  "has_args se ws \<longleftrightarrow> (\<exists>hs. se_argv se = Some (map Some hs @ [None]) \<and> se_argc se = int (length hs)
     \<and> map str_abs hs = ws \<and> (\<forall>h \<in> set hs. wf_hdr h \<and> length (str_abs h) < 2 ^ 31 - 1))"

lemma para:
  assumes "has_args se ws" "i < length ws"
  shows "\<exists>ob. atm_cmd_para seed (se_argv se) i = Inr ob \<and> obj_ok seed ob \<and> val_ok seed ob \<and> obj_id ob = ws ! i"
proof -
  obtain hs where hs: "se_argv se = Some (map Some hs @ [None])" "map str_abs hs = ws"
      "\<forall>h \<in> set hs. wf_hdr h \<and> length (str_abs h) < 2 ^ 31 - 1" using assms(1) by (auto simp: has_args_def)
  have i: "i < length hs" using assms(2) hs(2) by auto
  then have "str_abs (hs ! i) = ws ! i" "hs ! i \<in> set hs" using hs(2) by auto
  with atm_cmd_para_ok [OF i] hs(1,3) show ?thesis by auto
qed

lemma para_end:
  assumes "has_args se ws"
  shows "\<exists>ob. atm_cmd_para seed (se_argv se) (length ws) = Inr ob \<and> val_ok seed ob \<and> obj_id ob = []"
proof -
  obtain hs where "se_argv se = Some (map Some hs @ [None])" "length ws = length hs"
    using assms by (auto simp: has_args_def)
  then show ?thesis using atm_cmd_para_sentinel [of seed hs] null_obj [of seed] by auto
qed

lemma para_behind:
  assumes "has_args se ws" "length ws < i"
  shows "atm_cmd_para seed (se_argv se) i = Inl Bad_access"
proof -
  obtain hs where "se_argv se = Some (map Some hs @ [None])" "length ws = length hs"
    using assms by (auto simp: has_args_def)
  then show ?thesis using atm_cmd_para_behind [of hs i seed] assms(2) by simp
qed

lemma se_argc_words: "has_args se ws \<Longrightarrow> se_argc se = int (length ws)"
  by (auto simp: has_args_def)

lemma set_served:
  assumes wf: "wf_conn (se_conn se) w" "c_event (se_conn se) = Some e" "cmds_ok w" "cache_ok w"
    and a: "has_args se (''set'' # args)" "args \<noteq> []" and cmd: "se_cmd se = Some cmd" "cmd_arity cmd < 0"
    and room: "cache_room w (hd args)"
  shows "\<exists>c' w'. atm_cmd_func_set se w = Inr (ATM_OK, se\<lparr>se_conn := c'\<rparr>, w')
    \<and> served (se_conn se) w (fst (cmd_spec (''set'' # args) (cache_abs w))) (snd (cmd_spec (''set'' # args) (cache_abs w))) c' w'"
proof -
  obtain k rest where args: "args = k # rest" using a(2) by (cases args) simp_all
  obtain ko where ko: "atm_cmd_para (w_seed w) (se_argv se) 1 = Inr ko" "obj_ok (w_seed w) ko" "obj_id ko = k"
    using para [OF a(1), of 1 "w_seed w"] args by auto
  define v where "v = (case rest of [] \<Rightarrow> [] | x # _ \<Rightarrow> x)"
  obtain vo where vo: "atm_cmd_para (w_seed w) (se_argv se) 2 = Inr vo" "val_ok (w_seed w) vo" "obj_id vo = v"
  proof (cases rest)
    case Nil
    then show thesis using para_end [OF a(1), of "w_seed w"] args that by (auto simp: v_def numeral_2_eq_2)
  next
    case (Cons x xs)
    then show thesis using para [OF a(1), of 2 "w_seed w"] args that by (auto simp: v_def)
  qed
  have spec: "cmd_spec (''set'' # args) (cache_abs w) = ((cache_abs w)(k \<mapsto> v), ''Success'')"
    using args by (simp add: cmd_spec_def v_def split: list.splits)
  obtain d where d: "atm_dict_set (w_cache w) ko (Some vo) = Inr d" "cache_ok (w\<lparr>w_cache := d\<rparr>)"
      "cache_abs (w\<lparr>w_cache := d\<rparr>) = (cache_abs w)(k \<mapsto> v)"
    using cache_set [OF wf(4) ko(2) vo(2)] room args ko(3) vo(3) by auto
  have wf1: "wf_conn (se_conn se) (w\<lparr>w_cache := d\<rparr>)" using wf(1) by (simp add: wf_conn_def)
  have cm1: "cmds_ok (w\<lparr>w_cache := d\<rparr>)" using wf(3) by (simp add: cmds_ok_def)
  obtain c' w' where r: "atm_sess_reply (se_conn se) ''Success'' (w\<lparr>w_cache := d\<rparr>) = Inr (c', w')"
      "served (se_conn se) (w\<lparr>w_cache := d\<rparr>) (cache_abs (w\<lparr>w_cache := d\<rparr>)) ''Success'' c' w'"
    using reply_served [OF wf1 wf(2) cm1 d(2) messages(1)] by auto
  have "served (se_conn se) w ((cache_abs w)(k \<mapsto> v)) ''Success'' c' w'"
    using r(2) d(3) by (simp add: served_def)
  moreover have "atm_cmd_func_set se w = Inr (ATM_OK, se\<lparr>se_conn := c'\<rparr>, w')"
    using cmd ko(1) vo(1) d(1) r(1) by (simp add: atm_cmd_func_set_def)
  ultimately show ?thesis unfolding spec by auto
qed

lemma get_served:
  assumes wf: "wf_conn (se_conn se) w" "c_event (se_conn se) = Some e" "cmds_ok w" "cache_ok w"
    and a: "has_args se (''get'' # args)" and cmd: "se_cmd se = Some cmd" "cmd_arity cmd = 2"
  shows "\<exists>c' w'. atm_cmd_func_get se w = Inr (ATM_OK, se\<lparr>se_conn := c'\<rparr>, w')
    \<and> served (se_conn se) w (fst (cmd_spec (''get'' # args) (cache_abs w))) (snd (cmd_spec (''get'' # args) (cache_abs w))) c' w'"
proof (cases "\<exists>k. args = [k]")
  case False
  then have spec: "cmd_spec (''get'' # args) (cache_abs w) = (cache_abs w, ''Invalid argc'')"
    by (simp add: cmd_spec_def split: list.splits)
  have "length args \<noteq> 1" using False by (cases args) auto
  then have "se_argc se \<noteq> 2" using se_argc_words [OF a] by simp
  then show ?thesis unfolding spec using reply_served [OF wf messages(3)] cmd
    by (auto simp: atm_cmd_func_get_def)
next
  case True
  then obtain k where args: "args = [k]" by blast
  obtain ko where ko: "atm_cmd_para (w_seed w) (se_argv se) 1 = Inr ko" "obj_ok (w_seed w) ko" "obj_id ko = k"
    using para [OF a, of 1 "w_seed w"] args by auto
  let ?v = "cache_map w k"
  have g: "atm_dict_get (w_cache w) ko = Inr ?v"
    using kvc.get_law [of "w_seed w" "w_cache w" ko] wf(4) ko(2,3) by (simp add: cache_ok_def cache_map_def)
  have "case ?v of None \<Rightarrow> True | Some v \<Rightarrow> val_ok (w_seed w) v"
    using wf(4) by (auto simp: cache_ok_def ran_def split: option.split)
  from value_line [OF this] obtain h where h: "atm_str_cats_dup (atm_obj_str ?v) (Some [NL]) = Inr (Some h)" "wf_hdr h"
      "str_abs h = (case ?v of None \<Rightarrow> [] | Some v \<Rightarrow> obj_id v) @ [NL]" "length (str_abs h) < 2 ^ 31" by blast
  have spec: "cmd_spec (''get'' # args) (cache_abs w) = (cache_abs w, case ?v of None \<Rightarrow> [] | Some v \<Rightarrow> obj_id v)"
    using args by (simp add: cmd_spec_def cache_abs_def split: option.split)
  obtain c' w' where cw: "atm_conn_write_str (Some (se_conn se)) (Some h) w = Inr (Some c', w')"
      "served (se_conn se) w (cache_abs w) (case ?v of None \<Rightarrow> [] | Some v \<Rightarrow> obj_id v) c' w'"
    using atm_conn_write_str_ok [OF wf(1,2) h(2,4)] served_write [OF _ _ _ _ _ wf(2) _ wf(3,4)]
    unfolding h(3) bytes_of_def [symmetric] by blast
  have "se_argc se = cmd_arity cmd" using se_argc_words [OF a] args cmd(2) by simp
  then have "atm_cmd_func_get se w = Inr (ATM_OK, se\<lparr>se_conn := c'\<rparr>, w')"
    using cmd ko(1) g h(1) cw(1) by (simp add: atm_cmd_func_get_def)
  with cw(2) show ?thesis unfolding spec by auto
qed

section \<open>The state machine\<close>

definition runnable :: "char list list \<Rightarrow> app \<Rightarrow> bool" where
  "runnable ws w \<longleftrightarrow> (case ws of c # args \<Rightarrow> c = ''set'' \<longrightarrow> args \<noteq> [] \<and> cache_room w (hd args) | [] \<Rightarrow> True)"

lemma process_cmd_served:
  assumes wf: "wf_conn (se_conn se) w" "c_event (se_conn se) = Some e" "cmds_ok w" "cache_ok w"
    and a: "ws = [] \<and> se_cmd se = None \<or> has_args se ws \<and> ws \<noteq> [] \<and> se_cmd se = cmd_table (hd ws)"
    and run: "runnable ws w"
  shows "\<exists>c' w'. atm_sess_process_cmd se w = Inr (ATM_OK, atm_sess_chstat (se\<lparr>se_conn := c'\<rparr>) Sess_finish, w')
    \<and> served (se_conn se) w (fst (cmd_spec ws (cache_abs w))) (snd (cmd_spec ws (cache_abs w))) c' w'"
proof -
  have tab: "cmd_table x = (if x = ''get'' then Some \<lparr>cmd_name = ''get'', cmd_func = Fn_get, cmd_arity = 2\<rparr>
      else if x = ''set'' then Some \<lparr>cmd_name = ''set'', cmd_func = Fn_set, cmd_arity = -3\<rparr> else None)" for x
    by (simp add: cmd_table_def atm_commands_def)
  consider (inv) "se_cmd se = None" "cmd_spec ws (cache_abs w) = (cache_abs w, ''Invalid cmd'')"
    | (get) args where "ws = ''get'' # args" "has_args se ws" "se_cmd se = cmd_table ''get''"
    | (set) args where "ws = ''set'' # args" "has_args se ws" "se_cmd se = cmd_table ''set''"
  proof (cases ws)
    case Nil
    then show thesis using a by (intro inv) (simp_all add: cmd_spec_def)
  next
    case (Cons x args)
    then have ax: "has_args se ws" "se_cmd se = cmd_table x" using a by simp_all
    show thesis
    proof (cases "x = ''get'' \<or> x = ''set''")
      case True
      then show thesis using Cons ax get set by blast
    next
      case False
      then show thesis using Cons ax tab [of x] by (intro inv) (simp_all add: cmd_spec_def)
    qed
  qed
  then show ?thesis
  proof cases
    case inv
    then show ?thesis using reply_served [OF wf messages(2)] by (auto simp: atm_sess_process_cmd_def)
  next
    case get
    then show ?thesis using get_served [OF wf, of args] tab [of "''get''"]
      by (auto simp: atm_sess_process_cmd_def cmd_call_def)
  next
    case set
    then have "args \<noteq> []" "cache_room w (hd args)" using run by (simp_all add: runnable_def)
    then show ?thesis using set_served [OF wf, of args] set tab [of "''set''"]
      by (auto simp: atm_sess_process_cmd_def cmd_call_def)
  qed
qed

definition next_words :: "atm_conn \<Rightarrow> char list list" where
  "next_words c = split_tokens CHR '' '' (line_text (line_of (conn_in c)))"

text \<open>Parsing a complete line: the state has the words and the command.\<close>

lemma parsing_line:
  assumes wf: "wf_conn (se_conn se) w" "cmds_ok w" and line: "has_line (conn_in (se_conn se))"
    and len: "length (conn_in (se_conn se)) < 2 ^ 31 - 1" and fresh: "se_cmd se = None" "se_argv se = None"
  shows "\<exists>se' w'. atm_sess_parsing se w = Inr (ATM_OK, se', w') \<and> se_state se' = Sess_process_cmd \<and> se_continue se'
    \<and> wf_conn (se_conn se') w' \<and> conn_in (se_conn se') = after_line (conn_in (se_conn se))
    \<and> conn_out (se_conn se') = conn_out (se_conn se) \<and> conn_rest (se_conn se') = conn_rest (se_conn se)
    \<and> world_rest w' = world_rest w \<and> w_ops w' = w_ops w
    \<and> (next_words (se_conn se) = [] \<and> se_cmd se' = None \<and> se_argv se' = None
       \<or> has_args se' (next_words (se_conn se)) \<and> next_words (se_conn se) \<noteq> []
         \<and> se_cmd se' = cmd_table (hd (next_words (se_conn se))))"
proof -
  let ?c = "se_conn se"
  have len': "length (conn_in ?c) < 2 ^ 31" using len by simp
  obtain h c' w' where rl: "atm_conn_read_line ?c w = Inr (Some h, c', w')" "wf_hdr h"
      "str_abs h = line_text (line_of (conn_in ?c))" "wf_conn c' w'" "conn_in c' = after_line (conn_in ?c)"
      "conn_out c' = conn_out ?c" "conn_rest c' = conn_rest ?c" "world_rest w' = world_rest w" "w_ops w' = w_ops w"
    using atm_conn_read_line_ok [OF wf(1) len'] line by auto
  have "length (line_of (conn_in ?c)) \<le> length (conn_in ?c)" by (simp add: line_of_def length_takeWhile_le)
  then have sm: "length (str_abs h) < 2 ^ 31 - 1" using rl(3) len by (simp add: line_text_def)
  note sp = atm_str_split_words [OF rl(2) sm, of "CHR '' ''"]
  have nw: "split_tokens CHR '' '' (str_abs h) = next_words ?c" using rl(3) by (simp add: next_words_def)
  have cm: "cmds_ok w'" using wf(2) app_cong(1) [OF app_restD [OF rl(8)]] by simp
  show ?thesis
  proof (cases "next_words ?c = []")
    case True
    then have "atm_str_split (str_val h) CHR '' '' (unat (atm_str_len (Some h))) = Inr None"
      using sp nw by (simp add: atm_str_len_def)
    then show ?thesis using True rl fresh by (simp add: atm_sess_parsing_def atm_sess_chstat_def)
  next
    case False
    then obtain hs where hs: "atm_str_split (str_val h) CHR '' '' (unat (atm_str_len (Some h))) = Inr (Some (map Some hs @ [None]))"
        "map str_abs hs = next_words ?c" "\<forall>h \<in> set hs. wf_hdr h \<and> length (str_abs h) < 2 ^ 31 - 1"
      using sp nw by (auto simp: atm_str_len_def)
    obtain h0 hr where h0: "hs = h0 # hr" using hs(2) False by (cases hs) auto
    have "atm_cmd_getcmd w' (Some h0) = Inr (cmd_table (hd (next_words ?c)))"
      using atm_cmd_getcmd_ok [OF cm, of h0] hs(3) h0 by (subst hs(2) [symmetric]) simp
    then have args: "sess_args (map Some hs @ [None]) s w' = Inr (s\<lparr>se_argc := int (length hs),
        se_argv := Some (map Some hs @ [None]), se_cmd := cmd_table (hd (next_words ?c))\<rparr>)" for s
      using h0 split_count_map [of hs "[]"] by (simp add: sess_args_def)
    have "has_args (se\<lparr>se_conn := c', se_argc := int (length hs), se_argv := Some (map Some hs @ [None]),
        se_cmd := cmd_table (hd (next_words ?c)), se_state := Sess_process_cmd, se_continue := True\<rparr>) (next_words ?c)"
      using hs(2,3) by (auto simp: has_args_def)
    then show ?thesis using False rl hs(1) args by (simp add: atm_sess_parsing_def atm_sess_chstat_def)
  qed
qed

definition sess_idle :: "atm_sess \<Rightarrow> bool" where
  "sess_idle se \<longleftrightarrow> se_state se \<in> {Sess_init, Sess_parsing} \<and> se_argv se = None \<and> se_cmd se = None"

lemma split_free_args: "has_args se ws \<Longrightarrow> atm_str_split_free (se_argv se) = Inr ()"
  by (auto simp: has_args_def atm_str_split_free_def split_count_map)

lemma process_from_parsing:
  assumes wf: "wf_conn (se_conn se) w" "c_event (se_conn se) = Some e" "cmds_ok w" "cache_ok w"
    and line: "has_line (conn_in (se_conn se))" and len: "length (conn_in (se_conn se)) < 2 ^ 31 - 1"
    and st: "se_state se = Sess_parsing" "se_argv se = None" "se_cmd se = None"
    and run: "runnable (next_words (se_conn se)) w"
  defines "ws \<equiv> next_words (se_conn se)"
  shows "\<exists>se' w'. sess_loop (Suc (Suc (Suc n))) se w = Inr (ATM_OK, se', w')
    \<and> sess_idle se' \<and> se_state se' = Sess_init \<and> \<not> se_continue se'
    \<and> conn_in (se_conn se') = after_line (conn_in (se_conn se))
    \<and> served ((se_conn se)\<lparr>c_r_buf := c_r_buf (se_conn se')\<rparr>) w
        (fst (cmd_spec ws (cache_abs w))) (snd (cmd_spec ws (cache_abs w))) (se_conn se') w'"
proof -
  let ?se = "se\<lparr>se_continue := False\<rparr>"
  have pre: "wf_conn (se_conn ?se) w" "has_line (conn_in (se_conn ?se))" "length (conn_in (se_conn ?se)) < 2 ^ 31 - 1"
      "se_cmd ?se = None" "se_argv ?se = None" using wf line len st by simp_all
  obtain s1 w1 where p: "atm_sess_parsing ?se w = Inr (ATM_OK, s1, w1)" "se_state s1 = Sess_process_cmd" "se_continue s1"
      "wf_conn (se_conn s1) w1" "conn_in (se_conn s1) = after_line (conn_in (se_conn se))"
      "conn_out (se_conn s1) = conn_out (se_conn se)" "conn_rest (se_conn s1) = conn_rest (se_conn se)"
      "world_rest w1 = world_rest w" "w_ops w1 = w_ops w"
      "ws = [] \<and> se_cmd s1 = None \<and> se_argv s1 = None \<or> has_args s1 ws \<and> ws \<noteq> [] \<and> se_cmd s1 = cmd_table (hd ws)"
    using parsing_line [OF pre(1) wf(3) pre(2-5)] by (auto simp: ws_def)
  note ac = app_cong [OF app_restD [OF p(8)]] and ar = app_restD [OF p(8)] and wr = world_restD [OF p(8)]
    and cr = conn_restD [OF p(7)]
  let ?s1 = "s1\<lparr>se_continue := False\<rparr>"
  have a: "ws = [] \<and> se_cmd ?s1 = None \<or> has_args ?s1 ws \<and> ws \<noteq> [] \<and> se_cmd ?s1 = cmd_table (hd ws)"
    using p(10) by (auto simp: has_args_def)
  have run1: "runnable ws w1" using run ar by (simp add: runnable_def cache_room_def ws_def split: list.splits)
  have pre1: "wf_conn (se_conn ?s1) w1" "c_event (se_conn ?s1) = Some e" "cmds_ok w1" "cache_ok w1"
    using p(4) cr(1) wf(2,3,4) ac by simp_all
  obtain c2 w2 where q: "atm_sess_process_cmd ?s1 w1 = Inr (ATM_OK, atm_sess_chstat (?s1\<lparr>se_conn := c2\<rparr>) Sess_finish, w2)"
      "served (se_conn s1) w1 (fst (cmd_spec ws (cache_abs w1))) (snd (cmd_spec ws (cache_abs w1))) c2 w2"
    using process_cmd_served [OF pre1 a run1] by auto
  let ?s2 = "atm_sess_chstat (?s1\<lparr>se_conn := c2\<rparr>) Sess_finish"
  have fr: "atm_str_split_free (se_argv s1) = Inr ()"
    using p(10) split_free_args [of s1 ws] by (auto simp: atm_str_split_free_def)
  let ?s3 = "?s2\<lparr>se_continue := False, se_argc := 0, se_argv := None, se_cmd := None, se_state := Sess_init\<rparr>"
  have r1: "sess_round se w = Inr (Some (s1, w1))" using p(1) st(1) by (simp add: sess_round_def)
  have r2: "sess_round s1 w1 = Inr (Some (?s2, w2))" using q(1) p(2) by (simp add: sess_round_def)
  have r3: "sess_round ?s2 w2 = Inr (Some (?s3, w2))"
    using fr by (simp add: sess_round_def atm_sess_reset_def atm_sess_chstat_def)
  have "sess_loop (Suc (Suc (Suc n))) se w = Inr (ATM_OK, ?s3, w2)"
    using r1 r2 r3 p(3) by (simp add: atm_sess_chstat_def)
  moreover have "sess_idle ?s3 \<and> se_state ?s3 = Sess_init \<and> \<not> se_continue ?s3" by (simp add: sess_idle_def)
  moreover have "served ((se_conn se)\<lparr>c_r_buf := c_r_buf c2\<rparr>) w (fst (cmd_spec ws (cache_abs w)))
      (snd (cmd_spec ws (cache_abs w))) c2 w2"
    using q(2) p(6,9) ac ar wr cr p(7) wf(2) by (simp add: served_def conn_in_def conn_out_def conn_rest_def)
  moreover have "conn_in c2 = after_line (conn_in (se_conn se))" using q(2) p(5) by (simp add: served_def)
  ultimately show ?thesis by (intro exI [of _ ?s3] exI [of _ w2]) (simp add: atm_sess_chstat_def)
qed

text \<open>A session between two commands, in a process that is set up.\<close>

definition sess_ready :: "atm_sess \<Rightarrow> app \<Rightarrow> bool" where
  "sess_ready se w \<longleftrightarrow> sess_idle se \<and> wf_conn (se_conn se) w \<and> c_event (se_conn se) \<noteq> None \<and> cmds_ok w \<and> cache_ok w"

lemma process_from_init:
  "se_state se = Sess_init \<Longrightarrow> sess_loop (Suc n) se w = sess_loop n (atm_sess_chstat (se\<lparr>se_continue := False\<rparr>) Sess_parsing) w"
  by (simp add: sess_round_def atm_sess_chstat_def)

lemma process_line:
  assumes rd: "sess_ready se w" and line: "has_line (conn_in (se_conn se))"
    and len: "length (conn_in (se_conn se)) < 2 ^ 31 - 1" and run: "runnable (next_words (se_conn se)) w"
  shows "\<exists>se' w'. atm_sess_process se w = Inr (ATM_OK, se', w') \<and> sess_ready se' w' \<and> \<not> se_continue se'
    \<and> (cache_abs w', conn_out (se_conn se')) = (case cmd_spec (next_words (se_conn se)) (cache_abs w) of
        (m, r) \<Rightarrow> (m, conn_out (se_conn se) @ bytes_of (r @ [NL])))
    \<and> conn_in (se_conn se') = after_line (conn_in (se_conn se))
    \<and> w_tasks w' = w_tasks w \<and> w_ctl w' = w_ctl w \<and> w_free w' = w_free w
    \<and> conn_rest (se_conn se') = conn_rest (se_conn se)
    \<and> w_ops w' = w_ops w @ (case c_event (se_conn se) of None \<Rightarrow> [] | Some e \<Rightarrow>
        if ev_active e \<and> \<not> c_on_write (se_conn se) then [notify_op e ATM_EVENT_WRITE] else [])"
proof -
  obtain e where e: "c_event (se_conn se) = Some e" using rd by (auto simp: sess_ready_def)
  let ?s = "if se_state se = Sess_init then atm_sess_chstat (se\<lparr>se_continue := False\<rparr>) Sess_parsing else se"
  let ?n = "if se_state se = Sess_init then 1 else 2 :: nat"
  have c: "se_conn ?s = se_conn se" "se_state ?s = Sess_parsing" "se_argv ?s = None" "se_cmd ?s = None"
    using rd by (auto simp: sess_ready_def sess_idle_def atm_sess_chstat_def)
  have l: "atm_sess_process se w = sess_loop (Suc (Suc (Suc ?n))) ?s w"
  proof (cases "se_state se = Sess_init")
    case True
    then show ?thesis unfolding atm_sess_process_def
      using process_from_init [OF True, of 4] by (simp add: eval_nat_numeral del: sess_loop.simps)
  next
    case False
    then show ?thesis by (simp add: atm_sess_process_def eval_nat_numeral del: sess_loop.simps)
  qed
  have pre: "wf_conn (se_conn ?s) w" "c_event (se_conn ?s) = Some e" "cmds_ok w" "cache_ok w"
      "has_line (conn_in (se_conn ?s))" "length (conn_in (se_conn ?s)) < 2 ^ 31 - 1" "runnable (next_words (se_conn ?s)) w"
    using rd line len run e unfolding c(1) by (simp_all add: sess_ready_def)
  obtain se' w' where p: "atm_sess_process se w = Inr (ATM_OK, se', w')" "sess_idle se'" "\<not> se_continue se'"
      "conn_in (se_conn se') = after_line (conn_in (se_conn se))"
      "served ((se_conn se)\<lparr>c_r_buf := c_r_buf (se_conn se')\<rparr>) w
        (fst (cmd_spec (next_words (se_conn se)) (cache_abs w))) (snd (cmd_spec (next_words (se_conn se)) (cache_abs w)))
        (se_conn se') w'"
    using process_from_parsing [OF pre(1-6) c(2-4) pre(7), of ?n] unfolding l c(1) by blast
  have "c_event (se_conn se') = Some e"
    using p(5) conn_restD(1) [of "se_conn se'" "(se_conn se)\<lparr>c_r_buf := c_r_buf (se_conn se')\<rparr>"] e by (simp add: served_def)
  then have "sess_ready se' w'" using p(2,5) by (simp add: sess_ready_def served_def)
  then show ?thesis using p by (auto simp: served_def conn_out_def conn_rest_def split: prod.splits option.split)
qed

lemma process_waits:
  assumes rd: "sess_ready se w" and line: "\<not> has_line (conn_in (se_conn se))"
    and len: "length (conn_in (se_conn se)) < 2 ^ 31 - 1"
  shows "atm_sess_process se w = Inr (ATM_OK, se\<lparr>se_state := Sess_parsing, se_continue := False\<rparr>, w)"
proof -
  have rl: "atm_conn_read_line (se_conn se) w = Inr (None, se_conn se, w)"
    using atm_conn_read_line_ok [of "se_conn se" w] rd line len by (simp add: sess_ready_def)
  have "se_state se = Sess_init \<or> se_state se = Sess_parsing" using rd by (auto simp: sess_ready_def sess_idle_def)
  then show ?thesis
    by (elim disjE) (simp_all add: atm_sess_process_def eval_nat_numeral sess_round_def atm_sess_chstat_def
        atm_sess_parsing_def rl)
qed

section \<open>Lines\<close>

definition line_char :: "char \<Rightarrow> bool" where
  "line_char c \<longleftrightarrow> c \<noteq> NUL \<and> c \<noteq> CHR 0x0A \<and> c \<noteq> CHR 0x0D"

lemma byte_of_char: "unat (of_char c :: u8) = of_char c"
proof -
  have "(of_char c :: nat) < 256" by simp
  then have "unat (of_nat (of_char c) :: u8) = of_char c" by (intro unat_of_nat_small) simp
  then show ?thesis by (simp only: of_nat_of_char)
qed

lemma byte_inj: "(of_char c :: u8) = of_char d \<longleftrightarrow> c = d"
  by (metis byte_of_char of_char_eq_iff)

lemma line_char_nl: "line_char c \<longleftrightarrow> \<not> is_nl (of_char c)"
proof -
  have b: "(of_char NUL :: u8) = 0" "(of_char (CHR 0x0A) :: u8) = 10" "(of_char (CHR 0x0D) :: u8) = 13"
    by (simp_all add: NUL_def)
  show ?thesis unfolding line_char_def is_nl_def b [symmetric] byte_inj by blast
qed

lemma line_text_bytes: "line_text (bytes_of t) = t"
  by (induction t) (simp_all add: line_text_def bytes_of_def byte_of_char)

lemma any_line:
  assumes t: "\<forall>c \<in> set t. line_char c" and nl: "is_nl b"
  shows "has_line (bytes_of t @ b # rest)" "line_text (line_of (bytes_of t @ b # rest)) = t"
    "after_line (bytes_of t @ b # rest) = dropWhile is_nl rest"
proof -
  have n: "\<forall>b \<in> set (bytes_of t). \<not> is_nl b" using t line_char_nl by (auto simp: bytes_of_def)
  show "has_line (bytes_of t @ b # rest)" using nl by (auto simp: has_line_def)
  have "line_of (bytes_of t @ b # rest) = bytes_of t"
    using n nl by (simp add: line_of_def takeWhile_append)
  then show "line_text (line_of (bytes_of t @ b # rest)) = t" by (simp add: line_text_bytes)
  show "after_line (bytes_of t @ b # rest) = dropWhile is_nl rest"
    using n nl by (simp add: after_line_def dropWhile_append)
qed

lemma first_line:
  assumes t: "\<forall>c \<in> set t. line_char c" and r: "rest = [] \<or> \<not> is_nl (hd rest)"
  shows "has_line (bytes_of t @ 10 # rest)" "line_text (line_of (bytes_of t @ 10 # rest)) = t"
    "after_line (bytes_of t @ 10 # rest) = rest"
proof -
  have ten: "is_nl 10" by (simp add: is_nl_def)
  show "has_line (bytes_of t @ 10 # rest)" "line_text (line_of (bytes_of t @ 10 # rest)) = t"
    by (rule any_line [OF t ten])+
  show "after_line (bytes_of t @ 10 # rest) = rest"
    using any_line(3) [OF t ten] r by (cases rest) auto
qed

lemma command_line:
  assumes ws: "\<forall>t \<in> set ws. split_word CHR '' '' t \<and> (\<forall>c \<in> set t. line_char c)"
  shows "split_tokens CHR '' '' (join [CHR '' ''] ws) = ws" "\<forall>c \<in> set (join [CHR '' ''] ws). line_char c"
proof -
  have "\<forall>t \<in> set ws. split_word CHR '' '' t" "\<not> is_quote CHR '' ''" "CHR '' '' \<noteq> NUL"
    using ws by (simp_all add: is_quote_def DQ_def SQ_def NUL_def)
  from split_tokens_join [OF this, of 0] show "split_tokens CHR '' '' (join [CHR '' ''] ws) = ws" by simp
  have "line_char CHR '' ''" by (simp add: line_char_def NUL_def)
  then have "set (join [CHR '' ''] ws) \<subseteq> (\<Union>t \<in> set ws. set t) \<union> {CHR '' ''}"
    by (induction "[CHR '' '']" ws rule: join.induct) auto
  then show "\<forall>c \<in> set (join [CHR '' ''] ws). line_char c" using ws \<open>line_char CHR '' ''\<close> by blast
qed

section \<open>The loop of the state machine\<close>

definition sess_rank :: "atm_sess_state \<Rightarrow> nat" where
  "sess_rank st = (case st of Sess_init \<Rightarrow> 4 | Sess_parsing \<Rightarrow> 3 | Sess_process_cmd \<Rightarrow> 2 | Sess_finish \<Rightarrow> 1 | Sess_error \<Rightarrow> 0)"

lemma sess_parsing_state:
  assumes "atm_sess_parsing se w = Inr (r, se', w')"
  shows "se_continue se' \<longrightarrow> se_state se' = Sess_process_cmd"
  using assms by (auto simp: atm_sess_parsing_def res_bind_eq_Inr res_map_eq_Inr atm_sess_chstat_def Let_def
      split: option.splits)

lemma process_cmd_state:
  assumes "atm_sess_process_cmd se w = Inr (r, se', w')"
  shows "se_state se' = Sess_finish"
  using assms by (auto simp: atm_sess_process_cmd_def res_map_eq_Inr atm_sess_chstat_def)

lemma sess_round_rank:
  assumes "sess_round se w = Inr (Some (se', w'))" "se_continue se'"
  shows "sess_rank (se_state se') < sess_rank (se_state se)"
proof (cases "se_state se")
  case Sess_parsing
  then show ?thesis using assms sess_parsing_state [of "se\<lparr>se_continue := False\<rparr>" w]
    by (auto simp: sess_round_def res_map_eq_Inr sess_rank_def)
next
  case Sess_process_cmd
  then show ?thesis using assms process_cmd_state [of "se\<lparr>se_continue := False\<rparr>" w]
    by (auto simp: sess_round_def res_map_eq_Inr sess_rank_def)
qed (use assms in \<open>auto simp: sess_round_def res_map_eq_Inr atm_sess_chstat_def atm_sess_reset_def sess_rank_def\<close>)

lemma sess_loop_fuel:
  "sess_rank (se_state se) < n \<Longrightarrow> sess_loop (n + k) se w = sess_loop n se w
    \<and> (sess_loop n se w = Inl No_return \<longrightarrow> (\<exists>se' w'. sess_round se' w' = Inl No_return))"
proof (induction n arbitrary: se w)
  case (Suc n)
  show ?case
  proof (cases "sess_round se w")
    case (Inr r)
    show ?thesis
    proof (cases "\<exists>se' w'. r = Some (se', w') \<and> se_continue se'")
      case True
      then obtain se' w' where r: "r = Some (se', w')" "se_continue se'" by blast
      then have "sess_rank (se_state se') < n" using sess_round_rank [of se w se' w'] Inr Suc.prems by simp
      from Suc.IH [OF this, of w'] Inr r show ?thesis by simp
    qed (use Inr in \<open>auto split: option.splits\<close>)
  qed (use Inr_not_Inl in auto)
qed simp

lemma set_no_args:
  assumes wf: "wf_conn (se_conn se) w" "cmds_ok w" and line: "has_line (conn_in (se_conn se))"
    and len: "length (conn_in (se_conn se)) < 2 ^ 31 - 1" and st: "se_state se = Sess_parsing" "se_argv se = None" "se_cmd se = None"
    and ws: "next_words (se_conn se) = [''set'']"
  shows "sess_loop (Suc (Suc n)) se w = Inl Bad_access"
proof -
  let ?se = "se\<lparr>se_continue := False\<rparr>"
  have pre: "wf_conn (se_conn ?se) w" "has_line (conn_in (se_conn ?se))" "length (conn_in (se_conn ?se)) < 2 ^ 31 - 1"
      "se_cmd ?se = None" "se_argv ?se = None" "next_words (se_conn ?se) = [''set'']" using wf line len st ws by simp_all
  obtain s1 w1 where p: "atm_sess_parsing ?se w = Inr (ATM_OK, s1, w1)" "se_state s1 = Sess_process_cmd" "se_continue s1"
      "has_args s1 [''set'']" "se_cmd s1 = cmd_table ''set''"
    using parsing_line [OF pre(1) wf(2) pre(2-5)] unfolding pre(6) by auto
  let ?s1 = "s1\<lparr>se_continue := False\<rparr>"
  have a: "has_args ?s1 [''set'']" using p(4) by (simp add: has_args_def)
  obtain ko where ko: "atm_cmd_para (w_seed w1) (se_argv ?s1) 1 = Inr ko" using para_end [OF a] by auto
  have "atm_cmd_para (w_seed w1) (se_argv ?s1) 2 = Inl Bad_access" by (rule para_behind [OF a]) simp
  then have "atm_sess_process_cmd ?s1 w1 = Inl Bad_access"
    using p(5) ko by (simp add: atm_sess_process_cmd_def cmd_table_def atm_commands_def cmd_call_def atm_cmd_func_set_def)
  then have "sess_round s1 w1 = Inl Bad_access" using p(2) by (simp add: sess_round_def)
  moreover have "sess_round se w = Inr (Some (s1, w1))" using p(1) st(1) by (simp add: sess_round_def)
  ultimately show ?thesis using p(3) by simp
qed

section \<open>A process that is set up\<close>

definition test_app :: app where
  "test_app = \<lparr>w_pool = atm_blk_init, w_ops = [], w_tasks = [], w_ctl = [],
     w_free = atm_list_new None ATM_FREE_SHALLOW,
     w_cache = atm_dict_new ATM_OBJ_T (Some ATM_OBJ_T) ATM_FREE_DEEP, w_cmds = None, w_seed = replicate 16 48\<rparr>"

lemma new_cache_find:
  "dict_find obj_id (text_hash seed) (atm_dict_new ATM_OBJ_T (Some ATM_OBJ_T) ATM_FREE_DEEP :: cache) i = None"
  "dict_n (atm_dict_new ATM_OBJ_T (Some ATM_OBJ_T) ATM_FREE_DEEP :: cache) = 0"
  using obk.wf_dict_new(3) [where vt = "Some ATM_OBJ_T :: atm_str atm_obj atm_T option" and f = ATM_FREE_DEEP and seed = seed]
    obk.wf_dict_new(4) [where vt = "Some ATM_OBJ_T :: atm_str atm_obj atm_T option" and f = ATM_FREE_DEEP]
  by simp_all

text \<open>A session on a new connection, with the bytes \<^verbatim>\<open>bs\<close> in its read buffer.\<close>

lemma test_session_active:
  assumes "length bs < 2 ^ 31"
  obtains se w where "sess_ready se w" "conn_in (se_conn se) = bs" "conn_out (se_conn se) = []"
    "cache_abs w = (\<lambda>_. None)" "\<And>t. cache_room w t"
    "c_event (se_conn se) = Some (atm_event_new 1 5 True True)" "ev_active (atm_event_new 1 5 True True)"
proof -
  obtain w0 d where w0: "cmds_ok w0" "w0 = test_app\<lparr>w_cmds := d\<rparr>"
    using atm_cmd_init_ok [of test_app] by blast
  let ?st = "(c_r_buf test_conn, w_pool w0)"
  have wf: "wf_buf ?st" "buf_stream ?st = []"
    using wf_buf_new [of atm_blk_init] by (simp_all add: test_conn_def atm_conn_new_def w0(2) test_app_def)
  obtain b p where bp: "wf_buf (b, p)" "buf_stream (b, p) = bs"
    using bs.put_law [OF wf(1), of bs] assms wf(2) by auto
  define c where "c = test_conn\<lparr>c_r_buf := b\<rparr>"
  define w where "w = w0\<lparr>w_pool := p\<rparr>"
  have wfw: "wf_buf (c_w_buf test_conn, p)"
    using wf_buf_new(1) [of p] wf_buf_poolD [OF bp(1)] by (simp add: test_conn_def atm_conn_new_def)
  have c: "wf_conn c w" "conn_in c = bs" "conn_out c = []" "c_event c = Some (atm_event_new 1 5 True True)"
    using bp wfw test_conn_ok(2,4) buf_stream_pool [of b p]
    by (simp_all add: c_def w_def wf_conn_def conn_in_def conn_out_def)
  have m: "cache_map w = (\<lambda>_. None)"
    by (simp add: fun_eq_iff cache_map_def dict_map_def w_def w0(2) test_app_def new_cache_find)
  have ok: "cmds_ok w" using w0(1) app_cong(1) [of w w0] by (simp add: w_def)
  have "cache_ok w"
    using obk.dict_store_new [where vt = "Some ATM_OBJ_T :: atm_str atm_obj atm_T option"]
    by (simp add: cache_ok_def m) (simp add: w_def w0(2) test_app_def)
  then have "sess_ready (atm_sess_new c) w"
    using c ok by (simp add: sess_ready_def atm_sess_new_def sess_idle_def)
  moreover have "cache_room w t" for t
    using new_cache_find by (simp add: cache_room_def w_def w0(2) test_app_def dict_fresh_def atm_dict_new_def)
  moreover have "cache_abs w = (\<lambda>_. None)" by (simp add: fun_eq_iff cache_abs_def m)
  moreover have "se_conn (atm_sess_new c) = c" by (simp add: atm_sess_new_def)
  ultimately show thesis using that [of "atm_sess_new c" w] c test_conn_ok(3) by simp
qed

lemma test_session:
  assumes "length bs < 2 ^ 31"
  obtains se w where "sess_ready se w" "conn_in (se_conn se) = bs" "conn_out (se_conn se) = []"
    "cache_abs w = (\<lambda>_. None)" "\<And>t. cache_room w t"
  by (rule test_session_active [OF assms]) (rule that)

section \<open>Properties\<close>



text \<open>
  Without a complete line the session takes nothing out of the buffer, keeps the
  cache, replies nothing and waits in its parsing state for more.
\<close>

theorem atm_sess_process_waits:
  assumes "sess_ready se w" "\<not> has_line (conn_in (se_conn se))" "length (conn_in (se_conn se)) < 2 ^ 31 - 1"
  shows "atm_sess_process se w = Inr (ATM_OK, se\<lparr>se_state := Sess_parsing, se_continue := False\<rparr>, w)
    \<and> sess_ready (se\<lparr>se_state := Sess_parsing, se_continue := False\<rparr>) w"
  using process_waits [OF assms] assms(1) by (simp add: sess_ready_def sess_idle_def)

theorem atm_sess_process_waits_witness:
  "\<exists>se w. conn_in (se_conn se) = bytes_of ''get'' \<and>
    atm_sess_process se w = Inr (ATM_OK, se\<lparr>se_state := Sess_parsing, se_continue := False\<rparr>, w)"
proof -
  obtain se w where s: "sess_ready se w" "conn_in (se_conn se) = bytes_of ''get''"
    by (rule test_session [of "bytes_of ''get''"]) (simp add: bytes_of_def, rule that)
  have "\<not> has_line (conn_in (se_conn se))" "length (conn_in (se_conn se)) < 2 ^ 31 - 1"
    unfolding s(2) by (simp_all add: bytes_of_def has_line_def is_nl_def)
  from atm_sess_process_waits [OF s(1) this] s(2) show ?thesis by blast
qed



text \<open>
  Property C26. The line \<^verbatim>\<open>set\<close> alone: its arity is negative, so that the number of arguments is
  not checked, and the command reads the array of arguments behind its sentinel.
\<close>

theorem atm_sess_set_reads_behind:
  assumes "sess_ready se w" "has_line (conn_in (se_conn se))" "length (conn_in (se_conn se)) < 2 ^ 31 - 1"
    and "next_words (se_conn se) = [''set'']"
  shows "atm_sess_process se w = Inl Bad_access"
proof (cases "se_state se = Sess_init")
  case True
  let ?s = "atm_sess_chstat (se\<lparr>se_continue := False\<rparr>) Sess_parsing"
  have "sess_loop (Suc (Suc 2)) ?s w = Inl Bad_access"
    using assms by (intro set_no_args) (simp_all add: sess_ready_def sess_idle_def atm_sess_chstat_def)
  then show ?thesis unfolding atm_sess_process_def
    using process_from_init [OF True, of 4] by (simp add: eval_nat_numeral del: sess_loop.simps)
next
  case False
  then have "se_state se = Sess_parsing" using assms(1) by (auto simp: sess_ready_def sess_idle_def)
  then have "sess_loop (Suc (Suc 3)) se w = Inl Bad_access"
    using assms by (intro set_no_args) (simp_all add: sess_ready_def sess_idle_def)
  then show ?thesis by (simp add: atm_sess_process_def eval_nat_numeral del: sess_loop.simps)
qed

theorem atm_sess_set_reads_behind_witness:
  "\<exists>se w. conn_in (se_conn se) = bytes_of ''set'' @ [10] \<and> atm_sess_process se w = Inl Bad_access"
proof -
  let ?in = "bytes_of (join [CHR '' ''] [''set'']) @ [10]"
  obtain se w where s: "sess_ready se w" "conn_in (se_conn se) = ?in"
    by (rule test_session [of ?in]) (simp add: bytes_of_def, rule that)
  have ws: "\<forall>t \<in> set [''set'']. split_word CHR '' '' t \<and> (\<forall>c \<in> set t. line_char c)"
    by (simp add: split_word_def plain_def is_quote_def DQ_def SQ_def NUL_def line_char_def)
  note fl = first_line [OF command_line(2) [OF ws], of "[]", simplified]
  have nw: "next_words (se_conn se) = [''set'']"
    unfolding next_words_def s(2) using fl(2) command_line(1) [OF ws] by simp
  have len: "length (conn_in (se_conn se)) < 2 ^ 31 - 1" unfolding s(2) by (simp add: bytes_of_def)
  have hl: "has_line (conn_in (se_conn se))" unfolding s(2) using fl(1) by simp
  from atm_sess_set_reads_behind [OF s(1) hl len nw] s(2) show ?thesis by auto
qed

text \<open>
  The loop of \<^verbatim>\<open>atm_sess_process\<close> ends after at most five rounds, from every state:
  more fuel does not change the result, and it only fails to return if a round does not.
\<close>

theorem atm_sess_process_ends:
  "sess_loop (5 + k) se w = atm_sess_process se w
    \<and> (atm_sess_process se w \<noteq> Inl No_return \<or> (\<exists>se' w'. sess_round se' w' = Inl No_return))"
proof -
  have "sess_rank (se_state se) < 5" by (simp add: sess_rank_def split: atm_sess_state.split)
  from sess_loop_fuel [OF this, of k w] show ?thesis unfolding atm_sess_process_def by blast
qed

theorem atm_sess_process_ends_witness:
  "\<exists>se w se' w'. conn_in (se_conn se) = bytes_of ''get'' \<and> sess_loop (5 + 95) se w = Inr (ATM_OK, se', w')"
proof -
  obtain se w where s: "sess_ready se w" "conn_in (se_conn se) = bytes_of ''get''"
    by (rule test_session [of "bytes_of ''get''"]) (simp add: bytes_of_def, rule that)
  have "\<not> has_line (conn_in (se_conn se))" "length (conn_in (se_conn se)) < 2 ^ 31 - 1"
    unfolding s(2) by (simp_all add: bytes_of_def has_line_def is_nl_def)
  from process_waits [OF s(1) this] conjunct1 [OF atm_sess_process_ends [of 95 se w]] s(2) show ?thesis by auto
qed

end
