(* ===== verification/Atm_Server.thy ===== *)
theory Atm_Server
  imports Atm_Sess
begin

text \<open>
  The running server: the connections that are allocated, with their sessions, the events of
  epoll, the operations and tasks on their way (\<^verbatim>\<open>src/core/atm_conn.c\<close>, \<^verbatim>\<open>atm_event.c\<close>,
  \<^verbatim>\<open>atm_task.c\<close>, \<^verbatim>\<open>atm_sess.c\<close> together). One input is one thing that happens: connections are
  accepted, epoll reports events, the engine applies an operation, a worker runs a task. The
  tasks may run in any order, as they do with several workers. A connection or an event that
  was freed is not in the maps any more, and using its address is a fault.
\<close>

section \<open>Listening\<close>

record atm_conn_listen =
  li_ssck :: atm_socket
  li_event :: "atm_event option"

definition atm_conn_listen_new :: "atm_socket \<Rightarrow> atm_conn_listen" where
  "atm_conn_listen_new ss = \<lparr>li_ssck = ss, li_event = None\<rparr>"

text \<open>
  The listening sockets for the bound addresses: \<^verbatim>\<open>lis\<close> is \<^verbatim>\<open>atm_net_listen_tcp\<close> with the port
  and the backlog of the configuration, \<^verbatim>\<open>nb\<close> is \<^verbatim>\<open>atm_net_nonblock\<close>. The events get the
  addresses from \<^verbatim>\<open>a\<close> on.
\<close>

fun listen_loop ::
  "('b \<Rightarrow> 'k \<Rightarrow> atm_socket option \<times> 'k) \<Rightarrow> (atm_socket \<Rightarrow> 'k \<Rightarrow> int \<times> 'k) \<Rightarrow> 'b list \<Rightarrow> addr \<Rightarrow> 'k \<Rightarrow>
   atm_conn_listen list \<times> ctl_call list \<times> 'k" where
  "listen_loop lis nb [] a k = ([], [], k)"
| "listen_loop lis nb (bindaddr # bs) a k =
     (case lis bindaddr k of
        (None, k) \<Rightarrow> listen_loop lis nb bs a k
      | (Some ss, k) \<Rightarrow>
          (case nb ss k of (ret, k) \<Rightarrow>
             if ret \<noteq> ATM_OK then listen_loop lis nb bs a k
             else
               let tcpl = atm_conn_listen_new ss;
                   (ev, calls) = atm_event_add_listen a (so_fd ss) (li_event tcpl);
                   (ls, calls', k) = listen_loop lis nb bs (Suc a) k
               in (tcpl\<lparr>li_event := ev\<rparr> # ls, calls @ calls', k)))"

text \<open>
  \<^verbatim>\<open>bindaddr\<close> of the configuration is NULL or an array of \<^verbatim>\<open>count\<close> addresses; with none of
  them the server binds to \<^verbatim>\<open>0.0.0.0\<close>.
\<close>

definition atm_conn_listen_tcp ::
  "(char list option \<Rightarrow> 'k \<Rightarrow> atm_socket option \<times> 'k) \<Rightarrow> (atm_socket \<Rightarrow> 'k \<Rightarrow> int \<times> 'k) \<Rightarrow>
   nat \<Rightarrow> char list option list option \<Rightarrow> addr \<Rightarrow> 'k \<Rightarrow> (atm_conn_listen list \<times> ctl_call list \<times> 'k) res" where
  "atm_conn_listen_tcp lis nb count bindaddr a k =
     res_map (\<lambda>bs. listen_loop lis nb bs a k)
       (if count = 0 then
          (case bindaddr of None \<Rightarrow> Inr [Some ''0.0.0.0''] | Some _ \<Rightarrow> Inl (Exit ATM_ERROR))
        else res_bind (of_some Null_deref bindaddr) (\<lambda>bs. mem_read bs 0 count))"

definition atm_conn_init ::
  "(char list option \<Rightarrow> 'k \<Rightarrow> atm_socket option \<times> 'k) \<Rightarrow> (atm_socket \<Rightarrow> 'k \<Rightarrow> int \<times> 'k) \<Rightarrow>
   nat \<Rightarrow> char list option list option \<Rightarrow> addr \<Rightarrow> 'k \<Rightarrow> 'w world_scheme \<Rightarrow>
   (atm_conn_listen list \<times> 'k \<times> 'w world_scheme) res" where
  "atm_conn_init lis nb count bindaddr a k w =
     res_map (\<lambda>(ls, calls, k). (ls, k, (log_ctl calls w)\<lparr>w_free := atm_list_new None ATM_FREE_SHALLOW\<rparr>))
       (atm_conn_listen_tcp lis nb count bindaddr a k)"

definition atm_conn_listen_free ::
  "atm_conn_listen option \<Rightarrow> 'w world_scheme \<Rightarrow> int list \<times> 'w world_scheme" where
  "atm_conn_listen_free listen w =
     (case listen of None \<Rightarrow> ([], w)
      | Some l \<Rightarrow> (fst (atm_socket_free (Some (li_ssck l))), log_ctl (atm_event_free (li_event l)) w))"

section \<open>The state of the server\<close>

text \<open>
  \<^verbatim>\<open>sv_evs\<close> gives the connection of an event; \<^verbatim>\<open>sv_brk\<close> is the next free address; \<^verbatim>\<open>sv_sent\<close> is
  what the kernel has taken from each connection.
\<close>

record srv =
  sv_w :: app
  sv_conns :: "addr \<rightharpoonup> atm_sess"
  sv_evs :: "addr \<rightharpoonup> addr"
  sv_brk :: addr
  sv_sent :: "addr \<Rightarrow> u8 list"

definition get_sess :: "addr \<Rightarrow> srv \<Rightarrow> atm_sess res" where
  "get_sess a s = of_some Bad_access (sv_conns s a)"

definition put_sess :: "addr \<Rightarrow> atm_sess \<Rightarrow> app \<Rightarrow> srv \<Rightarrow> srv" where
  "put_sess a se w s = s\<lparr>sv_conns := (sv_conns s)(a \<mapsto> se), sv_w := w\<rparr>"

definition with_conn :: "(atm_conn \<Rightarrow> app \<Rightarrow> (atm_conn \<times> app) res) \<Rightarrow> addr \<Rightarrow> srv \<Rightarrow> srv res" where
  "with_conn f a s =
     res_bind (get_sess a s) (\<lambda>se.
     res_map (\<lambda>(c, w). put_sess a (se\<lparr>se_conn := c\<rparr>) w s) (f (se_conn se) (sv_w s)))"

definition get_ev :: "addr \<Rightarrow> srv \<Rightarrow> addr res" where
  "get_ev ea s = of_some Bad_access (sv_evs s ea)"

section \<open>Accepting\<close>

definition add_conn :: "atm_socket \<Rightarrow> srv \<Rightarrow> srv" where
  "add_conn cs s =
     (let a = sv_brk s; ea = Suc a;
          (c, w) = accept_conn a ea cs (sv_w s)
      in s\<lparr>sv_w := w, sv_conns := (sv_conns s)(a \<mapsto> atm_sess_new c), sv_evs := (sv_evs s)(ea \<mapsto> a),
           sv_brk := Suc ea\<rparr>)"

fun accept_loop :: "('k \<Rightarrow> atm_socket option \<times> 'k) \<Rightarrow> nat \<Rightarrow> 'k \<Rightarrow> srv \<Rightarrow> 'k \<times> srv" where
  "accept_loop acc 0 k s = (k, s)"
| "accept_loop acc (Suc n) k s =
     (case acc k of
        (None, k) \<Rightarrow> (k, s)
      | (Some cs, k) \<Rightarrow> accept_loop acc n k (add_conn cs s))"

definition atm_conn_handle_accept :: "('k \<Rightarrow> atm_socket option \<times> 'k) \<Rightarrow> 'k \<Rightarrow> srv \<Rightarrow> 'k \<times> srv" where
  "atm_conn_handle_accept acc k s = accept_loop acc ATM_CONN_PERCALL_ACCEPTS k s"

section \<open>Events and operations\<close>

definition srv_event :: "addr \<Rightarrow> srv \<Rightarrow> atm_event res" where
  "srv_event ea s =
     res_bind (get_ev ea s) (\<lambda>a. res_bind (get_sess a s) (\<lambda>se. conn_event (se_conn se)))"

definition srv_handle_read :: "addr \<Rightarrow> srv \<Rightarrow> srv res" where
  "srv_handle_read ea s = res_bind (get_ev ea s) (\<lambda>a. with_conn atm_conn_handle_read a s)"

definition srv_handle_write :: "addr \<Rightarrow> srv \<Rightarrow> srv res" where
  "srv_handle_write ea s = res_bind (get_ev ea s) (\<lambda>a. with_conn atm_conn_handle_write a s)"

definition upd_event :: "(atm_event \<Rightarrow> atm_event \<times> ctl_call list) \<Rightarrow> atm_conn \<Rightarrow> app \<Rightarrow> (atm_conn \<times> app) res" where
  "upd_event f c w =
     res_map (\<lambda>e. let (e, calls) = f e in (c\<lparr>c_event := Some e\<rparr>, log_ctl calls w)) (conn_event c)"

text \<open>The engine takes the next operation out of its pipe.\<close>

definition srv_op :: "srv \<Rightarrow> srv res" where
  "srv_op s =
     (case w_ops (sv_w s) of [] \<Rightarrow> Inr s
      | op # ops \<Rightarrow>
          atm_event_notify_handle
            (\<lambda>ea f s. res_bind (get_ev ea s) (\<lambda>a. with_conn (upd_event f) a s))
            (Some op) (s\<lparr>sv_w := (sv_w s)\<lparr>w_ops := ops\<rparr>\<rparr>))"

section \<open>Tasks\<close>

text \<open>
  What the socket does during a task: the pieces that \<^verbatim>\<open>read\<close> returns, the counts that \<^verbatim>\<open>write\<close>
  takes (with the bytes it has taken); after them both return -1. An empty piece is the end of the input, which stays. Each
  read takes a byte or ends the loop, and so does each write: the fuel is enough.
\<close>

fun script_read :: "u8 list list sys_read" where
  "script_read [] n = (-1, [], [])"
| "script_read (b # bs) n = (int (length (take n b)), take n b,
     if b = [] \<or> n < length b then drop n b # bs else bs)"

fun script_write :: "(nat list \<times> u8 list) sys_write" where
  "script_write ([], out) b = (-1, [], out)"
| "script_write (k # ks, out) b = (int (length (take k b)), ks, out @ take k b)"

definition sess_proc :: "atm_sess \<Rightarrow> atm_conn \<Rightarrow> app \<Rightarrow> (int \<times> atm_sess \<times> atm_conn \<times> app) res" where
  "sess_proc se c w = res_map (\<lambda>(r, se, w). (r, se, se_conn se, w)) (atm_sess_process (se\<lparr>se_conn := c\<rparr>) w)"

definition sess_busy :: "addr \<Rightarrow> srv \<Rightarrow> bool res" where
  "sess_busy a s = res_map (\<lambda>se. c_on_write (se_conn se) \<or> c_on_read (se_conn se)) (get_sess a s)"

definition sess_drop :: "addr \<Rightarrow> srv \<Rightarrow> srv res" where
  "sess_drop a s =
     res_bind (get_sess a s) (\<lambda>se.
     res_map (\<lambda>(_, w). s\<lparr>sv_conns := (sv_conns s)(a := None), sv_w := w,
         sv_evs := (\<lambda>ea. if sv_evs s ea = Some a then None else sv_evs s ea)\<rparr>)
       (atm_sess_free (Some se) (sv_w s)))"

definition run_task :: "atm_task \<Rightarrow> u8 list list \<Rightarrow> nat list \<Rightarrow> bool \<Rightarrow> srv \<Rightarrow> srv res" where
  "run_task t rs ws eagain s =
     (case t_run t of
        Task_read \<Rightarrow>
          res_bind (of_some Null_deref (t_load t)) (\<lambda>a.
          res_bind (get_sess a s) (\<lambda>se.
          res_map (\<lambda>(_, _, se, c, w). put_sess a (se\<lparr>se_conn := c\<rparr>) w s)
            (atm_conn_task_read script_read (\<lambda>_. eagain) (Suc (length (concat rs))) sess_proc
               rs se (se_conn se) (sv_w s))))
      | Task_write \<Rightarrow>
          res_bind (of_some Null_deref (t_load t)) (\<lambda>a.
          res_bind (get_sess a s) (\<lambda>se.
          res_map (\<lambda>(_, (_, out), c, w).
              (put_sess a (se\<lparr>se_conn := c\<rparr>) w s)\<lparr>sv_sent := (sv_sent s)(a := sv_sent s a @ out)\<rparr>)
            (atm_conn_task_write script_write (\<lambda>_. eagain) (Suc (length (conn_out (se_conn se)))) (ws, [])
               (se_conn se) (sv_w s))))
      | Task_free \<Rightarrow>
          res_map (\<lambda>(l, s). s\<lparr>sv_w := (sv_w s)\<lparr>w_free := l\<rparr>\<rparr>)
            (atm_conn_free_func sess_busy sess_drop (w_free (sv_w s)) s))"

section \<open>Inputs\<close>

datatype srv_in = In_accept "atm_socket list" | In_events "(addr \<times> u32) list" | In_op
  | In_task nat "u8 list list" "nat list" bool

fun script_accept :: "atm_socket list \<Rightarrow> atm_socket option \<times> atm_socket list" where
  "script_accept [] = (None, [])"
| "script_accept (cs # css) = (Some cs, css)"

fun srv_do :: "srv_in \<Rightarrow> srv \<Rightarrow> srv res" where
  "srv_do (In_accept css) s = Inr (snd (atm_conn_handle_accept script_accept css s))"
| "srv_do (In_events es) s =
     atm_event_routine srv_event srv_handle_read srv_handle_write (int (length es), es) s"
| "srv_do In_op s = srv_op s"
| "srv_do (In_task i rs ws eagain) s =
     (let ts = w_tasks (sv_w s) in
      if i < length ts then
        run_task (ts ! i) rs ws eagain (s\<lparr>sv_w := (sv_w s)\<lparr>w_tasks := take i ts @ drop (Suc i) ts\<rparr>\<rparr>)
      else Inr s)"

fun srv_run :: "srv_in list \<Rightarrow> srv \<Rightarrow> srv res" where
  "srv_run [] s = Inr s"
| "srv_run (i # is) s = res_bind (srv_do i s) (srv_run is)"

inductive srv_step :: "srv \<Rightarrow> srv \<Rightarrow> bool" where
  step: "srv_do i s = Inr s' \<Longrightarrow> srv_step s s'"

end
