(* ===== verification/Atm_Server_Props.thy ===== *)
theory Atm_Server_Props
  imports Atm_Server Atm_Conn_Props
begin

text \<open>
  The life of connections in the running server: in every reachable state the connections that
  wait to be freed are allocated, waiting once, and exactly the deactivated ones, so that none
  is freed twice and none is lost. What the invariant does not give is shown in \<^verbatim>\<open>Atm_Server_Runs\<close>
  by a run that ends in an access to a freed connection.
\<close>

section \<open>What a session does not touch\<close>

definition keeps :: "atm_conn \<Rightarrow> app \<Rightarrow> atm_conn \<Rightarrow> app \<Rightarrow> bool" where
  "keeps c w c' w' \<longleftrightarrow> c_addr c' = c_addr c \<and> c_event c' = c_event c \<and> w_free w' = w_free w"

lemma keeps_refl: "keeps c w c w"
  by (simp add: keeps_def)

lemma keeps_trans: "keeps c w c1 w1 \<Longrightarrow> keeps c1 w1 c2 w2 \<Longrightarrow> keeps c w c2 w2"
  by (simp add: keeps_def)

text \<open>A session sends operations for its own event, and touches neither flags nor tasks.\<close>

definition stays :: "atm_conn \<Rightarrow> app \<Rightarrow> atm_conn \<Rightarrow> app \<Rightarrow> bool" where
  "stays c w c' w' \<longleftrightarrow> keeps c w c' w' \<and> c_on_read c' = c_on_read c \<and> c_on_write c' = c_on_write c
     \<and> w_tasks w' = w_tasks w
     \<and> (\<forall>op \<in> set (w_ops w'). op \<in> set (w_ops w) \<or> (\<exists>e. c_event c = Some e \<and> eo_e op = ev_addr e))"

lemma stays_refl: "stays c w c w"
  by (simp add: stays_def keeps_refl)

lemma stays_trans: "stays c w c1 w1 \<Longrightarrow> stays c1 w1 c2 w2 \<Longrightarrow> stays c w c2 w2"
  by (fastforce simp: stays_def keeps_def)

lemma stays_keeps: "stays c w c' w' \<Longrightarrow> keeps c w c' w'"
  by (simp add: stays_def)

lemmas res_inv = res_bind_eq_Inr res_map_eq_Inr

lemma write_stays: "atm_conn_write (Some c) src n w = Inr (Some c', w') \<Longrightarrow> stays c w c' w'"
  by (auto simp: stays_def keeps_def atm_conn_write_def atm_conn_write_notify_def add_notify_def conn_event_def
      of_some_def atm_event_op_new_def res_inv split: if_splits option.splits)

lemma write_str_stays: "atm_conn_write_str (Some c) m w = Inr (Some c', w') \<Longrightarrow> stays c w c' w'"
  by (auto simp: atm_conn_write_str_def dest: write_stays)

lemma reply_stays: "atm_sess_reply c m w = Inr (c', w') \<Longrightarrow> stays c w c' w'"
  by (auto simp: atm_sess_reply_def res_inv of_some_def split: option.splits dest: write_str_stays)

lemma read_line_stays: "atm_conn_read_line c w = Inr (l, c', w') \<Longrightarrow> stays c w c' w'"
  by (auto simp: stays_def keeps_def atm_conn_read_line_def res_inv)

lemma set_stays:
  assumes h: "atm_cmd_func_set se w = Inr (r, se', w')"
  shows "stays (se_conn se) w (se_conn se') w'"
proof -
  from h obtain cmd where cmd: "se_cmd se = Some cmd" by (cases "se_cmd se") (auto simp: atm_cmd_func_set_def)
  show ?thesis
  proof (cases "cmd_arity cmd < 0 \<or> se_argc se = cmd_arity cmd")
    case True
    with h cmd obtain d c1 where "atm_sess_reply (se_conn se) ''Success'' (w\<lparr>w_cache := d\<rparr>) = Inr (c1, w')"
        "se' = se\<lparr>se_conn := c1\<rparr>"
      unfolding atm_cmd_func_set_def cmd of_some_simps res_bind_simps if_P [OF True] res_inv
      by (elim exE conjE) (simp split: prod.splits)
    from reply_stays [OF this(1)] this(2) show ?thesis by (simp add: stays_def keeps_def)
  next
    case False
    with h cmd obtain c1 where "atm_sess_reply (se_conn se) ''Invalid argc'' w = Inr (c1, w')" "se' = se\<lparr>se_conn := c1\<rparr>"
      unfolding atm_cmd_func_set_def cmd of_some_simps res_bind_simps if_not_P [OF False] res_inv
      by (elim exE conjE) (simp split: prod.splits)
    from reply_stays [OF this(1)] this(2) show ?thesis by simp
  qed
qed

lemma get_stays:
  assumes h: "atm_cmd_func_get se w = Inr (r, se', w')"
  shows "stays (se_conn se) w (se_conn se') w'"
proof -
  from h obtain cmd where cmd: "se_cmd se = Some cmd" by (cases "se_cmd se") (auto simp: atm_cmd_func_get_def)
  show ?thesis
  proof (cases "cmd_arity cmd < 0 \<or> se_argc se = cmd_arity cmd")
    case True
    with h cmd obtain msg c1 where "atm_conn_write_str (Some (se_conn se)) msg w = Inr (Some c1, w')"
        "se' = se\<lparr>se_conn := c1\<rparr>"
      unfolding atm_cmd_func_get_def cmd of_some_simps res_bind_simps if_P [OF True] res_inv
      by (elim exE conjE) (simp add: of_some_def res_inv split: prod.splits option.splits)
    from write_str_stays [OF this(1)] this(2) show ?thesis by simp
  next
    case False
    with h cmd obtain c1 where "atm_sess_reply (se_conn se) ''Invalid argc'' w = Inr (c1, w')" "se' = se\<lparr>se_conn := c1\<rparr>"
      unfolding atm_cmd_func_get_def cmd of_some_simps res_bind_simps if_not_P [OF False] res_inv
      by (elim exE conjE) (simp split: prod.splits)
    from reply_stays [OF this(1)] this(2) show ?thesis by simp
  qed
qed

lemma cmd_stays: "cmd_call f se w = Inr (r, se', w') \<Longrightarrow> stays (se_conn se) w (se_conn se') w'"
  by (cases f) (simp_all add: cmd_call_def set_stays get_stays)

lemma args_conn: "sess_args argv se w = Inr se' \<Longrightarrow> se_conn se' = se_conn se"
  by (auto simp: sess_args_def res_inv)

lemma parsing_stays:
  assumes "atm_sess_parsing se w = Inr (r, se', w')"
  shows "stays (se_conn se) w (se_conn se') w'"
proof -
  let ?se = "se\<lparr>se_continue := False\<rparr>"
  from assms obtain line c1 w1 where rl: "atm_conn_read_line (se_conn se) w = Inr (line, c1, w1)"
    by (auto simp: atm_sess_parsing_def res_inv Let_def)
  note k = read_line_stays [OF rl]
  show ?thesis
  proof (cases line)
    case None
    with assms rl k show ?thesis by (auto simp: atm_sess_parsing_def Let_def)
  next
    case (Some h)
    with assms rl obtain argv where sp: "atm_str_split (str_val h) CHR '' '' (unat (atm_str_len line)) = Inr argv"
      by (auto simp: atm_sess_parsing_def res_inv Let_def)
    have "se_conn se' = c1 \<and> w' = w1"
      using assms rl Some sp
      by (cases argv) (auto simp: atm_sess_parsing_def res_inv Let_def atm_sess_chstat_def dest: args_conn)
    with k show ?thesis by simp
  qed
qed

lemma process_cmd_stays:
  assumes "atm_sess_process_cmd se w = Inr (r, se', w')"
  shows "stays (se_conn se) w (se_conn se') w'"
proof (cases "se_cmd se")
  case None
  with assms obtain c1 where "atm_sess_reply (se_conn se) ''Invalid cmd'' w = Inr (c1, w')" "se_conn se' = c1"
    by (auto simp: atm_sess_process_cmd_def res_inv atm_sess_chstat_def)
  then show ?thesis by (auto dest: reply_stays)
next
  case (Some cmd)
  with assms obtain q se1 where "cmd_call (cmd_func cmd) se w = Inr (q, se1, w')" "se_conn se' = se_conn se1"
    by (auto simp: atm_sess_process_cmd_def res_inv atm_sess_chstat_def)
  then show ?thesis by (auto dest: cmd_stays)
qed

lemma round_stays:
  assumes "sess_round se w = Inr (Some (se', w'))"
  shows "stays (se_conn se) w (se_conn se') w'"
proof (cases "se_state se")
  case Sess_parsing
  with assms show ?thesis using parsing_stays [of "se\<lparr>se_continue := False\<rparr>"]
    by (auto simp: sess_round_def res_inv)
next
  case Sess_process_cmd
  with assms show ?thesis using process_cmd_stays [of "se\<lparr>se_continue := False\<rparr>"]
    by (auto simp: sess_round_def res_inv)
qed (use assms in \<open>auto simp: sess_round_def atm_sess_reset_def res_inv atm_sess_chstat_def stays_refl\<close>)

lemma loop_stays: "sess_loop n se w = Inr (r, se', w') \<Longrightarrow> stays (se_conn se) w (se_conn se') w'"
proof (induction n arbitrary: se w)
  case (Suc n)
  from Suc.prems obtain x where x: "sess_round se w = Inr x"
    by (auto simp: res_inv)
  show ?case
  proof (cases x)
    case None
    with Suc.prems x show ?thesis by (auto simp: stays_refl)
  next
    case (Some p)
    obtain se1 w1 where p: "p = (se1, w1)" by (cases p)
    have k: "stays (se_conn se) w (se_conn se1) w1" using round_stays x Some p by simp
    show ?thesis
    proof (cases "se_continue se1")
      case True
      with Suc.prems x Some p Suc.IH [of se1 w1] show ?thesis by (auto intro: stays_trans [OF k])
    next
      case False
      with Suc.prems x Some p k show ?thesis by auto
    qed
  qed
qed simp

lemma proc_stays: "sess_proc se c w = Inr (r, se', c', w') \<Longrightarrow> stays c w c' w'"
  by (auto simp: sess_proc_def atm_sess_process_def res_inv dest!: loop_stays)

lemma proc_keeps: "sess_proc se c w = Inr (r, se', c', w') \<Longrightarrow> keeps c w c' w'"
  by (rule stays_keeps [OF proc_stays])

section \<open>The life of a connection\<close>

text \<open>An operation leaves a connection active or inactive, or deactivates it and queues it.\<close>

definition life :: "atm_conn \<Rightarrow> app \<Rightarrow> atm_conn \<Rightarrow> app \<Rightarrow> bool" where
  "life c w c' w' \<longleftrightarrow> c_addr c' = c_addr c \<and> (\<exists>e e'. c_event c = Some e \<and> c_event c' = Some e' \<and>
     (ev_active e' = ev_active e \<and> w_free w' = w_free w
      \<or> ev_active e \<and> \<not> ev_active e' \<and> atm_list_push (w_free w) (c_addr c) = Inr (w_free w')))"

lemma keeps_life: "keeps c w c' w' \<Longrightarrow> c_event c = Some e \<Longrightarrow> life c w c' w'"
  by (simp add: keeps_def life_def)

lemma keeps_life_trans: "keeps c w c1 w1 \<Longrightarrow> life c1 w1 c2 w2 \<Longrightarrow> life c w c2 w2"
  by (simp add: keeps_def life_def)

lemma life_keeps_trans: "life c w c1 w1 \<Longrightarrow> keeps c1 w1 c2 w2 \<Longrightarrow> life c w c2 w2"
  by (simp add: keeps_def life_def)

lemma conn_event_Inr: "conn_event c = Inr e \<longleftrightarrow> c_event c = Some e"
  by (auto simp: conn_event_def of_some_def split: option.splits)

lemma life_event: "life c w c' w' \<Longrightarrow> \<exists>e. c_event c = Some e"
  by (auto simp: life_def)

lemma clear_flag_simps [simp]:
  "c_addr (clear_flag f c) = c_addr c" "c_event (clear_flag f c) = c_event c"
  by (simp_all add: clear_flag_def split: conn_flag.split)

lemma notify_free [simp]: "w_free (atm_conn_free_notify w) = w_free w"
  by (simp add: atm_conn_free_notify_def atm_task_dispatch_def)

lemma inactive_life:
  assumes h: "atm_conn_inactive c f w = Inr (c', w')"
  shows "life c w c' w'"
proof -
  from h obtain e where e: "c_event c = Some e" by (auto simp: atm_conn_inactive_def res_inv conn_event_Inr)
  show ?thesis
  proof (cases "ev_active e")
    case True
    with h e obtain fl where "atm_list_push (w_free w) (c_addr c) = Inr fl"
        "c' = clear_flag f (c\<lparr>c_event := Some (atm_event_inactive e)\<rparr>)" "w' = atm_conn_free_notify (w\<lparr>w_free := fl\<rparr>)"
      by (auto simp: atm_conn_inactive_def atm_conn_free_enqueue_def conn_event_def res_inv Let_def)
    then show ?thesis using e True by (simp add: life_def atm_event_inactive_def)
  next
    case False
    with h e show ?thesis by (auto simp: atm_conn_inactive_def conn_event_def life_def)
  qed
qed

lemma free_check_keeps: "atm_conn_free_check c f w = Inr (c', w') \<Longrightarrow> keeps c w c' w'"
  by (auto simp: atm_conn_free_check_def keeps_def res_inv split: if_splits)

lemma read_raw_stays: "atm_conn_task_read_raw rd n k c w = Inr (r, k', c', w') \<Longrightarrow> stays c w c' w'"
  by (auto simp: atm_conn_task_read_raw_def stays_def keeps_def res_inv)

lemma write_raw_stays: "atm_conn_task_write_raw wr n k c w = Inr (r, k', c', w') \<Longrightarrow> stays c w c' w'"
  by (auto simp: atm_conn_task_write_raw_def stays_def keeps_def res_inv)

lemma handle_life:
  "atm_conn_handle_read c w = Inr (c', w') \<Longrightarrow> life c w c' w'"
  "atm_conn_handle_write c w = Inr (c', w') \<Longrightarrow> life c w c' w'"
  by (auto simp: atm_conn_handle_read_def atm_conn_handle_write_def conn_task_def atm_event_del_event_def
      atm_task_dispatch_def log_ctl_def life_def conn_event_Inr res_inv Let_def split: if_splits)

lemma upd_event_life:
  "upd_event (\<lambda>e. atm_event_add_event e m) c w = Inr (c', w') \<Longrightarrow> life c w c' w'"
  "upd_event (\<lambda>e. atm_event_del_event e m) c w = Inr (c', w') \<Longrightarrow> life c w c' w'"
  by (auto simp: upd_event_def atm_event_add_event_def atm_event_del_event_def log_ctl_def life_def
      conn_event_Inr res_inv Let_def split: if_splits)

lemma read_proc_life:
  assumes "task_read_proc rd ea n sess_proc k x c w = Inr (go, k', x', c', w')"
  shows "life c w c' w'"
proof -
  from assms obtain e where e: "c_event c = Some e" by (auto simp: task_read_proc_def res_inv conn_event_Inr)
  show ?thesis
  proof (cases "ev_active e")
    case False
    with assms e show ?thesis by (auto simp: task_read_proc_def conn_event_def life_def)
  next
    case True
    with assms e obtain r k1 c1 w1 where raw: "atm_conn_task_read_raw rd n k c w = Inr (r, k1, c1, w1)"
      by (auto simp: task_read_proc_def conn_event_def res_inv)
    note k1 = stays_keeps [OF read_raw_stays [OF raw]]
    show ?thesis
    proof (cases "(r = -1 \<and> \<not> ea k1) \<or> r = 0")
      case stop: True
      with assms e True raw have "atm_conn_inactive c1 On_read w1 = Inr (c', w')"
        by (auto simp: task_read_proc_def conn_event_def res_inv)
      from inactive_life [OF this] show ?thesis by (rule keeps_life_trans [OF k1])
    next
      case False
      with assms e True raw obtain q x2 c2 w2 where pr: "sess_proc x c1 w1 = Inr (q, x2, c2, w2)"
          "q = ATM_ERROR \<and> atm_conn_inactive c2 On_read w2 = Inr (c', w') \<or> q \<noteq> ATM_ERROR \<and> c' = c2 \<and> w' = w2"
        by (auto simp: task_read_proc_def conn_event_def res_inv split: if_splits)
      have k2: "keeps c w c2 w2" by (rule keeps_trans [OF k1 proc_keeps [OF pr(1)]])
      from pr(2) show ?thesis
        using keeps_life_trans [OF k2 inactive_life] keeps_life [OF k2 e] by blast
    qed
  qed
qed

lemma task_read_life:
  assumes "atm_conn_task_read rd ea n sess_proc k x c w = Inr (r, k', x', c', w')"
  shows "life c w c' w'"
proof -
  from assms obtain go k1 x1 c1 w1 where p: "task_read_proc rd ea n sess_proc k x c w = Inr (go, k1, x1, c1, w1)"
    by (auto simp: atm_conn_task_read_def res_inv)
  note l = read_proc_life [OF p]
  show ?thesis
  proof (cases go)
    case False
    with assms p l show ?thesis by (auto simp: atm_conn_task_read_def)
  next
    case True
    with assms p obtain e where fc: "atm_conn_free_check c1 On_read (if ev_active e then add_notify e ATM_EVENT_READ w1 else w1) = Inr (c', w')"
      by (auto simp: atm_conn_task_read_def res_inv Let_def)
    have "keeps c1 w1 c' w'" using free_check_keeps [OF fc] by (simp add: keeps_def add_notify_def)
    with l show ?thesis by (rule life_keeps_trans)
  qed
qed

lemma write_loop_life:
  "task_write_loop wr ea n m k c w = Inr (go, k', c', w') \<Longrightarrow> life c w c' w'"
proof (induction m arbitrary: k c w)
  case (Suc m)
  from Suc.prems obtain e where e: "c_event c = Some e" by (auto simp: res_inv conn_event_Inr)
  show ?case
  proof (cases "ev_active e")
    case False
    with Suc.prems e show ?thesis by (auto simp: conn_event_def life_def)
  next
    case True
    with Suc.prems e obtain r k1 c1 w1 where raw: "atm_conn_task_write_raw wr n k c w = Inr (r, k1, c1, w1)"
      by (auto simp: conn_event_def res_inv Let_def)
    note k1 = stays_keeps [OF write_raw_stays [OF raw]]
    consider (err) "r = -1 \<and> \<not> ea k1" | (zero) "\<not> (r = -1 \<and> \<not> ea k1)" "r = 0" | (more) "\<not> (r = -1 \<and> \<not> ea k1)" "r \<noteq> 0" by blast
    then show ?thesis
    proof cases
      case err
      with Suc.prems e True raw have "atm_conn_inactive c1 On_write w1 = Inr (c', w')"
        by (auto simp: conn_event_def res_inv Let_def)
      from inactive_life [OF this] show ?thesis by (rule keeps_life_trans [OF k1])
    next
      case zero
      with Suc.prems e True raw obtain a b where "atm_conn_inter_write c1 a b w1 = Inr (c', w')"
        by (auto simp: conn_event_def res_inv Let_def)
      then have "keeps c1 w1 c' w'"
        by (auto simp: atm_conn_inter_write_def keeps_def add_notify_def res_inv)
      then show ?thesis using keeps_life [OF keeps_trans [OF k1] e] by blast
    next
      case more
      with Suc.prems e True raw obtain y c2 where y: "atm_conn_yield_write c1 (c_write_reqs c) = Inr (y, c2)"
          "if y then c' = c2 \<and> w' = w1 else task_write_loop wr ea n m k1 c2 w1 = Inr (go, k', c', w')"
        by (auto simp: conn_event_def res_inv Let_def split: if_splits)
      have k2: "keeps c1 w1 c2 w1" using y(1) by (auto simp: atm_conn_yield_write_def keeps_def res_inv split: if_splits)
      show ?thesis
      proof (cases y)
        case True
        with y(2) keeps_life [OF keeps_trans [OF k1 k2] e] show ?thesis by simp
      next
        case False
        with y(2) Suc.IH have "life c2 w1 c' w'" by auto
        then show ?thesis by (rule keeps_life_trans [OF keeps_trans [OF k1 k2]])
      qed
    qed
  qed
qed simp

lemma task_write_life:
  assumes "atm_conn_task_write wr ea n k c w = Inr (r, k', c', w')"
  shows "life c w c' w'"
proof -
  from assms obtain go k1 c1 w1 where p: "task_write_loop wr ea n n k c w = Inr (go, k1, c1, w1)"
    by (auto simp: atm_conn_task_write_def res_inv)
  note l = write_loop_life [OF p]
  show ?thesis
  proof (cases go)
    case False
    with assms p l show ?thesis by (auto simp: atm_conn_task_write_def)
  next
    case True
    with assms p have "atm_conn_free_check c1 On_write w1 = Inr (c', w')" by (auto simp: atm_conn_task_write_def res_inv)
    from free_check_keeps [OF this] show ?thesis by (rule life_keeps_trans [OF l])
  qed
qed

section \<open>The invariant of the server\<close>

definition queued :: "addr list \<Rightarrow> srv \<Rightarrow> bool" where
  "queued fl s \<longleftrightarrow> distinct fl \<and> set fl \<subseteq> dom (sv_conns s)
     \<and> (\<forall>a se. sv_conns s a = Some se \<longrightarrow> a < sv_brk s \<and> c_addr (se_conn se) = a
          \<and> (\<exists>e. c_event (se_conn se) = Some e \<and> (ev_active e \<longleftrightarrow> a \<notin> set fl)))"

definition srv_inv :: "srv \<Rightarrow> bool" where
  "srv_inv s \<longleftrightarrow> wf_list (w_free (sv_w s)) \<and> queued (list_vals (w_free (sv_w s))) s"

lemma queued_cong:
  "sv_conns s' = sv_conns s \<Longrightarrow> sv_brk s' = sv_brk s \<Longrightarrow> queued fl s' = queued fl s"
  by (simp add: queued_def)

lemma srv_inv_cong:
  "sv_conns s' = sv_conns s \<Longrightarrow> sv_brk s' = sv_brk s \<Longrightarrow> w_free (sv_w s') = w_free (sv_w s) \<Longrightarrow>
   srv_inv s' = srv_inv s"
  unfolding srv_inv_def by (simp add: queued_cong [of s' s])

lemma queuedD:
  assumes "queued fl s" "sv_conns s a = Some se"
  shows "a < sv_brk s" "c_addr (se_conn se) = a"
    "\<exists>e. c_event (se_conn se) = Some e \<and> (ev_active e \<longleftrightarrow> a \<notin> set fl)"
  using assms by (auto simp: queued_def)

lemma put_sess_inv:
  assumes inv: "srv_inv s" and a: "sv_conns s a = Some se" and l: "life (se_conn se) (sv_w s) (se_conn se') w'"
  shows "srv_inv (put_sess a se' w' s)"
proof -
  let ?fl = "list_vals (w_free (sv_w s))"
  have wf: "wf_list (w_free (sv_w s))" and q: "queued ?fl s" using inv by (simp_all add: srv_inv_def)
  obtain e where e: "c_event (se_conn se) = Some e" "ev_active e \<longleftrightarrow> a \<notin> set ?fl" using queuedD(3) [OF q a] by blast
  obtain e' where e': "c_event (se_conn se') = Some e'" "c_addr (se_conn se') = a"
      "ev_active e' = ev_active e \<and> w_free w' = w_free (sv_w s)
       \<or> ev_active e \<and> \<not> ev_active e' \<and> atm_list_push (w_free (sv_w s)) a = Inr (w_free w')"
    using l e(1) queuedD(2) [OF q a] by (auto simp: life_def)
  have other: "\<exists>x. c_event (se_conn t) = Some x \<and> (ev_active x \<longleftrightarrow> b \<notin> set ?fl)" "b < sv_brk s" "c_addr (se_conn t) = b"
    if "sv_conns s b = Some t" for b t using queuedD [OF q that] by blast+
  from e'(3) show ?thesis
  proof
    assume k: "ev_active e' = ev_active e \<and> w_free w' = w_free (sv_w s)"
    have "queued ?fl (put_sess a se' w' s)"
      using q k e e' a other unfolding queued_def put_sess_def by auto
    then show ?thesis using wf k by (simp add: srv_inv_def put_sess_def)
  next
    assume k: "ev_active e \<and> \<not> ev_active e' \<and> atm_list_push (w_free (sv_w s)) a = Inr (w_free w')"
    have v: "wf_list (w_free w')" "list_vals (w_free w') = ?fl @ [a]"
      using ld.push_law [OF wf, of a] k by auto
    have "queued (?fl @ [a]) (put_sess a se' w' s)"
      using q k e e' a other unfolding queued_def put_sess_def by auto
    then show ?thesis using v by (simp add: srv_inv_def put_sess_def)
  qed
qed

lemma with_conn_inv:
  assumes "srv_inv s" "with_conn f a s = Inr s'" "\<And>c w c' w'. f c w = Inr (c', w') \<Longrightarrow> life c w c' w'"
  shows "srv_inv s'"
proof -
  from assms(2) obtain se c' w' where a: "sv_conns s a = Some se" "f (se_conn se) (sv_w s) = Inr (c', w')"
      "s' = put_sess a (se\<lparr>se_conn := c'\<rparr>) w' s"
    by (auto simp: with_conn_def get_sess_def of_some_def res_inv split: option.splits)
  have "life (se_conn se) (sv_w s) (se_conn (se\<lparr>se_conn := c'\<rparr>)) w'" using assms(3) [OF a(2)] by simp
  from put_sess_inv [OF assms(1) a(1) this] a(3) show ?thesis by simp
qed

lemma new_conn_event:
  obtains e calls where "atm_event_add_conn ea fd None = (Some e, calls)" "ev_active e" "ev_addr e = ea"
proof -
  obtain e calls where e: "atm_event_add_event (atm_event_new ea fd True True) (EPOLLIN OR EPOLLHUP OR EPOLLET) = (e, calls)"
    by (cases "atm_event_add_event (atm_event_new ea fd True True) (EPOLLIN OR EPOLLHUP OR EPOLLET)")
  then have "ev_active e" "ev_addr e = ea"
    by (auto simp: atm_event_add_event_def atm_event_new_def Let_def split: if_splits)
  with e that show thesis by (simp add: atm_event_add_conn_def)
qed

lemma add_conn_inv:
  assumes inv: "srv_inv s"
  shows "srv_inv (add_conn cs s)"
proof -
  let ?fl = "list_vals (w_free (sv_w s))" and ?a = "sv_brk s"
  obtain e calls where ev: "atm_event_add_conn (Suc ?a) (so_fd cs) None = (Some e, calls)" "ev_active e"
    by (rule new_conn_event [of "Suc ?a" "so_fd cs"])
  let ?c = "(atm_conn_new ?a cs)\<lparr>c_event := Some e\<rparr>"
  have q: "queued ?fl s" and wf: "wf_list (w_free (sv_w s))" using inv by (simp_all add: srv_inv_def)
  have fresh: "sv_conns s ?a = None" using q by (cases "sv_conns s ?a") (auto simp: queued_def)
  then have nf: "?a \<notin> set ?fl" using q by (auto simp: queued_def)
  have s': "sv_conns (add_conn cs s) = (sv_conns s)(?a \<mapsto> atm_sess_new ?c)" "sv_brk (add_conn cs s) = Suc (Suc ?a)"
      "w_free (sv_w (add_conn cs s)) = w_free (sv_w s)"
    using ev by (simp_all add: add_conn_def accept_conn_def log_ctl_def Let_def)
  have "queued ?fl (add_conn cs s)"
    unfolding queued_def s'
  proof (intro conjI allI impI)
    show "distinct ?fl" "set ?fl \<subseteq> dom ((sv_conns s)(?a \<mapsto> atm_sess_new ?c))"
      using q by (auto simp: queued_def)
  next
    fix b se assume b: "((sv_conns s)(?a \<mapsto> atm_sess_new ?c)) b = Some se"
    show "b < Suc (Suc ?a)" "c_addr (se_conn se) = b"
      "\<exists>e. c_event (se_conn se) = Some e \<and> (ev_active e \<longleftrightarrow> b \<notin> set ?fl)"
      using b queuedD [OF q, of b se] ev(2) nf
      by (auto simp: atm_sess_new_def atm_conn_new_def split: if_splits)
  qed
  then show ?thesis using wf s'(3) by (simp add: srv_inv_def)
qed

lemma accept_loop_inv: "srv_inv s \<Longrightarrow> srv_inv (snd (accept_loop acc n k s))"
proof (induction n arbitrary: k s)
  case (Suc n)
  then show ?case using add_conn_inv by (auto split: prod.split option.split)
qed simp

lemma process_ev_inv:
  assumes "srv_inv s" "atm_event_process_ev (srv_event ea) (srv_handle_read ea) (srv_handle_write ea) evs s = Inr s'"
  shows "srv_inv s'"
proof -
  have r: "srv_inv t'" if "srv_inv t" "srv_handle_read ea t = Inr t'" for t t'
    using that with_conn_inv [OF that(1), of atm_conn_handle_read] handle_life(1)
    by (auto simp: srv_handle_read_def res_inv)
  have w: "srv_inv t'" if "srv_inv t" "srv_handle_write ea t = Inr t'" for t t'
    using that with_conn_inv [OF that(1), of atm_conn_handle_write] handle_life(2)
    by (auto simp: srv_handle_write_def res_inv)
  from assms(2) show ?thesis unfolding atm_event_process_ev_def Let_def res_inv
    using assms(1) by (auto simp: res_inv split: if_splits dest: r w)
qed

lemma process_all_inv:
  "srv_inv s \<Longrightarrow> process_all srv_event srv_handle_read srv_handle_write es s = Inr s' \<Longrightarrow> srv_inv s'"
proof (induction es arbitrary: s)
  case (Cons x es)
  obtain a evs where x: "x = (a, evs)" by (cases x)
  from Cons.prems(2) x obtain s1 where s1: "process_all srv_event srv_handle_read srv_handle_write es s1 = Inr s'"
      "s1 = s \<or> atm_event_process_ev (srv_event a) (srv_handle_read a) (srv_handle_write a) evs s = Inr s1"
    by (auto simp: res_inv split: if_splits)
  then show ?case using Cons.IH Cons.prems(1) process_ev_inv by blast
qed simp

lemma op_inv:
  assumes "srv_inv s" "srv_op s = Inr s'"
  shows "srv_inv s'"
proof (cases "w_ops (sv_w s)")
  case (Cons op ops)
  let ?s = "s\<lparr>sv_w := (sv_w s)\<lparr>w_ops := ops\<rparr>\<rparr>"
  have i: "srv_inv ?s" using assms(1) srv_inv_cong [of ?s s] by simp
  have u: "srv_inv s'" if "res_bind (get_ev ea ?s) (\<lambda>a. with_conn (upd_event f) a ?s) = Inr s'"
    "f = (\<lambda>e. atm_event_add_event e m) \<or> f = (\<lambda>e. atm_event_del_event e m)" for ea f m
    using that with_conn_inv [OF i] upd_event_life by (fastforce simp: res_inv)
  from assms(2) Cons show ?thesis
    using i u [of "eo_e op" _ "eo_mask op"]
    by (auto simp: srv_op_def atm_event_notify_handle_def split: if_splits)
qed (use assms in \<open>simp add: srv_op_def\<close>)

lemma free_loop_inv:
  assumes fr: "\<And>c s s' vs. busy c s = Inr False \<Longrightarrow> fr c s = Inr s' \<Longrightarrow> Q (c # vs) s \<Longrightarrow> Q vs s'"
    and rot: "\<And>c s vs. Q (c # vs) s \<Longrightarrow> Q (vs @ [c]) s"
  shows "free_loop busy fr n unproc l s = Inr (l', s') \<Longrightarrow> wf_list l \<Longrightarrow> Q (list_vals l) s \<Longrightarrow>
    wf_list l' \<and> Q (list_vals l') s'"
proof (induction n arbitrary: unproc l s)
  case (Suc n)
  have pk: "atm_list_lpeek l = Inr (case list_vals l of [] \<Rightarrow> None | v # _ \<Rightarrow> Some v)"
    by (rule ld.lpeek_law [OF Suc.prems(2)])
  show ?case
  proof (cases "list_vals l")
    case Nil
    with Suc.prems pk show ?thesis by (cases unproc) (auto simp: ld.lpop_empty [OF Suc.prems(2)])
  next
    case (Cons c vs)
    obtain l1 where l1: "atm_list_lpop l = Inr (Some c, l1)" "wf_list l1" "list_vals l1 = vs"
      using ld.lpop_law [OF Suc.prems(2) Cons] by auto
    obtain l2 where l2: "atm_list_push l1 c = Inr l2" "wf_list l2" "list_vals l2 = vs @ [c]"
      using ld.push_law [OF l1(2), of c] l1(3) by auto
    show ?thesis
    proof (cases "unproc = Some c")
      case True
      with Suc.prems pk Cons show ?thesis by simp
    next
      case False
      with Suc.prems(1) pk Cons l1(1) l2(1) consider
          s1 where "fr c s = Inr s1" "free_loop busy fr n unproc l1 s1 = Inr (l', s')" "busy c s = Inr False"
        | u where "free_loop busy fr n u l2 s = Inr (l', s')"
        by (auto simp: res_inv split: if_splits)
      then show ?thesis
      proof cases
        case 1
        have "Q vs s1" using fr [OF 1(3,1)] Suc.prems(3) Cons by simp
        with Suc.IH [OF 1(2) l1(2)] l1(3) show ?thesis by simp
      next
        case 2
        have "Q (vs @ [c]) s" using rot Suc.prems(3) Cons by simp
        with Suc.IH [OF 2 l2(2)] l2(3) show ?thesis by simp
      qed
    qed
  qed
qed simp

lemma queued_rotate: "queued (c # vs) s \<Longrightarrow> queued (vs @ [c]) s"
  by (auto simp: queued_def)

lemma queued_drop:
  assumes "sess_drop c s = Inr s'" "queued (c # vs) s"
  shows "queued vs s'"
proof -
  from assms(1) have s': "sv_conns s' = (sv_conns s)(c := None)" "sv_brk s' = sv_brk s"
    by (auto simp: sess_drop_def get_sess_def of_some_def res_inv split: option.splits)
  show ?thesis unfolding queued_def s'
  proof (intro conjI allI impI)
    show "distinct vs" "set vs \<subseteq> dom ((sv_conns s)(c := None))" using assms(2) by (auto simp: queued_def)
  next
    fix a se assume a: "((sv_conns s)(c := None)) a = Some se"
    then show "a < sv_brk s" "c_addr (se_conn se) = a"
      "\<exists>e. c_event (se_conn se) = Some e \<and> (ev_active e \<longleftrightarrow> a \<notin> set vs)"
      using queuedD [OF assms(2), of a se] by (auto split: if_splits)
  qed
qed

lemma run_task_inv:
  assumes inv: "srv_inv s" and run: "run_task t rs ws eagain s = Inr s'"
  shows "srv_inv s'"
proof (cases "t_run t")
  case Task_read
  with run obtain a se r k x c w where a: "sv_conns s a = Some se" "s' = put_sess a (x\<lparr>se_conn := c\<rparr>) w s"
      "atm_conn_task_read script_read (\<lambda>_. eagain) (Suc (length (concat rs))) sess_proc
         rs se (se_conn se) (sv_w s) = Inr (r, k, x, c, w)"
    by (auto simp: run_task_def get_sess_def of_some_def res_inv split: option.splits)
  have "life (se_conn se) (sv_w s) (se_conn (x\<lparr>se_conn := c\<rparr>)) w" using task_read_life [OF a(3)] by simp
  from put_sess_inv [OF inv a(1) this] a(2) show ?thesis by simp
next
  case Task_write
  with run obtain a se r ks bs c w where a: "sv_conns s a = Some se"
      "s' = (put_sess a (se\<lparr>se_conn := c\<rparr>) w s)\<lparr>sv_sent := (sv_sent s)(a := sv_sent s a @ bs)\<rparr>"
      "atm_conn_task_write script_write (\<lambda>_. eagain) (Suc (length (conn_out (se_conn se)))) (ws, []) (se_conn se) (sv_w s)
        = Inr (r, (ks, bs), c, w)"
    by (auto simp: run_task_def get_sess_def of_some_def res_inv split: option.splits)
  have "life (se_conn se) (sv_w s) (se_conn (se\<lparr>se_conn := c\<rparr>)) w" using task_write_life [OF a(3)] by simp
  from put_sess_inv [OF inv a(1) this] a(2) show ?thesis by (simp add: srv_inv_def queued_def)
next
  case Task_free
  with run obtain l s1 where f: "free_loop sess_busy sess_drop (Suc (l_brk (w_free (sv_w s)))) None (w_free (sv_w s)) s = Inr (l, s1)"
      "s' = s1\<lparr>sv_w := (sv_w s1)\<lparr>w_free := l\<rparr>\<rparr>"
    by (auto simp: run_task_def atm_conn_free_func_def res_inv simp del: free_loop.simps)
  have "wf_list l \<and> queued (list_vals l) s1"
    by (rule free_loop_inv [where Q = queued, OF _ _ f(1)]) (use inv queued_drop queued_rotate in \<open>auto simp: srv_inv_def\<close>)
  then show ?thesis using f(2) queued_cong [of s' s1] by (simp add: srv_inv_def)
qed

lemma srv_do_inv:
  assumes "srv_inv s" "srv_do i s = Inr s'"
  shows "srv_inv s'"
proof (cases i)
  case (In_accept css)
  then show ?thesis using assms accept_loop_inv by (auto simp: atm_conn_handle_accept_def)
next
  case (In_events es)
  then show ?thesis using assms process_all_inv
    by (auto simp: atm_event_routine_def atm_event_process_events_def split: if_splits)
next
  case In_op
  then show ?thesis using assms op_inv by simp
next
  case (In_task k rs ws eagain)
  let ?ts = "w_tasks (sv_w s)"
  let ?s = "s\<lparr>sv_w := (sv_w s)\<lparr>w_tasks := take k ?ts @ drop (Suc k) ?ts\<rparr>\<rparr>"
  have "srv_inv ?s" using assms(1) srv_inv_cong [of ?s s] by simp
  then show ?thesis using assms In_task run_task_inv by (auto simp: Let_def split: if_splits)
qed

definition srv_new :: "app \<Rightarrow> srv" where
  "srv_new w = \<lparr>sv_w = w\<lparr>w_free := atm_list_new None ATM_FREE_SHALLOW\<rparr>, sv_conns = (\<lambda>_. None),
     sv_evs = (\<lambda>_. None), sv_brk = 0, sv_sent = (\<lambda>_. [])\<rparr>"

lemma srv_reach_inv: "srv_step\<^sup>*\<^sup>* (srv_new w) s \<Longrightarrow> srv_inv s"
proof (induction rule: rtranclp_induct)
  case base
  show ?case by (simp add: srv_new_def srv_inv_def queued_def)
next
  case (step y z)
  then show ?case using srv_do_inv by (auto elim: srv_step.cases)
qed

lemma srv_run_steps: "srv_run ins s = Inr s' \<Longrightarrow> srv_step\<^sup>*\<^sup>* s s'"
proof (induction ins arbitrary: s)
  case (Cons i ins)
  then obtain s1 where "srv_do i s = Inr s1" "srv_run ins s1 = Inr s'" by (auto simp: res_inv)
  then show ?case using Cons.IH srv_step.step by (meson converse_rtranclp_into_rtranclp)
qed simp

end
