(* ===== verification/Atm_Request.thy ===== *)
theory Atm_Request
  imports Atm_Sess_Props Atm_Server_Props
begin

text \<open>
  From the socket to the reply: the read task of \<^verbatim>\<open>src/core/atm_conn.c\<close> composed with the session
  it runs. The bytes that a client has sent, in whatever pieces the kernel hands them over, are
  served as one line of \<^verbatim>\<open>cmd_spec\<close>; what is behind that line stays in the buffer.
\<close>

definition line_words :: "u8 list \<Rightarrow> char list list" where
  "line_words inp = split_tokens CHR '' '' (line_text (line_of inp))"

lemma next_words_line: "next_words c = line_words (conn_in c)"
  by (simp add: next_words_def line_words_def)

text \<open>A socket that gives something whenever something is pending, as \<^verbatim>\<open>read\<close> does.\<close>

definition sock_drains :: "'s sys_read \<Rightarrow> ('s \<Rightarrow> u8 list) \<Rightarrow> bool" where
  "sock_drains rd pend \<longleftrightarrow> sock_source rd pend \<and> (\<forall>s n. 0 < n \<longrightarrow> pend s \<noteq> [] \<longrightarrow> 0 < fst (rd s n))"

lemma task_read_raw_ok:
  fixes w :: "'w world_scheme"
  assumes wf: "wf_conn c w" and src: "sock_drains rd pend" and fuel: "length (pend s) < fuel" and p: "pend s \<noteq> []"
  shows "\<exists>r s' c' w'. atm_conn_task_read_raw rd fuel s c w = Inr (r, s', c', w') \<and> 0 < r \<and> pend s' = []
    \<and> wf_conn c' w' \<and> conn_in c' = conn_in c @ pend s \<and> conn_out c' = conn_out c
    \<and> conn_rest c' = conn_rest c \<and> world_rest w' = world_rest w \<and> w_ops w' = w_ops w"
proof -
  let ?st = "(c_r_buf c, w_pool w)"
  have i: "buf_stream ?st = conn_in c" unfolding conn_in_def by (rule buf_stream_pool)
  have wfs: "wf_buf ?st" using wf by (simp add: wf_conn_def)
  have s: "sock_source rd pend" using src by (simp add: sock_drains_def)
  obtain k r s' st' where l: "read_sock_loop rd fuel s ?st 0 = Inr (r, s', st')" "wf_buf st'" "k \<le> length (pend s)"
      "pend s' = drop k (pend s)" "buf_stream st' = buf_stream ?st @ take k (pend s)"
      "if 0 < 0 + int k then r = 0 + int k else r \<le> 0" "\<exists>s0 m. 0 < m \<and> fst (rd s0 m) \<le> 0 \<and> pend s0 = pend s'"
    using read_sock_loop_ok [OF s wfs fuel order_refl] by blast
  have e: "pend s' = []" using l(7) src unfolding sock_drains_def by (metis not_less)
  then have k: "k = length (pend s)" using l(3,4) by simp
  obtain b q where bq: "st' = (b, q)" by (cases st')
  have "wf_buf (c_w_buf c, q)"
    using wf wf_buf_pool [of "c_w_buf c" "w_pool w" q] wf_buf_poolD [OF l(2)] by (simp add: wf_conn_def bq)
  moreover have "buf_stream (b, None) = conn_in c @ pend s"
    using l(5) k i by (simp add: bq buf_stream_pool [of _ q])
  moreover have "0 < r" using l(6) k p by simp
  ultimately show ?thesis using l(1,2) e
    by (simp add: atm_conn_task_read_raw_def atm_buf_read_sock_def bq conn_defs)
qed

text \<open>The end of the read task of a connection that is still active.\<close>

lemma task_read_end:
  assumes "task_read_proc rd eagain fuel proc s x c w = Inr (True, s', x', c', w')"
    and "c_event c' = Some e" "ev_active e"
  shows "atm_conn_task_read rd eagain fuel proc s x c w = Inr (ATM_OK, s', x', c'\<lparr>c_on_read := False\<rparr>, add_notify e ATM_EVENT_READ w')"
  using assms by (simp add: atm_conn_task_read_def atm_conn_free_check_def clear_flag_def conn_event_def Let_def)

text \<open>What the session makes of its input.\<close>

definition input_served :: "atm_sess \<Rightarrow> app \<Rightarrow> atm_conn \<Rightarrow> app \<Rightarrow> u8 list \<Rightarrow> bool" where
  "input_served se w c' w' inp \<longleftrightarrow>
     (if has_line inp then
        (cache_abs w', conn_out c') = (case cmd_spec (line_words inp) (cache_abs w) of
            (m, r) \<Rightarrow> (m, conn_out (se_conn se) @ bytes_of (r @ [NL]))) \<and> conn_in c' = after_line inp
      else cache_abs w' = cache_abs w \<and> conn_out c' = conn_out (se_conn se) \<and> conn_in c' = inp)"

text \<open>What the session leaves alone, and the operation it sends with a reply.\<close>

definition sess_frame :: "atm_conn \<Rightarrow> app \<Rightarrow> atm_conn \<Rightarrow> app \<Rightarrow> u8 list \<Rightarrow> bool" where
  "sess_frame c w c' w' inp \<longleftrightarrow> conn_rest c' = conn_rest c \<and> w_tasks w' = w_tasks w \<and> w_free w' = w_free w
     \<and> w_ops w' = w_ops w @ (case c_event c of None \<Rightarrow> [] | Some e \<Rightarrow>
         if has_line inp \<and> ev_active e \<and> \<not> c_on_write c then [notify_op e ATM_EVENT_WRITE] else [])"

lemma sess_proc_serves:
  assumes rd: "sess_ready (se\<lparr>se_conn := c\<rparr>) w" and len: "length (conn_in c) < 2 ^ 31 - 1"
    and run: "has_line (conn_in c) \<longrightarrow> runnable (line_words (conn_in c)) w"
    and out: "conn_out c = conn_out (se_conn se)"
  shows "\<exists>se' c' w'. sess_proc se c w = Inr (ATM_OK, se', c', w') \<and> se_conn se' = c' \<and> sess_ready se' w'
    \<and> input_served se w c' w' (conn_in c) \<and> sess_frame c w c' w' (conn_in c)"
proof (cases "has_line (conn_in c)")
  case True
  have "\<exists>se' w'. atm_sess_process (se\<lparr>se_conn := c\<rparr>) w = Inr (ATM_OK, se', w') \<and> sess_ready se' w'
    \<and> (cache_abs w', conn_out (se_conn se')) = (case cmd_spec (line_words (conn_in c)) (cache_abs w) of
        (m, r) \<Rightarrow> (m, conn_out c @ bytes_of (r @ [NL])))
    \<and> conn_in (se_conn se') = after_line (conn_in c) \<and> sess_frame c w (se_conn se') w' (conn_in c)"
  proof -
    have cc: "se_conn (se\<lparr>se_conn := c\<rparr>) = c" by simp
    obtain se' w' where p: "atm_sess_process (se\<lparr>se_conn := c\<rparr>) w = Inr (ATM_OK, se', w')" "sess_ready se' w'"
        "(cache_abs w', conn_out (se_conn se')) = (case cmd_spec (line_words (conn_in c)) (cache_abs w) of
          (m, r) \<Rightarrow> (m, conn_out c @ bytes_of (r @ [NL])))"
        "conn_in (se_conn se') = after_line (conn_in c)" "w_tasks w' = w_tasks w" "w_free w' = w_free w"
        "conn_rest (se_conn se') = conn_rest c"
        "w_ops w' = w_ops w @ (case c_event c of None \<Rightarrow> [] | Some e \<Rightarrow>
          if ev_active e \<and> \<not> c_on_write c then [notify_op e ATM_EVENT_WRITE] else [])"
      using process_line [OF rd, unfolded cc next_words_line, OF True len mp [OF run True]] by blast
    have "sess_frame c w (se_conn se') w' (conn_in c)" using p(5-8) True by (auto simp: sess_frame_def split: option.split)
    then show ?thesis using p(1-4) by blast
  qed
  then show ?thesis using True out by (auto simp: sess_proc_def input_served_def)
next
  case False
  have "atm_sess_process (se\<lparr>se_conn := c\<rparr>) w
      = Inr (ATM_OK, se\<lparr>se_conn := c, se_state := Sess_parsing, se_continue := False\<rparr>, w)"
    using process_waits [OF rd] False len by simp
  then show ?thesis using rd False out
    by (simp add: sess_proc_def input_served_def sess_frame_def sess_ready_def sess_idle_def split: option.split)
qed

text \<open>The read task after a read that was no error and not the end of the input.\<close>

lemma task_read_rest:
  assumes rd: "sess_ready se w" and e: "c_event (se_conn se) = Some e" "ev_active e"
    and raw: "atm_conn_task_read_raw rd fuel s (se_conn se) w = Inr (r, s1, c1, w1)" "\<not> (r = -1 \<and> \<not> eagain s1 \<or> r = 0)"
    and c1: "wf_conn c1 w1" "conn_in c1 = inp" "conn_out c1 = conn_out (se_conn se)"
      "conn_rest c1 = conn_rest (se_conn se)" "world_rest w1 = world_rest w" "w_ops w1 = w_ops w"
    and inp: "length inp < 2 ^ 31 - 1" "has_line inp \<longrightarrow> runnable (line_words inp) w"
  shows "\<exists>se' c' w'. atm_conn_task_read rd eagain fuel sess_proc s se (se_conn se) w = Inr (ATM_OK, s1, se', c', w')
    \<and> sess_ready (se'\<lparr>se_conn := c'\<rparr>) w' \<and> input_served se w c' w' inp
    \<and> c_event c' = Some e \<and> \<not> c_on_read c' \<and> c_on_write c' = c_on_write (se_conn se) \<and> c_addr c' = c_addr (se_conn se)
    \<and> w_tasks w' = w_tasks w \<and> w_free w' = w_free w
    \<and> w_ops w' = w_ops w @ (if has_line inp \<and> \<not> c_on_write (se_conn se) then [notify_op e ATM_EVENT_WRITE] else [])
        @ [notify_op e ATM_EVENT_READ]"
proof -
  note ac = app_cong [OF app_restD [OF c1(5)]] and cr = conn_restD [OF c1(4)]
  have sr: "sess_ready (se\<lparr>se_conn := c1\<rparr>) w1"
    using rd c1(1) cr(1) ac by (simp add: sess_ready_def sess_idle_def)
  have "runnable (line_words inp) w1" if "runnable (line_words inp) w"
    using that app_restD [OF c1(5)] by (auto simp: runnable_def cache_room_def split: list.splits)
  then obtain se2 c2 w2 where pr: "sess_proc se c1 w1 = Inr (ATM_OK, se2, c2, w2)" "se_conn se2 = c2" "sess_ready se2 w2"
      "input_served se w1 c2 w2 inp" "sess_frame c1 w1 c2 w2 inp"
    using sess_proc_serves [OF sr] c1(2,3) inp by auto
  note c21 = conn_restD [OF trans [OF conjunct1 [OF pr(5) [unfolded sess_frame_def]] c1(4)]]
  have fr: "w_tasks w2 = w_tasks w" "w_free w2 = w_free w"
      "w_ops w2 = w_ops w @ (if has_line inp \<and> \<not> c_on_write (se_conn se) then [notify_op e ATM_EVENT_WRITE] else [])"
    using pr(5) world_restD [OF c1(5)] c1(6) cr e by (simp_all add: sess_frame_def)
  have e2: "c_event c2 = Some e" using proc_keeps [OF pr(1)] cr(1) e(1) by (simp add: keeps_def)
  have "task_read_proc rd eagain fuel sess_proc s se (se_conn se) w = Inr (True, s1, se2, c2, w2)"
    using raw pr(1) e by (auto simp: task_read_proc_def conn_event_def ATM_OK_def ATM_ERROR_def)
  from task_read_end [OF this e2 e(2)] have t: "atm_conn_task_read rd eagain fuel sess_proc s se (se_conn se) w
      = Inr (ATM_OK, s1, se2, c2\<lparr>c_on_read := False\<rparr>, add_notify e ATM_EVENT_READ w2)" .
  have "sess_ready (se2\<lparr>se_conn := c2\<lparr>c_on_read := False\<rparr>\<rparr>) (add_notify e ATM_EVENT_READ w2)"
    using pr(2,3) app_cong [of "add_notify e ATM_EVENT_READ w2" w2]
    by (simp add: sess_ready_def sess_idle_def wf_conn_def add_notify_def)
  moreover have co: "conn_in (c2\<lparr>c_on_read := False\<rparr>) = conn_in c2" "conn_out (c2\<lparr>c_on_read := False\<rparr>) = conn_out c2"
    by (simp_all add: conn_in_def conn_out_def)
  have cm: "cache_abs (add_notify e ATM_EVENT_READ w2) = cache_abs w2"
    by (rule app_cong(3)) (simp_all add: add_notify_def)
  have "input_served se w (c2\<lparr>c_on_read := False\<rparr>) (add_notify e ATM_EVENT_READ w2) inp"
    using pr(4) unfolding input_served_def co ac(3) cm .
  ultimately show ?thesis using t e2 c21 fr
    by (intro exI [of _ se2] exI [of _ "c2\<lparr>c_on_read := False\<rparr>"] exI [of _ "add_notify e ATM_EVENT_READ w2"])
       (simp add: add_notify_def notify_op_def)
qed

lemma task_read_serves:
  assumes rd: "sess_ready se w" and e: "c_event (se_conn se) = Some e" "ev_active e"
    and src: "sock_drains rd pend" "pend s \<noteq> []" "length (pend s) < fuel"
    and inp: "inp = conn_in (se_conn se) @ pend s" "length inp < 2 ^ 31 - 1"
    and run: "has_line inp \<longrightarrow> runnable (line_words inp) w"
  shows "\<exists>s' se' c' w'. atm_conn_task_read rd eagain fuel sess_proc s se (se_conn se) w = Inr (ATM_OK, s', se', c', w')
    \<and> pend s' = [] \<and> sess_ready (se'\<lparr>se_conn := c'\<rparr>) w' \<and> input_served se w c' w' inp
    \<and> c_event c' = Some e \<and> \<not> c_on_read c' \<and> c_on_write c' = c_on_write (se_conn se) \<and> c_addr c' = c_addr (se_conn se)
    \<and> w_tasks w' = w_tasks w \<and> w_free w' = w_free w
    \<and> w_ops w' = w_ops w @ (if has_line inp \<and> \<not> c_on_write (se_conn se) then [notify_op e ATM_EVENT_WRITE] else [])
        @ [notify_op e ATM_EVENT_READ]"
proof -
  have wf: "wf_conn (se_conn se) w" using rd by (simp add: sess_ready_def)
  obtain r s1 c1 w1 where raw: "atm_conn_task_read_raw rd fuel s (se_conn se) w = Inr (r, s1, c1, w1)" "0 < r" "pend s1 = []"
      "wf_conn c1 w1" "conn_in c1 = inp" "conn_out c1 = conn_out (se_conn se)"
      "conn_rest c1 = conn_rest (se_conn se)" "world_rest w1 = world_rest w" "w_ops w1 = w_ops w"
    using task_read_raw_ok [OF wf src(1,3,2)] unfolding inp(1) by blast
  have "\<not> (r = -1 \<and> \<not> eagain s1 \<or> r = 0)" using raw(2) by simp
  from task_read_rest [where eagain = eagain, OF rd e raw(1) this raw(4-9) inp(2) run] raw(3) show ?thesis by blast
qed

section \<open>Properties\<close>



text \<open>
  Property C12. What the server answers depends on how the bytes arrive. A line that ends in a
  carriage return and a line feed is one line when both arrive together; when the line feed
  comes with the next read, it is a line of its own, and the client gets a second reply, that
  the command is invalid.
\<close>

theorem atm_conn_crlf_split:
  "\<exists>se w se' c' w' se1 c1 w1 se2 c2 w2. conn_in (se_conn se) = [] \<and> conn_out (se_conn se) = []
    \<and> atm_conn_task_read pend_read (\<lambda>_. True) 99 sess_proc (bytes_of ''get k'' @ [13, 10]) se (se_conn se) w
        = Inr (ATM_OK, [], se', c', w') \<and> conn_in c' = [] \<and> conn_out c' = [10]
    \<and> atm_conn_task_read pend_read (\<lambda>_. True) 99 sess_proc (bytes_of ''get k'' @ [13]) se (se_conn se) w
        = Inr (ATM_OK, [], se1, c1, w1)
    \<and> atm_conn_task_read pend_read (\<lambda>_. True) 99 sess_proc [10] (se1\<lparr>se_conn := c1\<rparr>) c1 w1
        = Inr (ATM_OK, [], se2, c2, w2) \<and> conn_in c2 = [] \<and> conn_out c2 = [10] @ bytes_of (''Invalid cmd'' @ [NL])"
proof -
  obtain se w where s: "sess_ready se w" "conn_in (se_conn se) = []" "conn_out (se_conn se) = []"
      "cache_abs w = (\<lambda>_. None)" "c_event (se_conn se) = Some (atm_event_new 1 5 True True)"
      "ev_active (atm_event_new 1 5 True True)"
    by (rule test_session_active [of "[]"]) (simp, rule that)
  have src: "sock_drains pend_read id" by (auto simp: sock_drains_def sock_source_def pend_read_def min_def)
  let ?t = "join [CHR '' ''] [''get'', ''k'']"
  have ws: "\<forall>t \<in> set [''get'', ''k'']. split_word CHR '' '' t \<and> (\<forall>c \<in> set t. line_char c)"
    by (simp add: split_word_def plain_def is_quote_def DQ_def SQ_def NUL_def line_char_def)
  have tb: "bytes_of ?t = bytes_of ''get k''" by simp
  have nl: "is_nl 13" "is_nl 10" by (simp_all add: is_nl_def)
  have ln: "has_line (bytes_of ''get k'' @ 13 # r)" "line_words (bytes_of ''get k'' @ 13 # r) = [''get'', ''k'']"
      "after_line (bytes_of ''get k'' @ 13 # r) = dropWhile is_nl r" for r
    using any_line [OF command_line(2) [OF ws] nl(1), of r] command_line(1) [OF ws] unfolding tb line_words_def by simp_all
  have sp: "cmd_spec [''get'', ''k''] Map.empty = (Map.empty, [])" by (simp add: cmd_spec_def)
  have first: "\<exists>se' c' w'. atm_conn_task_read pend_read (\<lambda>_. True) 99 sess_proc (bytes_of ''get k'' @ 13 # r) se (se_conn se) w
        = Inr (ATM_OK, [], se', c', w') \<and> sess_ready (se'\<lparr>se_conn := c'\<rparr>) w' \<and> conn_in c' = dropWhile is_nl r
      \<and> conn_out c' = [10] \<and> cache_abs w' = Map.empty \<and> c_event c' = Some (atm_event_new 1 5 True True)" if "length r < 2" for r
  proof -
    let ?s = "bytes_of ''get k'' @ 13 # r"
    have h: "id ?s \<noteq> []" "length (id ?s) < 99" "?s = conn_in (se_conn se) @ id ?s" "length ?s < 2 ^ 31 - 1"
        "has_line ?s \<longrightarrow> runnable (line_words ?s) w"
      using s(2) that unfolding ln(2) by (simp_all add: bytes_of_def runnable_def)
    from task_read_serves [where pend = id and s = ?s and rd = pend_read and eagain = "\<lambda>_. True", OF s(1,5,6) src h(1-5)] obtain s' se' c' w' where
        t: "atm_conn_task_read pend_read (\<lambda>_. True) 99 sess_proc ?s se (se_conn se) w = Inr (ATM_OK, s', se', c', w')"
        "id s' = []" "sess_ready (se'\<lparr>se_conn := c'\<rparr>) w'" "input_served se w c' w' ?s" "c_event c' = Some (atm_event_new 1 5 True True)"
      by (elim exE conjE) (rule that)
    have "conn_in c' = dropWhile is_nl r" "conn_out c' = [10]" "cache_abs w' = Map.empty"
      using t(4) unfolding input_served_def s(3,4) ln(2,3) sp if_P [OF ln(1)] by (simp_all add: bytes_of_def)
    with t show ?thesis by (intro exI [of _ se'] exI [of _ c'] exI [of _ w']) simp
  qed
  obtain se' c' w' where a: "atm_conn_task_read pend_read (\<lambda>_. True) 99 sess_proc (bytes_of ''get k'' @ [13, 10]) se (se_conn se) w
        = Inr (ATM_OK, [], se', c', w')" "conn_in c' = []" "conn_out c' = [10]"
    using first [of "[10]"] nl(2) by auto
  obtain se1 c1 w1 where b: "atm_conn_task_read pend_read (\<lambda>_. True) 99 sess_proc (bytes_of ''get k'' @ [13]) se (se_conn se) w
        = Inr (ATM_OK, [], se1, c1, w1)" "sess_ready (se1\<lparr>se_conn := c1\<rparr>) w1" "conn_in c1 = []" "conn_out c1 = [10]"
      "cache_abs w1 = Map.empty" "c_event c1 = Some (atm_event_new 1 5 True True)"
    using first [of "[]"] by auto
  let ?se = "se1\<lparr>se_conn := c1\<rparr>"
  have lw: "has_line [10]" "line_words [10] = []" "after_line [10] = []"
    using nl(2) by (simp_all add: has_line_def line_words_def line_of_def line_text_def after_line_def split_tokens_def split_init_def)
  have h: "c_event (se_conn ?se) = Some (atm_event_new 1 5 True True)" "id [10 :: u8] \<noteq> []" "length (id [10 :: u8]) < 99"
      "[10] = conn_in (se_conn ?se) @ id [10]" "length [10 :: u8] < 2 ^ 31 - 1" "has_line [10] \<longrightarrow> runnable (line_words [10]) w1"
    using b(3,6) unfolding lw(2) by (simp_all add: runnable_def)
  from task_read_serves [where pend = id and s = "[10]" and rd = pend_read and eagain = "\<lambda>_. True", OF b(2) h(1) s(6) src h(2-6)]
  obtain s2 se2 c2 w2 where
      t: "atm_conn_task_read pend_read (\<lambda>_. True) 99 sess_proc [10] ?se (se_conn ?se) w1 = Inr (ATM_OK, s2, se2, c2, w2)"
      "id s2 = []" "input_served ?se w1 c2 w2 [10]"
    by (elim exE conjE) (rule that)
  have sp2: "cmd_spec [] m = (m, ''Invalid cmd'')" for m by (simp add: cmd_spec_def)
  have c2: "conn_in c2 = []" "conn_out c2 = [10] @ bytes_of (''Invalid cmd'' @ [NL])"
    using t(3) unfolding input_served_def lw(2,3) if_P [OF lw(1)] sp2 b(5) by (simp_all add: b(4))
  have t2: "atm_conn_task_read pend_read (\<lambda>_. True) 99 sess_proc [10] ?se c1 w1 = Inr (ATM_OK, [], se2, c2, w2)"
    using t(1,2) by simp
  show ?thesis
    by (intro exI [of _ se] exI [of _ w] exI [of _ se'] exI [of _ c'] exI [of _ w'] exI [of _ se1] exI [of _ c1]
          exI [of _ w1] exI [of _ se2] exI [of _ c2] exI [of _ w2] conjI)
       (rule s(2,3) a b(1) t2 c2)+
qed

end
