(* ===== verification/Atm_Server_Runs.thy ===== *)
theory Atm_Server_Runs
  imports Atm_Request
begin

text \<open>
  Runs of the server that end in an access to freed memory. A run is composed of lemmas, one
  per input, on the facts about the connection at address 0 and its event at address 1 that
  decide what the next input does.
\<close>

section \<open>One connection\<close>

lemma app_upd:
  "cmds_ok (w\<lparr>w_tasks := ts\<rparr>) = cmds_ok w" "cmds_ok (w\<lparr>w_ctl := cs\<rparr>) = cmds_ok w"
  "cmds_ok (w\<lparr>w_pool := p\<rparr>) = cmds_ok w" "cmds_ok (w\<lparr>w_free := fl\<rparr>) = cmds_ok w" "cmds_ok (w\<lparr>w_ops := os\<rparr>) = cmds_ok w"
  "cache_ok (w\<lparr>w_tasks := ts\<rparr>) = cache_ok w" "cache_ok (w\<lparr>w_ctl := cs\<rparr>) = cache_ok w"
  "cache_ok (w\<lparr>w_pool := p\<rparr>) = cache_ok w" "cache_ok (w\<lparr>w_free := fl\<rparr>) = cache_ok w" "cache_ok (w\<lparr>w_ops := os\<rparr>) = cache_ok w"
  by (rule app_cong; simp)+

lemmas ready_defs = sess_ready_def sess_idle_def wf_conn_def app_upd conn_in_def

text \<open>
  Active, reading, writing; the tasks, the list of connections to be freed and the events of
  the operations that are on their way. Nothing is in the buffer for reading.
\<close>

definition adds :: "event_op list \<Rightarrow> addr option list" where
  "adds ops = map (\<lambda>op. if eo_op_type op = ATM_EVENT_OP_ADD then Some (eo_e op) else None) ops"

definition conn_at :: "srv \<Rightarrow> bool \<Rightarrow> bool \<Rightarrow> bool \<Rightarrow> atm_task list \<Rightarrow> addr list \<Rightarrow> addr list \<Rightarrow> bool" where
  "conn_at s act r w ts fl os \<longleftrightarrow> (\<exists>se e. sv_conns s 0 = Some se \<and> sv_evs s 1 = Some 0 \<and> sess_ready se (sv_w s)
     \<and> conn_in (se_conn se) = [] \<and> c_addr (se_conn se) = 0 \<and> c_event (se_conn se) = Some e \<and> ev_addr e = 1
     \<and> ev_handle_read e \<and> ev_handle_write e \<and> ev_fd e \<noteq> -1 \<and> ev_active e = act
     \<and> c_on_read (se_conn se) = r \<and> c_on_write (se_conn se) = w
     \<and> w_tasks (sv_w s) = ts \<and> wf_list (w_free (sv_w s)) \<and> list_vals (w_free (sv_w s)) = fl
     \<and> adds (w_ops (sv_w s)) = map Some os)"

abbreviation "task_R \<equiv> atm_task_new (Some 0) Task_read"
abbreviation "task_W \<equiv> atm_task_new (Some 0) Task_write"
abbreviation "task_F \<equiv> atm_task_new None Task_free"

lemma event_masks_test:
  "EPOLLIN AND (EPOLLERR OR EPOLLHUP) = 0" "EPOLLIN AND EPOLLIN \<noteq> 0" "EPOLLIN AND EPOLLOUT = 0"
  "EPOLLHUP AND (EPOLLERR OR EPOLLHUP) \<noteq> 0" "(EPOLLHUP OR (EPOLLIN OR EPOLLOUT)) AND EPOLLIN \<noteq> 0"
  "(EPOLLHUP OR (EPOLLIN OR EPOLLOUT)) AND EPOLLOUT \<noteq> 0" "EPOLLIN \<noteq> 0" "EPOLLHUP \<noteq> 0"
  by (simp_all add: event_masks)

lemma del_event_keeps:
  assumes "atm_event_del_event e m = (e', calls)"
  shows "ev_active e' = ev_active e" "ev_handle_read e' = ev_handle_read e" "ev_handle_write e' = ev_handle_write e"
    "ev_fd e' = ev_fd e" "ev_addr e' = ev_addr e"
  using assms by (auto simp: atm_event_del_event_def Let_def split: if_splits)

lemma at_event:
  assumes "conn_at s act r w ts fl os"
  shows "\<exists>e. srv_event 1 s = Inr e \<and> ev_handle_read e \<and> ev_handle_write e \<and> ev_active e = act \<and> ev_fd e \<noteq> -1"
  using assms by (auto simp: conn_at_def srv_event_def get_ev_def get_sess_def conn_event_def)

lemma at_handle_read:
  assumes "conn_at s True r w ts fl os"
  shows "\<exists>s'. srv_handle_read 1 s = Inr s' \<and> conn_at s' True True w (ts @ [task_R]) fl os
    \<and> w_cache (sv_w s') = w_cache (sv_w s) \<and> w_seed (sv_w s') = w_seed (sv_w s)"
proof -
  from assms obtain se e where a: "sv_conns s 0 = Some se" "sv_evs s 1 = Some 0" "c_addr (se_conn se) = 0"
      "c_event (se_conn se) = Some e" "ev_active e" by (auto simp: conn_at_def)
  obtain e' calls where d: "atm_event_del_event e ATM_EVENT_READ = (e', calls)"
    by (cases "atm_event_del_event e ATM_EVENT_READ")
  show ?thesis using assms a d del_event_keeps [OF d]
    by (auto simp: conn_at_def srv_handle_read_def get_ev_def with_conn_def get_sess_def atm_conn_handle_read_def
        conn_task_def conn_event_def put_sess_def atm_task_dispatch_def log_ctl_def ready_defs)
qed

lemma at_handle_write:
  assumes "conn_at s True r w ts fl os"
  shows "\<exists>s'. srv_handle_write 1 s = Inr s' \<and> conn_at s' True r True (ts @ [task_W]) fl os"
proof -
  from assms obtain se e where a: "sv_conns s 0 = Some se" "sv_evs s 1 = Some 0" "c_addr (se_conn se) = 0"
      "c_event (se_conn se) = Some e" "ev_active e" by (auto simp: conn_at_def)
  obtain e' calls where d: "atm_event_del_event e ATM_EVENT_WRITE = (e', calls)"
    by (cases "atm_event_del_event e ATM_EVENT_WRITE")
  show ?thesis using assms a d del_event_keeps [OF d]
    by (auto simp: conn_at_def srv_handle_write_def get_ev_def with_conn_def get_sess_def atm_conn_handle_write_def
        conn_task_def conn_event_def put_sess_def atm_task_dispatch_def log_ctl_def ready_defs)
qed

lemma at_in:
  assumes "conn_at s True r w ts fl os"
  shows "\<exists>s'. srv_do (In_events [(1, EPOLLIN)]) s = Inr s' \<and> conn_at s' True True w (ts @ [task_R]) fl os
    \<and> w_cache (sv_w s') = w_cache (sv_w s) \<and> w_seed (sv_w s') = w_seed (sv_w s)"
  using at_event [OF assms] at_handle_read [OF assms]
  by (auto simp: atm_event_routine_def atm_event_process_events_def atm_event_process_ev_def Let_def event_masks_test)

lemma at_out:
  assumes "conn_at s True r w ts fl os"
  shows "\<exists>s'. srv_do (In_events [(1, EPOLLOUT)]) s = Inr s' \<and> conn_at s' True r True (ts @ [task_W]) fl os"
  using at_event [OF assms] at_handle_write [OF assms]
  by (auto simp: atm_event_routine_def atm_event_process_events_def atm_event_process_ev_def Let_def event_masks)

lemma at_hup:
  assumes "conn_at s True r w ts fl os"
  shows "\<exists>s'. srv_do (In_events [(1, EPOLLHUP)]) s = Inr s' \<and> conn_at s' True True True (ts @ [task_R, task_W]) fl os"
proof -
  obtain s1 where s1: "srv_handle_read 1 s = Inr s1" "conn_at s1 True True w (ts @ [task_R]) fl os"
    using at_handle_read [OF assms] by blast
  obtain s2 where s2: "srv_handle_write 1 s1 = Inr s2" "conn_at s2 True True True (ts @ [task_R, task_W]) fl os"
    using at_handle_write [OF s1(2)] by auto
  show ?thesis using at_event [OF assms] at_event [OF s1(2)] s1(1) s2
    by (auto simp: atm_event_routine_def atm_event_process_events_def atm_event_process_ev_def Let_def event_masks_test)
qed

section \<open>Tasks on the connection\<close>

text \<open>A call of \<^verbatim>\<open>read\<close> that gives nothing.\<close>

lemma read_none:
  assumes "wf_buf st" "\<And>m. rd s m = (r, [], s)" "r \<le> 0"
  shows "\<exists>st'. atm_buf_read_sock rd (Suc n) s st = Inr (r, s, st') \<and> wf_buf st' \<and> buf_stream st' = buf_stream st"
proof -
  obtain a b ps st' where st': "atm_buf_get_wblk st = Inr (a, st')" "wf_buf st'" "buf_stream st' = buf_stream st"
      "list_rep (buf_blks (fst st')) (ps @ [(a, b)])"
    using atm_buf_get_wblk_ok [OF assms(1)] by blast
  have "blk_get st' a = Inr b" using blk_get_rep [of st' ps a b "[]"] st'(4) by simp
  with st' assms(2,3) show ?thesis by (simp add: atm_buf_read_sock_def)
qed

lemma conn_read_none:
  fixes w :: "'w world_scheme"
  assumes "wf_conn c w" "\<And>m. rd s m = (r, [], s)" "r \<le> 0"
  shows "\<exists>b p. atm_conn_task_read_raw rd (Suc n) s c w = Inr (r, s, c\<lparr>c_r_buf := b\<rparr>, w\<lparr>w_pool := p\<rparr>)
    \<and> wf_conn (c\<lparr>c_r_buf := b\<rparr>) (w\<lparr>w_pool := p\<rparr>) \<and> conn_in (c\<lparr>c_r_buf := b\<rparr>) = conn_in c"
proof -
  have wf: "wf_buf (c_r_buf c, w_pool w)" using assms(1) by (simp add: wf_conn_def)
  obtain st where st: "atm_buf_read_sock rd (Suc n) s (c_r_buf c, w_pool w) = Inr (r, s, st)" "wf_buf st"
      "buf_stream st = buf_stream (c_r_buf c, w_pool w)"
    using read_none [where rd = rd and n = n, OF wf assms(2,3)] by blast
  obtain b p where "st = (b, p)" by (cases st)
  note bp = st [unfolded this]
  have "wf_buf (c_w_buf c, p)"
    using assms(1) wf_buf_pool [of "c_w_buf c" "w_pool w" p] wf_buf_poolD [OF bp(2)] by (simp add: wf_conn_def)
  moreover have "buf_stream (b, None) = conn_in c"
    using bp(3) by (simp add: conn_in_def buf_stream_pool [of _ p] buf_stream_pool [of _ "w_pool w"])
  ultimately show ?thesis using bp by (auto simp: atm_conn_task_read_raw_def wf_conn_def conn_in_def)
qed

lemma at_read_eof:
  assumes at: "conn_at s True r w ts fl os" and i: "i < length ts" "ts ! i = task_R"
  shows "\<exists>s'. srv_do (In_task i [[]] [] False) s = Inr s'
    \<and> conn_at s' False False w (take i ts @ drop (Suc i) ts @ [task_F]) (fl @ [0]) os"
proof -
  from at obtain se e where a: "sv_conns s 0 = Some se" "sv_evs s 1 = Some 0" "sess_ready se (sv_w s)" "c_addr (se_conn se) = 0"
      "conn_in (se_conn se) = []" "c_event (se_conn se) = Some e" "ev_handle_read e" "ev_handle_write e" "ev_fd e \<noteq> -1"
      "ev_active e" "c_on_write (se_conn se) = w" "w_tasks (sv_w s) = ts" "wf_list (w_free (sv_w s))" "list_vals (w_free (sv_w s)) = fl"
      "ev_addr e = 1" "adds (w_ops (sv_w s)) = map Some os"
    by (auto simp: conn_at_def)
  let ?w = "(sv_w s)\<lparr>w_tasks := take i ts @ drop (Suc i) ts\<rparr>" and ?c = "se_conn se"
  have "wf_conn ?c ?w" using a(3) by (simp add: ready_defs)
  from conn_read_none [where rd = script_read and s = "[[]]" and r = 0 and n = 0, OF this] obtain b p where raw:
      "atm_conn_task_read_raw script_read (Suc 0) [[]] ?c ?w = Inr (0, [[]], ?c\<lparr>c_r_buf := b\<rparr>, ?w\<lparr>w_pool := p\<rparr>)"
      "wf_conn (?c\<lparr>c_r_buf := b\<rparr>) (?w\<lparr>w_pool := p\<rparr>)" "conn_in (?c\<lparr>c_r_buf := b\<rparr>) = []"
    using a(5) by auto
  obtain l where l: "atm_list_push (w_free (sv_w s)) 0 = Inr l" "wf_list l" "list_vals l = fl @ [0]"
    using ld.push_law [OF a(13), of 0] a(14) by auto
  let ?c' = "?c\<lparr>c_r_buf := b, c_event := Some (atm_event_inactive e), c_on_read := False\<rparr>"
  let ?w' = "?w\<lparr>w_pool := p, w_tasks := take i ts @ drop (Suc i) ts @ [task_F], w_free := l\<rparr>"
  have "atm_conn_task_read script_read (\<lambda>_. False) (Suc 0) sess_proc [[]] se ?c ?w = Inr (ATM_ERROR, [[]], se, ?c', ?w')"
    using raw(1) a(4,6,10) l(1)
    by (simp add: atm_conn_task_read_def task_read_proc_def conn_event_def atm_conn_inactive_def Let_def clear_flag_def
        atm_conn_free_enqueue_def atm_conn_free_notify_def atm_task_dispatch_def del: script_read.simps)
  then have "srv_do (In_task i [[]] [] False) s = Inr (put_sess 0 (se\<lparr>se_conn := ?c'\<rparr>) ?w' (s\<lparr>sv_w := ?w\<rparr>))"
    using a(1,12) i by (simp add: run_task_def atm_task_new_def get_sess_def Let_def del: script_read.simps)
  moreover have "conn_at (put_sess 0 (se\<lparr>se_conn := ?c'\<rparr>) ?w' (s\<lparr>sv_w := ?w\<rparr>)) False False w
      (take i ts @ drop (Suc i) ts @ [task_F]) (fl @ [0]) os"
    using a raw(2,3) l by (simp add: conn_at_def put_sess_def ready_defs atm_event_inactive_def)
  ultimately show ?thesis by blast
qed

text \<open>A read task that finds nothing to read, or nothing yet.\<close>

lemma at_read_again:
  assumes at: "conn_at s True r w ts fl os" and i: "i < length ts" "ts ! i = task_R"
  shows "\<exists>s'. srv_do (In_task i [] [] True) s = Inr s'
    \<and> conn_at s' True False w (take i ts @ drop (Suc i) ts) fl (os @ [1])"
proof -
  from at obtain se e where a: "sv_conns s 0 = Some se" "sv_evs s 1 = Some 0" "sess_ready se (sv_w s)" "c_addr (se_conn se) = 0"
      "conn_in (se_conn se) = []" "c_event (se_conn se) = Some e" "ev_handle_read e" "ev_handle_write e" "ev_fd e \<noteq> -1"
      "ev_active e" "c_on_write (se_conn se) = w" "w_tasks (sv_w s) = ts" "wf_list (w_free (sv_w s))" "list_vals (w_free (sv_w s)) = fl"
      "ev_addr e = 1" "adds (w_ops (sv_w s)) = map Some os"
    by (auto simp: conn_at_def)
  let ?w = "(sv_w s)\<lparr>w_tasks := take i ts @ drop (Suc i) ts\<rparr>" and ?c = "se_conn se"
  have "wf_conn ?c ?w" using a(3) by (simp add: ready_defs)
  from conn_read_none [where rd = script_read and s = "[]" and r = "-1" and n = 0, OF this] obtain b p where raw:
      "atm_conn_task_read_raw script_read (Suc 0) [] ?c ?w = Inr (-1, [], ?c\<lparr>c_r_buf := b\<rparr>, ?w\<lparr>w_pool := p\<rparr>)"
      "wf_conn (?c\<lparr>c_r_buf := b\<rparr>) (?w\<lparr>w_pool := p\<rparr>)" "conn_in (?c\<lparr>c_r_buf := b\<rparr>) = []"
    using a(5) by auto
  let ?c1 = "?c\<lparr>c_r_buf := b\<rparr>" and ?w1 = "?w\<lparr>w_pool := p\<rparr>"
  let ?se = "se\<lparr>se_conn := ?c1, se_state := Sess_parsing, se_continue := False\<rparr>"
  have "sess_ready (se\<lparr>se_conn := ?c1\<rparr>) ?w1" using a(3) raw(2) by (simp add: ready_defs)
  from process_waits [OF this] raw(3) have "sess_proc se ?c1 ?w1 = Inr (ATM_OK, ?se, ?c1, ?w1)"
    by (simp add: sess_proc_def has_line_def)
  then have "task_read_proc script_read (\<lambda>_. True) (Suc 0) sess_proc [] se ?c ?w = Inr (True, [], ?se, ?c1, ?w1)"
    using raw(1) a(6,10) by (simp add: task_read_proc_def conn_event_def ATM_OK_def ATM_ERROR_def)
  from task_read_end [OF this, of e] a(6,10) have "atm_conn_task_read script_read (\<lambda>_. True) (Suc 0) sess_proc [] se ?c ?w
      = Inr (ATM_OK, [], ?se, ?c1\<lparr>c_on_read := False\<rparr>, add_notify e ATM_EVENT_READ ?w1)" by simp
  then have "srv_do (In_task i [] [] True) s = Inr (put_sess 0 (?se\<lparr>se_conn := ?c1\<lparr>c_on_read := False\<rparr>\<rparr>)
      (add_notify e ATM_EVENT_READ ?w1) (s\<lparr>sv_w := ?w\<rparr>))"
    using a(1,12) i by (simp add: run_task_def atm_task_new_def get_sess_def Let_def del: script_read.simps)
  moreover have "conn_at (put_sess 0 (?se\<lparr>se_conn := ?c1\<lparr>c_on_read := False\<rparr>\<rparr>) (add_notify e ATM_EVENT_READ ?w1)
      (s\<lparr>sv_w := ?w\<rparr>)) True False w (take i ts @ drop (Suc i) ts) fl (os @ [1])"
    using a raw(2,3) by (simp add: conn_at_def put_sess_def add_notify_def atm_event_op_new_def adds_def ready_defs)
  ultimately show ?thesis by blast
qed

lemma at_write_inactive:
  assumes at: "conn_at s False r w ts fl os" and i: "i < length ts" "ts ! i = task_W"
  shows "\<exists>s'. srv_do (In_task i [] [] False) s = Inr s'
    \<and> conn_at s' False r False (take i ts @ drop (Suc i) ts @ [task_F]) fl os"
proof -
  from at obtain se e where a: "sv_conns s 0 = Some se" "c_event (se_conn se) = Some e" "\<not> ev_active e"
      "w_tasks (sv_w s) = ts"
    by (auto simp: conn_at_def)
  let ?w = "(sv_w s)\<lparr>w_tasks := take i ts @ drop (Suc i) ts\<rparr>" and ?c = "se_conn se"
  let ?c' = "?c\<lparr>c_on_write := False\<rparr>" and ?w' = "?w\<lparr>w_tasks := take i ts @ drop (Suc i) ts @ [task_F]\<rparr>"
  have "atm_conn_task_write script_write (\<lambda>_. False) (Suc (length (conn_out ?c))) ([], []) ?c ?w = Inr (ATM_OK, ([], []), ?c', ?w')"
    using a by (simp add: atm_conn_task_write_def conn_event_def atm_conn_free_check_def clear_flag_def
        atm_conn_free_notify_def atm_task_dispatch_def)
  then have "srv_do (In_task i [] [] False) s = Inr (put_sess 0 (se\<lparr>se_conn := ?c'\<rparr>) ?w' (s\<lparr>sv_w := ?w\<rparr>))"
    using a i by (simp add: run_task_def atm_task_new_def with_conn_def get_sess_def Let_def put_sess_def)
  moreover have "conn_at (put_sess 0 (se\<lparr>se_conn := ?c'\<rparr>) ?w' (s\<lparr>sv_w := ?w\<rparr>)) False r False
      (take i ts @ drop (Suc i) ts @ [task_F]) fl os"
    using at a by (auto simp: conn_at_def put_sess_def ready_defs)
  ultimately show ?thesis by blast
qed

lemma free_blks_ok: "wf_pool p \<Longrightarrow> \<forall>b \<in> set bs. wf_blk b \<Longrightarrow> \<exists>p'. free_blks bs p = Inr p' \<and> wf_pool p'"
proof (induction bs arbitrary: p)
  case (Cons b bs)
  obtain p1 where "atm_blk_free (Some b) p = Inr p1" "wf_pool p1"
    using atm_blk_free_pool [of p b] Cons.prems by auto
  with Cons show ?case by auto
qed simp

lemma buf_free_ok:
  assumes "wf_buf (b, p)"
  shows "\<exists>p'. atm_buf_free (Some b) p = Inr p' \<and> wf_pool p'"
proof -
  have l: "wf_list (buf_blks b)" "list_type (buf_blks b) = (ATM_FREE_DEEP, Some ATM_BLK_T)" "wf_pool p"
      "\<forall>x \<in> set (list_vals (buf_blks b)). wf_blk x"
    using assms by (simp_all add: wf_buf_def wf_blks_def buf_vals_def)
  have "list_frees (buf_blks b)" using l(2) by (simp add: list_frees_def list_type_def ATM_BLK_T_def)
  from atm_list_clear_vals [OF l(1) this] free_blks_ok [OF l(3,4)] l(2) show ?thesis
    by (auto simp: atm_buf_free_def atm_list_free_def list_type_def)
qed

lemma at_free:
  assumes at: "conn_at s False False False ts [0] os" and i: "i < length ts" "ts ! i = task_F"
  shows "\<exists>s'. srv_do (In_task i [] [] False) s = Inr s' \<and> sv_conns s' 0 = None \<and> sv_evs s' 1 = None
    \<and> w_tasks (sv_w s') = take i ts @ drop (Suc i) ts \<and> adds (w_ops (sv_w s')) = map Some os"
proof -
  from at obtain se e where a: "sv_conns s 0 = Some se" "sv_evs s 1 = Some 0" "se_argv se = None"
      "wf_conn (se_conn se) (sv_w s)" "\<not> c_on_read (se_conn se)" "\<not> c_on_write (se_conn se)"
      "w_tasks (sv_w s) = ts" "wf_list (w_free (sv_w s))" "list_vals (w_free (sv_w s)) = [0]"
      "adds (w_ops (sv_w s)) = map Some os"
    by (auto simp: conn_at_def sess_ready_def sess_idle_def)
  let ?w = "(sv_w s)\<lparr>w_tasks := take i ts @ drop (Suc i) ts\<rparr>" and ?c = "se_conn se"
  let ?s = "s\<lparr>sv_w := ?w\<rparr>" and ?l = "w_free (sv_w s)"
  have "wf_buf (c_r_buf ?c, w_pool ?w)" using a(4) by (simp add: wf_conn_def)
  from buf_free_ok [OF this] obtain p1 where p1: "atm_buf_free (Some (c_r_buf ?c)) (w_pool (sv_w s)) = Inr p1" "wf_pool p1" by auto
  have "wf_buf (c_w_buf ?c, p1)" using a(4) wf_buf_pool p1(2) by (auto simp: wf_conn_def)
  from buf_free_ok [OF this] obtain p2 where p2: "atm_buf_free (Some (c_w_buf ?c)) p1 = Inr p2" by auto
  obtain cl w2 where fr: "atm_sess_free (Some se) ?w = Inr (cl, w2)" "w_tasks w2 = take i ts @ drop (Suc i) ts"
      "adds (w_ops w2) = map Some os"
    using a(3,10) p1(1) p2 by (simp add: atm_sess_free_def atm_conn_free_def log_ctl_def atm_socket_free_def Let_def)
  obtain s1 where s1: "sess_drop 0 ?s = Inr s1" "sv_conns s1 0 = None" "sv_evs s1 1 = None" "sv_w s1 = w2"
    using a(1,2) fr(1) by (simp add: sess_drop_def get_sess_def)
  obtain l1 where l1: "atm_list_lpop ?l = Inr (Some 0, l1)" "wf_list l1" "list_vals l1 = []"
    using ld.lpop_law [OF a(8,9)] by auto
  obtain ps where "list_rep ?l ps" "[0] = map snd ps" using wf_list_rep [OF a(8)] a(9) by auto
  then have "length ps = 1" "length ps \<le> l_brk ?l" using list_rep_length by (metis length_map length_Cons list.size(3) One_nat_def)+
  then obtain n where n: "l_brk ?l = Suc n" by (cases "l_brk ?l") auto
  have "atm_conn_free_func sess_busy sess_drop ?l ?s = Inr (l1, s1)"
    using ld.lpeek_law [OF a(8)] ld.lpeek_law [OF l1(2)] a(1,5,6,9) l1 s1(1)
    by (simp add: atm_conn_free_func_def n sess_busy_def get_sess_def)
  then have "srv_do (In_task i [] [] False) s = Inr (s1\<lparr>sv_w := (sv_w s1)\<lparr>w_free := l1\<rparr>\<rparr>)"
    using a(7) i by (simp add: run_task_def atm_task_new_def Let_def)
  with s1 fr(2,3) show ?thesis by simp
qed

lemma at_gone:
  assumes "sv_conns s 0 = None" "i < length (w_tasks (sv_w s))" "w_tasks (sv_w s) ! i = task_R"
  shows "srv_do (In_task i rs ws ea) s = Inl Bad_access"
  using assms by (simp add: run_task_def atm_task_new_def get_sess_def Let_def)

text \<open>The engine takes the operation out of its pipe and registers the event.\<close>

lemma at_op:
  assumes at: "conn_at s act r w ts fl (1 # os)"
  shows "\<exists>s'. srv_do In_op s = Inr s' \<and> conn_at s' act r w ts fl os"
proof -
  from at obtain se e where a: "sv_conns s 0 = Some se" "sv_evs s 1 = Some 0" "c_event (se_conn se) = Some e"
      "adds (w_ops (sv_w s)) = Some 1 # map Some os" by (auto simp: conn_at_def)
  from a(4) obtain op ops where op: "w_ops (sv_w s) = op # ops" "eo_e op = 1" "eo_op_type op = ATM_EVENT_OP_ADD"
      "adds ops = map Some os" by (auto simp: adds_def split: if_splits)
  obtain e' calls where ad: "atm_event_add_event e (eo_mask op) = (e', calls)" by (cases "atm_event_add_event e (eo_mask op)")
  then have e': "ev_active e' = ev_active e" "ev_handle_read e' = ev_handle_read e" "ev_handle_write e' = ev_handle_write e"
      "ev_fd e' = ev_fd e" "ev_addr e' = ev_addr e"
    by (auto simp: atm_event_add_event_def Let_def split: if_splits)
  show ?thesis using at a op ad e'
    by (auto simp: conn_at_def srv_op_def atm_event_notify_handle_def get_ev_def with_conn_def get_sess_def upd_event_def
        conn_event_def put_sess_def log_ctl_def ready_defs)
qed

section \<open>The run\<close>

lemma cache_new_ok:
  assumes "w_cache w = atm_dict_new ATM_OBJ_T (Some ATM_OBJ_T) ATM_FREE_DEEP"
  shows "cache_ok w" "cache_abs w = (\<lambda>_. None)" "cache_room w t"
proof -
  have m: "cache_map w = (\<lambda>_. None)" by (simp add: fun_eq_iff cache_map_def dict_map_def assms new_cache_find)
  show "cache_ok w" using obk.dict_store_new [where vt = "Some ATM_OBJ_T :: atm_str atm_obj atm_T option"]
    by (simp add: cache_ok_def m) (simp add: assms)
  show "cache_abs w = (\<lambda>_. None)" by (simp add: fun_eq_iff cache_abs_def m)
  show "cache_room w t" using new_cache_find by (simp add: cache_room_def assms dict_fresh_def atm_dict_new_def)
qed

text \<open>The application state of a process that is set up, with an empty cache.\<close>

definition ready_app :: app where
  "ready_app = (case atm_cmd_init test_app of Inl _ \<Rightarrow> test_app | Inr w \<Rightarrow> w)"

lemma ready_app_ok:
  "cmds_ok ready_app" "cache_ok ready_app" "w_pool ready_app = atm_blk_init" "w_tasks ready_app = []" "w_ops ready_app = []"
  "cache_room ready_app t"
proof -
  obtain d w where "atm_cmd_init test_app = Inr w" "cmds_ok w" "w = test_app\<lparr>w_cmds := d\<rparr>"
    using atm_cmd_init_ok [of test_app] by blast
  then have r: "cmds_ok ready_app" "ready_app = test_app\<lparr>w_cmds := d\<rparr>" by (simp_all add: ready_app_def)
  show "cmds_ok ready_app" by (rule r(1))
  show "cache_ok ready_app" by (rule cache_new_ok(1)) (simp add: r(2) test_app_def)
  show "cache_room ready_app t" by (rule cache_new_ok(3)) (simp add: r(2) test_app_def)
  show "w_pool ready_app = atm_blk_init" "w_tasks ready_app = []" "w_ops ready_app = []" by (simp_all add: r(2) test_app_def)
qed

definition srv_test :: srv where
  "srv_test = add_conn test_sock (srv_new ready_app)"

lemma accept_one: "srv_do (In_accept [cs]) s = Inr (add_conn cs s)"
proof -
  have n: "ATM_CONN_PERCALL_ACCEPTS = Suc (Suc 1022)" by (simp add: ATM_CONN_PERCALL_ACCEPTS_def)
  show ?thesis
    by (simp only: srv_do.simps atm_conn_handle_accept_def n accept_loop.simps script_accept.simps prod.case
        option.case snd_conv)
qed

lemma srv_test_accept: "srv_do (In_accept [test_sock]) (srv_new ready_app) = Inr srv_test"
  unfolding srv_test_def by (rule accept_one)

lemma new_conn_at:
  assumes w: "cmds_ok w" "cache_ok w" "wf_pool (w_pool w)" "w_tasks w = []" "w_ops w = []" and fd: "so_fd cs \<noteq> -1"
  shows "conn_at (add_conn cs (srv_new w)) True False False [] [] []"
proof -
  let ?m = "EPOLLIN OR EPOLLHUP OR EPOLLET"
  obtain e calls where ev: "atm_event_add_event (atm_event_new 1 (so_fd cs) True True) ?m = (e, calls)"
    by (cases "atm_event_add_event (atm_event_new 1 (so_fd cs) True True) ?m")
  then have e: "ev_active e" "ev_handle_read e" "ev_handle_write e" "ev_fd e = so_fd cs" "ev_addr e = 1"
    by (auto simp: atm_event_add_event_def atm_event_new_def Let_def split: if_splits)
  show ?thesis using e ev w fd
    by (simp add: conn_at_def srv_new_def add_conn_def accept_conn_def atm_event_add_conn_def
        atm_sess_new_def atm_conn_new_def log_ctl_def adds_def ready_defs Let_def)
qed

lemma srv_test_at: "conn_at srv_test True False False [] [] []"
  unfolding srv_test_def by (rule new_conn_at) (simp_all add: ready_app_ok test_sock_def)

text \<open>
  Property C7. Whatever clients, the kernel and the workers do, in every state that the server
  reaches without a fault the list of connections to be freed holds no connection twice, and it
  holds exactly the allocated connections that were deactivated: no connection is freed twice
  and none is forgotten.
\<close>

theorem srv_free_list_sound:
  assumes "srv_step\<^sup>*\<^sup>* (srv_new w) s"
  shows "distinct (list_vals (w_free (sv_w s)))
    \<and> (\<forall>a. a \<in> set (list_vals (w_free (sv_w s))) \<longleftrightarrow>
         (\<exists>se e. sv_conns s a = Some se \<and> c_event (se_conn se) = Some e \<and> \<not> ev_active e))"
proof -
  let ?fl = "list_vals (w_free (sv_w s))"
  have q: "queued ?fl s" using srv_reach_inv [OF assms] by (simp add: srv_inv_def)
  have "a \<in> set ?fl \<longleftrightarrow> (\<exists>se e. sv_conns s a = Some se \<and> c_event (se_conn se) = Some e \<and> \<not> ev_active e)" for a
  proof (cases "sv_conns s a")
    case None
    then show ?thesis using q by (auto simp: queued_def)
  next
    case (Some se)
    from queuedD(3) [OF q this] Some show ?thesis by auto
  qed
  then show ?thesis using q by (simp add: queued_def)
qed

theorem srv_free_list_sound_witness:
  "\<exists>s :: srv. distinct (list_vals (w_free (sv_w s))) \<and> sv_conns s 0 \<noteq> None \<and> 0 \<notin> set (list_vals (w_free (sv_w s)))"
proof -
  have "srv_run [In_accept [test_sock]] (srv_new ready_app) = Inr srv_test"
    by (simp only: srv_run.simps srv_test_accept res_bind_simps)
  note st = srv_free_list_sound [OF srv_run_steps [OF this]]
  from srv_test_at obtain se e where se: "sv_conns srv_test 0 = Some se" "c_event (se_conn se) = Some e" "ev_active e"
    by (auto simp: conn_at_def)
  have "0 \<notin> set (list_vals (w_free (sv_w srv_test)))"
    using spec [OF conjunct2 [OF st], of 0] se by simp
  with conjunct1 [OF st] se(1) show ?thesis by (intro exI [of _ srv_test]) simp
qed

text \<open>
  Property C8. A client that sends something and closes the connection at once can make the
  server use freed memory: epoll reports the hangup while the read task is on its way, although
  reading was taken out of the mask, and the handler dispatches a second read task. The first
  read task sees the end of the input and queues the connection, the write task clears the
  other flag, the free task frees the connection because a flag counts no tasks, and the second
  read task then uses it.
\<close>

theorem srv_hup_use_after_free:
  "\<exists>s. srv_step\<^sup>*\<^sup>* (srv_new ready_app) s \<and> w_tasks (sv_w s) \<noteq> []
    \<and> srv_run [In_accept [test_sock], In_events [(1, EPOLLIN)], In_events [(1, EPOLLHUP)],
         In_task 0 [[]] [] False, In_task 1 [] [] False, In_task 1 [] [] False] (srv_new ready_app) = Inr s
    \<and> srv_do (In_task 0 [[]] [] False) s = Inl Bad_access"
proof -
  obtain s2 where s2: "srv_do (In_events [(1, EPOLLIN)]) srv_test = Inr s2" "conn_at s2 True True False [task_R] [] []"
    using at_in [OF srv_test_at] by auto
  obtain s3 where s3: "srv_do (In_events [(1, EPOLLHUP)]) s2 = Inr s3" "conn_at s3 True True True [task_R, task_R, task_W] [] []"
    using at_hup [OF s2(2)] by auto
  obtain s4 where s4: "srv_do (In_task 0 [[]] [] False) s3 = Inr s4" "conn_at s4 False False True [task_R, task_W, task_F] [0] []"
    using at_read_eof [OF s3(2), of 0] by auto
  obtain s5 where s5: "srv_do (In_task 1 [] [] False) s4 = Inr s5" "conn_at s5 False False False [task_R, task_F, task_F] [0] []"
    using at_write_inactive [OF s4(2), of 1] by auto
  obtain s6 where s6: "srv_do (In_task 1 [] [] False) s5 = Inr s6" "sv_conns s6 0 = None" "w_tasks (sv_w s6) = [task_R, task_F]"
    using at_free [OF s5(2), of 1] by auto
  have run: "srv_run [In_accept [test_sock], In_events [(1, EPOLLIN)], In_events [(1, EPOLLHUP)],
      In_task 0 [[]] [] False, In_task 1 [] [] False, In_task 1 [] [] False] (srv_new ready_app) = Inr s6"
    by (simp only: srv_run.simps srv_test_accept s2(1) s3(1) s4(1) s5(1) s6(1) res_bind_simps)
  have "srv_do (In_task 0 [[]] [] False) s6 = Inl Bad_access"
    by (rule at_gone) (use s6 in simp_all)
  with run srv_run_steps [OF run] s6(3) show ?thesis by auto
qed

text \<open>
  Property C9. One task of each kind is enough to use freed memory: the operation that
  registers the event for reading again is still in the pipe when the client hangs up. The
  hangup dispatches a read task and a write task, the first deactivates the connection, the
  free task frees it with its event, and the engine then takes the operation out of the pipe
  and uses the event.
\<close>

theorem srv_op_use_after_free:
  "\<exists>s. srv_step\<^sup>*\<^sup>* (srv_new ready_app) s \<and> w_ops (sv_w s) \<noteq> []
    \<and> srv_run [In_accept [test_sock], In_events [(1, EPOLLIN)], In_task 0 [] [] True, In_events [(1, EPOLLHUP)],
         In_task 0 [[]] [] False, In_task 0 [] [] False, In_task 0 [] [] False] (srv_new ready_app) = Inr s
    \<and> srv_do In_op s = Inl Bad_access"
proof -
  obtain s2 where s2: "srv_do (In_events [(1, EPOLLIN)]) srv_test = Inr s2" "conn_at s2 True True False [task_R] [] []"
    using at_in [OF srv_test_at] by auto
  obtain s3 where s3: "srv_do (In_task 0 [] [] True) s2 = Inr s3" "conn_at s3 True False False [] [] [1]"
    using at_read_again [OF s2(2), of 0] by auto
  obtain s4 where s4: "srv_do (In_events [(1, EPOLLHUP)]) s3 = Inr s4" "conn_at s4 True True True [task_R, task_W] [] [1]"
    using at_hup [OF s3(2)] by auto
  obtain s5 where s5: "srv_do (In_task 0 [[]] [] False) s4 = Inr s5" "conn_at s5 False False True [task_W, task_F] [0] [1]"
    using at_read_eof [OF s4(2), of 0] by auto
  obtain s6 where s6: "srv_do (In_task 0 [] [] False) s5 = Inr s6" "conn_at s6 False False False [task_F, task_F] [0] [1]"
    using at_write_inactive [OF s5(2), of 0] by auto
  obtain s7 where s7: "srv_do (In_task 0 [] [] False) s6 = Inr s7" "sv_evs s7 1 = None" "adds (w_ops (sv_w s7)) = [Some 1]"
    using at_free [OF s6(2), of 0] by auto
  have run: "srv_run [In_accept [test_sock], In_events [(1, EPOLLIN)], In_task 0 [] [] True, In_events [(1, EPOLLHUP)],
      In_task 0 [[]] [] False, In_task 0 [] [] False, In_task 0 [] [] False] (srv_new ready_app) = Inr s7"
    by (simp only: srv_run.simps srv_test_accept s2(1) s3(1) s4(1) s5(1) s6(1) s7(1) res_bind_simps)
  from s7(3) obtain op where op: "w_ops (sv_w s7) = [op]" "eo_e op = 1" "eo_op_type op = ATM_EVENT_OP_ADD"
    by (auto simp: adds_def split: if_splits)
  have "srv_do In_op s7 = Inl Bad_access"
    using op s7(2) by (simp add: srv_op_def atm_event_notify_handle_def get_ev_def)
  with run srv_run_steps [OF run] op(1) show ?thesis by auto
qed

end
