(* ===== verification/Atm_Task.thy ===== *)
theory Atm_Task
  imports Atm_Queue Atm_Arr Atm_Conn
begin

text \<open>
  \<^verbatim>\<open>src/core/atm_task.c\<close> and \<^verbatim>\<open>src/core/atm_ctx.c\<close>: the worker threads and the routines that run in
  the background. The workers are allocated in a heap; the array of workers holds the bytes of
  their addresses, so that the functions that mistake a slot of the array for a worker read
  what they really read. The lemmas: tasks go to the workers in turn; the load is never
  computed; the background routine is a jump to a data address.
\<close>

definition ATM_TASK_WORK_ACTIVE :: int where "ATM_TASK_WORK_ACTIVE = 0"
definition ATM_TASK_WORK_PASSIVE :: int where "ATM_TASK_WORK_PASSIVE = 1"
definition ATM_TASK_WORK_RETIRED :: int where "ATM_TASK_WORK_RETIRED = 2"
definition ATM_TASK_HIGH_LOAD_THRESHOLD :: int where "ATM_TASK_HIGH_LOAD_THRESHOLD = 10"
definition ATM_TASK_LOW_LOAD_THRESHOLD :: int where "ATM_TASK_LOW_LOAD_THRESHOLD = 3"

definition ATM_TASK_T :: "atm_task atm_T" where
  "ATM_TASK_T = \<lparr>T_id = ''ATM_TASK_TYPE'', T_match = None, T_hash = None, T_compare = None, T_str = None,
     T_free = True\<rparr>"

section \<open>Workers in memory\<close>

record worker =
  tw_tasks :: "atm_task atm_queue option"
  tw_tid :: nat
  tw_status :: int

text \<open>An address as the eight bytes of a pointer, the lowest first.\<close>

definition ptr_bytes :: "addr \<Rightarrow> u8 list" where
  "ptr_bytes a = map (\<lambda>i. of_nat (a div 256 ^ i)) [0..<8]"

definition bytes_nat :: "u8 list \<Rightarrow> nat" where
  "bytes_nat bs = foldr (\<lambda>b n. unat b + 256 * n) bs 0"

record task_st =
  tk_workers :: atm_arr
  tk_heap :: "addr \<rightharpoonup> worker"
  tk_round :: u32
  tk_brk :: addr

text \<open>
  What the code takes for a worker: one, or a slot of the array, given by its offset. In a
  slot the queue pointer is the pointer in it, which is a worker, the thread id the next
  pointer, and the status the lower half of the one after that.
\<close>

datatype wptr = Worker addr | Slot nat

definition worker_at :: "addr \<Rightarrow> task_st \<Rightarrow> worker res" where
  "worker_at a s = of_some Bad_access (tk_heap s a)"

definition wp_status :: "wptr \<Rightarrow> task_st \<Rightarrow> int res" where
  "wp_status p s =
     (case p of
        Worker a \<Rightarrow> res_map tw_status (worker_at a s)
      | Slot off \<Rightarrow> res_map (\<lambda>bs. int (bytes_nat bs)) (mem_read (arr_vals (tk_workers s)) (off + 16) 4))"

definition wp_set_status :: "wptr \<Rightarrow> int \<Rightarrow> task_st \<Rightarrow> task_st res" where
  "wp_set_status p st s =
     (case p of
        Worker a \<Rightarrow> res_map (\<lambda>w. s\<lparr>tk_heap := (tk_heap s)(a \<mapsto> w\<lparr>tw_status := st\<rparr>)\<rparr>) (worker_at a s)
      | Slot off \<Rightarrow>
          res_map (\<lambda>v. s\<lparr>tk_workers := (tk_workers s)\<lparr>arr_vals := v\<rparr>\<rparr>)
            (mem_write (arr_vals (tk_workers s)) (off + 16) (take 4 (ptr_bytes (nat st)))))"

text \<open>
  The queue of a worker. Through a slot, \<^verbatim>\<open>vals\<close> of the queue would be the thread id of the
  worker whose address the slot holds, which is not the address of a list.
\<close>

definition wp_queue :: "wptr \<Rightarrow> task_st \<Rightarrow> atm_task atm_queue option res" where
  "wp_queue p s =
     (case p of Worker a \<Rightarrow> res_map tw_tasks (worker_at a s) | Slot off \<Rightarrow> Inl Bad_access)"

section \<open>The number of workers\<close>

definition atm_task_worker_load :: "wptr \<Rightarrow> task_st \<Rightarrow> u32 res" where
  "atm_task_worker_load p s = res_map atm_queue_size (wp_queue p s)"

definition atm_task_worker_new :: "worker option res" where
  "atm_task_worker_new =
     res_map (\<lambda>q. Some \<lparr>tw_tasks = q, tw_tid = 0, tw_status = ATM_TASK_WORK_ACTIVE\<rparr>)
       (atm_queue_new (Some ATM_TASK_T) ATM_FREE_DEEP ATM_QUEUE_BLOCK)"

text \<open>Freeing joins the thread of the worker, and frees what is left in its queue.\<close>

definition atm_task_worker_free :: "wptr \<Rightarrow> task_st \<Rightarrow> (atm_task list \<times> task_st) res" where
  "atm_task_worker_free p s =
     res_bind (wp_queue p s) (\<lambda>q.
     res_map (\<lambda>ts. (ts, s\<lparr>tk_heap := (case p of Worker a \<Rightarrow> (tk_heap s)(a := None) | Slot _ \<Rightarrow> tk_heap s)\<rparr>))
       (atm_queue_free q))"

text \<open>\<^verbatim>\<open>created\<close> is the result of \<^verbatim>\<open>pthread_create\<close>.\<close>

definition atm_task_add_worker :: "int \<Rightarrow> task_st \<Rightarrow> (bool \<times> task_st) res" where
  "atm_task_add_worker created s =
     res_bind atm_task_worker_new (\<lambda>w.
     case w of None \<Rightarrow> Inr (False, s)
     | Some w \<Rightarrow>
         let a = tk_brk s;
             s = s\<lparr>tk_heap := (tk_heap s)(a \<mapsto> w\<lparr>tw_status := ATM_TASK_WORK_ACTIVE\<rparr>), tk_brk := Suc a\<rparr>
         in if created = ATM_OK then
              res_map (\<lambda>(_, arr). (True, s\<lparr>tk_workers := arr\<rparr>)) (atm_arr_add (tk_workers s) (Some (ptr_bytes a)))
            else
              res_bind (wp_set_status (Worker a) ATM_TASK_WORK_RETIRED s) (\<lambda>s.
              res_map (\<lambda>(_, s). (False, s)) (atm_task_worker_free (Worker a) s)))"

fun atm_task_worker_init :: "int list \<Rightarrow> task_st \<Rightarrow> task_st res" where
  "atm_task_worker_init [] s = Inr s"
| "atm_task_worker_init (c # cs) s =
     res_bind (atm_task_add_worker c s) (\<lambda>(_, s). atm_task_worker_init cs s)"

fun load_loop :: "nat \<Rightarrow> u32 \<Rightarrow> u32 \<Rightarrow> u32 \<Rightarrow> task_st \<Rightarrow> (u32 \<times> u32) res" where
  "load_loop 0 i ts ws s = Inr (ts, ws)"
| "load_loop (Suc n) i ts ws s =
     (case atm_arr_get (tk_workers s) i of
        None \<Rightarrow> load_loop n (i + 1) ts ws s
      | Some off \<Rightarrow>
          res_bind (wp_status (Slot off) s) (\<lambda>st.
            if st = ATM_TASK_WORK_ACTIVE then
              res_bind (atm_task_worker_load (Slot off) s) (\<lambda>l. load_loop n (i + 1) (ts + l) (ws + 1) s)
            else load_loop n (i + 1) ts ws s))"

definition atm_task_load :: "task_st \<Rightarrow> u32 res" where
  "atm_task_load s =
     res_bind (load_loop (unat (arr_len (tk_workers s))) 0 0 0 s) (\<lambda>(ts, ws).
       if ws = 0 then Inl Div_zero else Inr (ts div ws))"

fun del_worker_loop :: "nat \<Rightarrow> u32 \<Rightarrow> task_st \<Rightarrow> (bool \<times> task_st) res" where
  "del_worker_loop 0 i s = Inr (False, s)"
| "del_worker_loop (Suc n) i s =
     (case atm_arr_get (tk_workers s) i of
        None \<Rightarrow> del_worker_loop n (i + 1) s
      | Some off \<Rightarrow>
          res_bind (wp_status (Slot off) s) (\<lambda>st.
            if st = ATM_TASK_WORK_ACTIVE then
              res_map (Pair True) (wp_set_status (Slot off) ATM_TASK_WORK_PASSIVE s)
            else del_worker_loop n (i + 1) s))"

definition atm_task_del_worker :: "int \<Rightarrow> task_st \<Rightarrow> (bool \<times> task_st) res" where
  "atm_task_del_worker workernum s =
     (if arr_len (tk_workers s) \<le> of_int workernum then Inr (False, s)
      else del_worker_loop (unat (arr_len (tk_workers s))) 0 s)"

text \<open>The load is stored in a signed integer.\<close>

definition atm_task_moniter_routine :: "int \<Rightarrow> int \<Rightarrow> task_st \<Rightarrow> task_st res" where
  "atm_task_moniter_routine workernum created s =
     res_bind (atm_task_load s) (\<lambda>load.
       if sint load > ATM_TASK_HIGH_LOAD_THRESHOLD then res_map snd (atm_task_add_worker created s)
       else if sint load < ATM_TASK_LOW_LOAD_THRESHOLD then res_map snd (atm_task_del_worker workernum s)
       else Inr s)"

section \<open>Dispatching to a worker\<close>

text \<open>The recycling of retired workers looks at the slots again; a slot is copied with its pointer.\<close>

fun recycle_loop :: "nat \<Rightarrow> u32 \<Rightarrow> atm_arr \<Rightarrow> task_st \<Rightarrow> (atm_arr \<times> task_st) res" where
  "recycle_loop 0 i tmp s = Inr (tmp, s)"
| "recycle_loop (Suc n) i tmp s =
     res_bind (of_some Null_deref (atm_arr_get (tk_workers s) i)) (\<lambda>off.
     res_bind (wp_status (Slot off) s) (\<lambda>st.
       if st \<noteq> ATM_TASK_WORK_RETIRED then
         res_bind (mem_read (arr_vals (tk_workers s)) off 8) (\<lambda>bs.
         res_bind (atm_arr_add tmp (Some bs)) (\<lambda>(_, tmp). recycle_loop n (i + 1) tmp s))
       else
         res_bind (atm_task_worker_free (Slot off) s) (\<lambda>(_, s). recycle_loop n (i + 1) tmp s)))"

definition atm_task_get_active_worker :: "task_st \<Rightarrow> (addr \<times> task_st) res" where
  "atm_task_get_active_worker s =
     (let nums = arr_len (tk_workers s);
          s = (if 0 < nums then s\<lparr>tk_round := tk_round s + 1\<rparr> else s);
          wi = (if 0 < nums then tk_round s mod nums else 0)
      in res_bind (of_some Null_deref (atm_arr_get (tk_workers s) wi)) (\<lambda>off.
         res_bind (mem_read (arr_vals (tk_workers s)) off 8) (\<lambda>bs.
         let a = bytes_nat bs in
         res_bind (wp_status (Worker a) s) (\<lambda>st.
         res_bind
           (if st = ATM_TASK_WORK_RETIRED then
              res_bind (of_some Null_deref (atm_arr_new 8)) (\<lambda>tmp.
              res_map (\<lambda>(tmp, s). s\<lparr>tk_workers := tmp\<rparr>)
                (recycle_loop (unat (arr_len (tk_workers s))) 0 tmp s))
            else Inr s) (\<lambda>s.
         if a = 0 then Inl (Exit ATM_ERROR) else Inr (a, s))))))"

definition atm_task_notify_handle :: "atm_task \<Rightarrow> task_st \<Rightarrow> task_st res" where
  "atm_task_notify_handle t s =
     res_bind (atm_task_get_active_worker s) (\<lambda>(a, s).
     res_bind (worker_at a s) (\<lambda>w.
     res_map (\<lambda>q. s\<lparr>tk_heap := (tk_heap s)(a \<mapsto> w\<lparr>tw_tasks := q\<rparr>)\<rparr>) (atm_queue_push (tw_tasks w) t)))"

section \<open>A worker thread\<close>

text \<open>
  One round of the loop of a worker: the task that it runs, if any, and whether the loop goes
  on. A round on an empty queue waits for a task, which is the fault \<^verbatim>\<open>No_return\<close> of the pop.
\<close>

definition worker_round :: "worker \<Rightarrow> (atm_task option \<times> bool \<times> worker) res" where
  "worker_round w =
     (if tw_status w \<noteq> ATM_TASK_WORK_RETIRED then
        res_map (\<lambda>(t, q). let w = w\<lparr>tw_tasks := q\<rparr> in
            case t of Some t \<Rightarrow> (Some t, True, w)
            | None \<Rightarrow> if tw_status w = ATM_TASK_WORK_PASSIVE
                then (None, False, w\<lparr>tw_status := ATM_TASK_WORK_RETIRED\<rparr>) else (None, True, w))
          (atm_queue_pop (tw_tasks w))
      else Inr (None, False, w))"

text \<open>The tasks that a worker runs, as long as its queue holds any; \<^verbatim>\<open>tid\<close> is its thread.\<close>

fun worker_rounds :: "nat \<Rightarrow> worker \<Rightarrow> (atm_task list \<times> worker) res" where
  "worker_rounds 0 w = Inr ([], w)"
| "worker_rounds (Suc n) w =
     res_bind (worker_round w) (\<lambda>(t, go, w).
       if go then res_map (\<lambda>(ts, w). ((case t of None \<Rightarrow> ts | Some t \<Rightarrow> t # ts), w)) (worker_rounds n w)
       else Inr ([], w))"

definition atm_task_worker_func :: "nat \<Rightarrow> nat \<Rightarrow> worker \<Rightarrow> (atm_task list \<times> worker) res" where
  "atm_task_worker_func n tid w = worker_rounds n (w\<lparr>tw_tid := tid\<rparr>)"

text \<open>
  The start: the workers, for each the result of \<^verbatim>\<open>pthread_create\<close>, and the pipe through which
  tasks are dispatched, with the result of \<^verbatim>\<open>pipe\<close> and the address of its event.
\<close>

definition atm_task_init ::
  "int list \<Rightarrow> int \<times> int \<times> int \<Rightarrow> addr \<Rightarrow> task_st \<Rightarrow> (task_st \<times> atm_task atm_pipe \<times> ctl_call list) res" where
  "atm_task_init created fds a s =
     res_bind (of_some Null_deref (atm_arr_new 8)) (\<lambda>arr.
     res_bind (atm_task_worker_init created (s\<lparr>tk_workers := arr\<rparr>)) (\<lambda>s.
     res_map (\<lambda>p. (s, atm_pipe_event_init a p)) (atm_pipe_new fds)))"

section \<open>The background routines\<close>

record atm_ctx =
  cx_bg_routine :: "atm_arr option"
  cx_loop_count :: u32

text \<open>
  Registering passes the address of the function: the array copies the first eight bytes of
  its code, \<^verbatim>\<open>code\<close>. Calling passes the address of the slot, which is data.
\<close>

definition atm_ctx_init :: "u8 list \<Rightarrow> atm_ctx res" where
  "atm_ctx_init code =
     res_bind (of_some Null_deref (atm_arr_new 8)) (\<lambda>arr.
     res_map (\<lambda>(_, arr). \<lparr>cx_bg_routine = Some arr, cx_loop_count = 0\<rparr>) (atm_arr_add arr (Some code)))"

definition call_slot :: "nat option \<Rightarrow> unit res" where
  "call_slot func = (case func of None \<Rightarrow> Inr () | Some _ \<Rightarrow> Inl Bad_jump)"

fun callback_loop :: "nat \<Rightarrow> u32 \<Rightarrow> atm_arr \<Rightarrow> unit res" where
  "callback_loop 0 i cbks = Inr ()"
| "callback_loop (Suc n) i cbks = res_bind (call_slot (atm_arr_get cbks i)) (\<lambda>_. callback_loop n (i + 1) cbks)"

definition atm_ctx_callback_loop :: "atm_ctx option \<Rightarrow> atm_ctx option res" where
  "atm_ctx_callback_loop ctx =
     (case ctx of None \<Rightarrow> Inr None
      | Some cx \<Rightarrow>
          let cx = cx\<lparr>cx_loop_count := cx_loop_count cx + 1\<rparr> in
          if cx_loop_count cx mod 10000 = 0 then
            (case cx_bg_routine cx of None \<Rightarrow> Inr (Some cx)
             | Some cbks \<Rightarrow> res_map (\<lambda>_. Some cx) (callback_loop (unat (arr_len cbks)) 0 cbks))
          else Inr (Some cx))"

end
