(* ===== verification/Atm_Task_Props.thy ===== *)
theory Atm_Task_Props
  imports Atm_Task
begin

text \<open>
  What the workers do: the dispatcher gives the tasks to the workers in turn, a worker runs its
  tasks in order and never retires; and what the routines in the background do: the load of the
  workers is never computed, and calling the routine ends the process.
\<close>

section \<open>Pointers in an array\<close>

lemma bytes_nat_take: "bytes_nat (map (\<lambda>i. of_nat (a div 256 ^ i)) [0..<k]) = a mod 256 ^ k"
proof (induction k arbitrary: a)
  case (Suc k)
  have u: "unat (of_nat a :: u8) = a mod 256" by (simp add: unat_of_nat take_bit_eq_mod)
  have "map (\<lambda>i. of_nat (a div 256 ^ i) :: u8) [0..<Suc k]
      = of_nat a # map (\<lambda>i. of_nat (a div 256 div 256 ^ i)) [0..<k]"
    by (simp only: upt_conv_Cons map_Suc_upt [symmetric] zero_less_Suc list.map map_map)
       (simp add: comp_def div_mult2_eq)
  then have "bytes_nat (map (\<lambda>i. of_nat (a div 256 ^ i)) [0..<Suc k]) = a mod 256 + 256 * ((a div 256) mod 256 ^ k)"
    using Suc.IH [of "a div 256"] u by (simp add: bytes_nat_def)
  then show ?case by (simp add: mod_mult2_eq)
qed (simp add: bytes_nat_def)

lemma bytes_nat_ptr: "a < 2 ^ 64 \<Longrightarrow> bytes_nat (ptr_bytes a) = a"
  using bytes_nat_take [of a 8] by (simp add: ptr_bytes_def)

section \<open>Dispatching\<close>

definition worker_ok :: "worker \<Rightarrow> bool" where
  "worker_ok w \<longleftrightarrow> tw_status w \<noteq> ATM_TASK_WORK_RETIRED
     \<and> (\<exists>q. tw_tasks w = Some q \<and> wf_queue q \<and> q_blk_type q = ATM_QUEUE_BLOCK)"

definition worker_queue :: "worker \<Rightarrow> atm_task list" where
  "worker_queue w = (case tw_tasks w of None \<Rightarrow> [] | Some q \<Rightarrow> queue_abs q)"

text \<open>The workers at the addresses \<^verbatim>\<open>as\<close>, in the order of the array.\<close>

definition workers_ok :: "task_st \<Rightarrow> addr list \<Rightarrow> bool" where
  "workers_ok s ads \<longleftrightarrow> wf_arr (tk_workers s) \<and> arr_tsize (tk_workers s) = 8
     \<and> arr_elems (tk_workers s) = map ptr_bytes ads \<and> ads \<noteq> [] \<and> distinct ads
     \<and> (\<forall>a \<in> set ads. 0 < a \<and> a < 2 ^ 64 \<and> (\<exists>w. tk_heap s a = Some w \<and> worker_ok w))"

definition queue_of :: "task_st \<Rightarrow> addr \<Rightarrow> atm_task list" where
  "queue_of s a = (case tk_heap s a of None \<Rightarrow> [] | Some w \<Rightarrow> worker_queue w)"

lemma get_active_worker_ok:
  assumes ok: "workers_ok s ads"
  shows "atm_task_get_active_worker s =
    Inr (ads ! unat ((tk_round s + 1) mod arr_len (tk_workers s)), s\<lparr>tk_round := tk_round s + 1\<rparr>)
    \<and> unat (arr_len (tk_workers s)) = length ads"
proof -
  let ?n = "arr_len (tk_workers s)" and ?i = "(tk_round s + 1) mod arr_len (tk_workers s)"
  have len: "unat ?n = length ads"
    using ok arr_elems_length [of "tk_workers s"] by (simp add: workers_ok_def)
  then have n: "0 < ?n" using ok by (simp add: workers_ok_def word_less_nat_alt)
  have i: "?i < ?n" using n by (simp add: word_mod_less_divisor)
  obtain off where off: "atm_arr_get (tk_workers s) ?i = Some off"
      "mem_read (arr_vals (tk_workers s)) off 8 = Inr (arr_elems (tk_workers s) ! unat ?i)"
    using atm_arr_get_elem [of "tk_workers s" ?i] ok i by (auto simp: workers_ok_def)
  have ui: "unat ?i < length ads" using i len by (simp add: word_less_nat_alt)
  then have m: "ads ! unat ?i \<in> set ads" "arr_elems (tk_workers s) ! unat ?i = ptr_bytes (ads ! unat ?i)"
    using ok by (simp_all add: workers_ok_def)
  then obtain w where w: "tk_heap s (ads ! unat ?i) = Some w" "tw_status w \<noteq> ATM_TASK_WORK_RETIRED"
      "0 < ads ! unat ?i" "bytes_nat (ptr_bytes (ads ! unat ?i)) = ads ! unat ?i"
    using ok bytes_nat_ptr unfolding workers_ok_def worker_ok_def by blast
  show ?thesis using n off m(2) w len
    by (simp add: atm_task_get_active_worker_def Let_def wp_status_def worker_at_def)
qed

lemma notify_handle_ok:
  assumes ok: "workers_ok s ads" and r: "unat (tk_round s) + 1 < 2 ^ 32"
  defines "a \<equiv> ads ! ((unat (tk_round s) + 1) mod length ads)"
  shows "\<exists>s'. atm_task_notify_handle t s = Inr s' \<and> workers_ok s' ads \<and> unat (tk_round s') = unat (tk_round s) + 1
    \<and> queue_of s' = (queue_of s)(a := queue_of s a @ [t])"
proof -
  have ur: "unat (tk_round s + 1) = unat (tk_round s) + 1" using r by (simp add: unat_word_ariths)
  have g: "atm_task_get_active_worker s = Inr (a, s\<lparr>tk_round := tk_round s + 1\<rparr>)"
    using get_active_worker_ok [OF ok] ur by (simp add: a_def unat_mod)
  have "ads \<noteq> []" using ok by (simp add: workers_ok_def)
  then have "a \<in> set ads" unfolding a_def by (intro nth_mem mod_less_divisor) simp
  then obtain w q where w: "tk_heap s a = Some w" "worker_ok w" "tw_tasks w = Some q" "wf_queue q"
      "q_blk_type q = ATM_QUEUE_BLOCK"
    using ok unfolding workers_ok_def worker_ok_def by blast
  obtain q' where q': "atm_queue_push (Some q) t = Inr (Some q')" "wf_queue q'" "queue_abs q' = queue_abs q @ [t]"
      "q_blk_type q' = q_blk_type q"
    using atm_queue_push_abs [OF w(4), of t] by blast
  let ?s = "s\<lparr>tk_round := tk_round s + 1, tk_heap := (tk_heap s)(a \<mapsto> w\<lparr>tw_tasks := Some q'\<rparr>)\<rparr>"
  have "atm_task_notify_handle t s = Inr ?s"
    using g w(1,3) q'(1) by (simp add: atm_task_notify_handle_def worker_at_def)
  moreover have "worker_ok (w\<lparr>tw_tasks := Some q'\<rparr>)" using w(2,5) q'(2,4) by (simp add: worker_ok_def)
  then have "workers_ok ?s ads" using ok by (auto simp: workers_ok_def)
  moreover have "queue_of ?s = (queue_of s)(a := queue_of s a @ [t])"
    using w(1,3) q'(3) by (auto simp: fun_eq_iff queue_of_def worker_queue_def)
  ultimately show ?thesis using ur by (intro exI [of _ ?s]) simp
qed

fun dispatch_all :: "atm_task list \<Rightarrow> task_st \<Rightarrow> task_st res" where
  "dispatch_all [] s = Inr s"
| "dispatch_all (t # ts) s = res_bind (atm_task_notify_handle t s) (dispatch_all ts)"

text \<open>Every \<^verbatim>\<open>n\<close>-th task, from the position \<^verbatim>\<open>r\<close> in the turn on.\<close>

fun turn :: "nat \<Rightarrow> nat \<Rightarrow> nat \<Rightarrow> 'a list \<Rightarrow> 'a list" where
  "turn n r j [] = []"
| "turn n r j (t # ts) = (if r mod n = j then t # turn n (Suc r) j ts else turn n (Suc r) j ts)"

lemma dispatch_all_ok:
  assumes "workers_ok s ads" "unat (tk_round s) + length ts < 2 ^ 32"
  shows "\<exists>s'. dispatch_all ts s = Inr s' \<and> workers_ok s' ads
    \<and> (\<forall>j < length ads. queue_of s' (ads ! j) = queue_of s (ads ! j) @ turn (length ads) (Suc (unat (tk_round s))) j ts)"
  using assms
proof (induction ts arbitrary: s)
  case (Cons t ts)
  let ?n = "length ads" and ?r = "unat (tk_round s)"
  obtain s1 where s1: "atm_task_notify_handle t s = Inr s1" "workers_ok s1 ads" "unat (tk_round s1) = ?r + 1"
      "queue_of s1 = (queue_of s)(ads ! ((?r + 1) mod ?n) := queue_of s (ads ! ((?r + 1) mod ?n)) @ [t])"
    using notify_handle_ok [OF Cons.prems(1), of t] Cons.prems(2) by auto
  obtain s' where s': "dispatch_all ts s1 = Inr s'" "workers_ok s' ads"
      "\<forall>j < ?n. queue_of s' (ads ! j) = queue_of s1 (ads ! j) @ turn ?n (Suc (?r + 1)) j ts"
    using Cons.IH [OF s1(2)] s1(3) Cons.prems(2) by auto
  have d: "distinct ads" "ads \<noteq> []" using Cons.prems(1) by (simp_all add: workers_ok_def)
  have "queue_of s1 (ads ! j) = queue_of s (ads ! j) @ (if Suc ?r mod ?n = j then [t] else [])" if "j < ?n" for j
  proof -
    have "Suc ?r mod ?n < ?n" using d(2) by simp
    then show ?thesis using s1(4) d(1) that nth_eq_iff_index_eq [of ads "Suc ?r mod ?n" j] by auto
  qed
  then show ?case using s1(1) s' by simp
qed simp

section \<open>The workers that are created\<close>

lemma new_worker:
  "\<exists>w. atm_task_worker_new = Inr (Some w) \<and> tw_status w = ATM_TASK_WORK_ACTIVE \<and> worker_ok w \<and> worker_queue w = []
    \<and> atm_queue_free (tw_tasks w) = Inr []"
proof -
  let ?l = "atm_list_new (Some ATM_TASK_T) ATM_FREE_DEEP"
  have "atm_list_free ?l = Inr []"
    by (simp add: atm_list_free_def atm_list_clear_def atm_list_new_def atm_list_lpop_entry_def)
  then show ?thesis
    by (simp add: atm_task_worker_new_def atm_queue_new_def Let_def worker_ok_def worker_queue_def wf_queue_def
        queue_abs_def ATM_TASK_WORK_ACTIVE_def ATM_TASK_WORK_RETIRED_def atm_queue_free_def)
qed

text \<open>The state while workers are created: the array may be empty, and grows with its length.\<close>

definition init_ok :: "task_st \<Rightarrow> addr list \<Rightarrow> bool" where
  "init_ok s ads \<longleftrightarrow> wf_arr (tk_workers s) \<and> arr_tsize (tk_workers s) = 8
     \<and> unat (arr_cap (tk_workers s)) \<le> 32 + 3 * length ads
     \<and> arr_elems (tk_workers s) = map ptr_bytes ads \<and> distinct ads \<and> 0 < tk_brk s
     \<and> (\<forall>a \<in> set ads. 0 < a \<and> a < tk_brk s
         \<and> (\<exists>w. tk_heap s a = Some w \<and> worker_ok w \<and> worker_queue w = []))"

lemma init_ok_len: "init_ok s ads \<Longrightarrow> unat (arr_len (tk_workers s)) = length ads"
  using arr_elems_length [of "tk_workers s"] by (simp add: init_ok_def)

lemma ptr_bytes_length [simp]: "length (ptr_bytes a) = 8"
  by (simp add: ptr_bytes_def)

lemma add_worker_ok:
  assumes inv: "init_ok s ads" and n: "length ads < 2 ^ 24" and c: "c = ATM_OK"
  shows "\<exists>s'. atm_task_add_worker c s = Inr (True, s') \<and> init_ok s' (ads @ [tk_brk s])
    \<and> tk_brk s' = Suc (tk_brk s) \<and> tk_round s' = tk_round s"
proof -
  obtain w where w: "atm_task_worker_new = Inr (Some w)" "tw_status w = ATM_TASK_WORK_ACTIVE" "worker_ok w"
      "worker_queue w = []"
    using new_worker by blast
  have i: "wf_arr (tk_workers s)" "arr_tsize (tk_workers s) = 8"
      "unat (arr_cap (tk_workers s)) \<le> 32 + 3 * length ads"
    using inv by (simp_all add: init_ok_def)
  have "arr_room (tk_workers s)" using i(2,3) n by (simp add: arr_room_def)
  from atm_arr_add_appends [OF i(1) this, of "ptr_bytes (tk_brk s)"]
  obtain b where b: "atm_arr_add (tk_workers s) (Some (ptr_bytes (tk_brk s))) = Inr (arr_len (tk_workers s), b)"
      "wf_arr b" "arr_elems b = arr_elems (tk_workers s) @ [ptr_bytes (tk_brk s)]" "arr_tsize b = 8"
    using i(2) by auto
  have cap: "unat (arr_cap b) \<le> 32 + 3 * length (ads @ [tk_brk s])"
    using atm_arr_add_cap [OF i(1) b(1)] i(3) init_ok_len [OF inv] by simp
  let ?s = "s\<lparr>tk_heap := (tk_heap s)(tk_brk s \<mapsto> w), tk_brk := Suc (tk_brk s), tk_workers := b\<rparr>"
  have "w\<lparr>tw_status := ATM_TASK_WORK_ACTIVE\<rparr> = w" using w(2) by simp
  with b(1) c have "atm_task_add_worker c s = Inr (True, ?s)"
    unfolding atm_task_add_worker_def w(1) by (simp add: Let_def)
  moreover have "init_ok ?s (ads @ [tk_brk s])"
    using inv b(2,3,4) cap w(3,4) by (auto simp: init_ok_def)
  ultimately show ?thesis by (intro exI [of _ ?s]) simp
qed

lemma add_worker_fails:
  assumes inv: "init_ok s ads" and c: "c \<noteq> ATM_OK"
  shows "\<exists>s'. atm_task_add_worker c s = Inr (False, s') \<and> init_ok s' ads
    \<and> tk_brk s' = Suc (tk_brk s) \<and> tk_round s' = tk_round s"
proof -
  obtain w where w: "atm_task_worker_new = Inr (Some w)" "tw_status w = ATM_TASK_WORK_ACTIVE"
      "atm_queue_free (tw_tasks w) = Inr []"
    using new_worker by blast
  let ?s = "s\<lparr>tk_heap := (tk_heap s)(tk_brk s := None), tk_brk := Suc (tk_brk s)\<rparr>"
  have "atm_task_add_worker c s = Inr (False, ?s)"
    using w(2,3) c unfolding atm_task_add_worker_def w(1)
    by (simp add: Let_def wp_set_status_def worker_at_def atm_task_worker_free_def wp_queue_def)
  moreover have "init_ok ?s ads" using inv by (auto simp: init_ok_def)
  ultimately show ?thesis by (intro exI [of _ ?s]) simp
qed

lemma worker_init_ok:
  assumes "init_ok s ads" "length ads + length cs < 2 ^ 24"
  shows "\<exists>s' bds. atm_task_worker_init cs s = Inr s' \<and> init_ok s' bds
    \<and> length bds = length ads + length (filter (\<lambda>c. c = ATM_OK) cs)
    \<and> tk_brk s' = tk_brk s + length cs \<and> tk_round s' = tk_round s"
  using assms
proof (induction cs arbitrary: s ads)
  case Nil
  then show ?case by auto
next
  case (Cons c cs)
  obtain s1 b ads1 where s1: "atm_task_add_worker c s = Inr (b, s1)" "init_ok s1 ads1"
      "length ads1 = length ads + (if c = ATM_OK then 1 else 0)" "tk_brk s1 = Suc (tk_brk s)" "tk_round s1 = tk_round s"
    using add_worker_ok [OF Cons.prems(1)] add_worker_fails [OF Cons.prems(1)] Cons.prems(2)
    by (cases "c = ATM_OK") fastforce+
  then have "length ads1 + length cs < 2 ^ 24" using Cons.prems(2) by (simp split: if_splits)
  from Cons.IH [OF s1(2) this] s1 show ?case by auto
qed

lemma pipe_new_ok:
  "fst fds = 0 \<Longrightarrow> \<exists>p. atm_pipe_new fds = Inr p \<and> queue_abs (pp_mqueue p) = []"
  by (auto simp: atm_pipe_new_def atm_queue_new_def Let_def of_some_def queue_abs_def ATM_QUEUE_NONBLOCK_def
      split: prod.splits)

lemma task_init_ok:
  assumes "0 < tk_brk s" "length created < 2 ^ 24" "fst fds = 0"
  shows "\<exists>s' p calls ads. atm_task_init created fds a s = Inr (s', p, calls) \<and> init_ok s' ads
    \<and> queue_abs (pp_mqueue p) = []
    \<and> length ads = length (filter (\<lambda>c. c = ATM_OK) created)
    \<and> tk_brk s' = tk_brk s + length created \<and> tk_round s' = tk_round s"
proof -
  obtain b where b: "atm_arr_new 8 = Some b" "wf_arr b" "arr_elems b = []" "arr_tsize b = 8"
    using wf_arr_new [of 8] by auto
  then have "unat (arr_cap b) = 32" by (auto simp: atm_arr_new_def ATM_ARR_INITIAL_LEN_def)
  then have "init_ok (s\<lparr>tk_workers := b\<rparr>) []" using b assms(1) by (simp add: init_ok_def)
  from worker_init_ok [OF this, of created] assms(2) obtain s' bds where
      s': "atm_task_worker_init created (s\<lparr>tk_workers := b\<rparr>) = Inr s'" "init_ok s' bds"
      "length bds = length (filter (\<lambda>c. c = ATM_OK) created)" "tk_brk s' = tk_brk s + length created" "tk_round s' = tk_round s"
    by auto
  obtain p :: "atm_task atm_pipe" where p: "atm_pipe_new fds = Inr p" "queue_abs (pp_mqueue p) = []"
    using pipe_new_ok [OF assms(3)] by blast
  obtain q calls where q: "atm_pipe_event_init a p = (q, calls)" by fastforce
  then have "queue_abs (pp_mqueue q) = []" using p(2) by (auto simp: atm_pipe_event_init_def Let_def split: prod.splits)
  then show ?thesis using s' b(1) p(1) q by (auto simp: atm_task_init_def)
qed

lemma init_workers_ok:
  assumes "init_ok s ads" "ads \<noteq> []" "tk_brk s \<le> 2 ^ 64"
  shows "workers_ok s ads" "a \<in> set ads \<Longrightarrow> queue_of s a = []"
  using assms by (auto simp: init_ok_def workers_ok_def queue_of_def)

section \<open>Properties\<close>

text \<open>
  Property C22. After the start-up with at least one thread created (the others are taken back),
  any sequence of notified tasks is dealt to the workers in turn: the queue of the worker \<^verbatim>\<open>j\<close>
  holds the tasks whose number in the turn is \<^verbatim>\<open>j\<close>, in their order, and nothing else.
\<close>

theorem atm_task_round_robin:
  assumes "0 < tk_brk s" "tk_brk s + length created \<le> 2 ^ 64" "tk_round s = 0" "length created < 2 ^ 24"
    "n = length (filter (\<lambda>c. c = ATM_OK) created)" "0 < n" "length ts < 2 ^ 32" "fst fds = 0"
  shows "\<exists>s1 p calls s2 ads. atm_task_init created fds a s = Inr (s1, p, calls) \<and> dispatch_all ts s1 = Inr s2
    \<and> length ads = n \<and> distinct ads \<and> arr_elems (tk_workers s2) = map ptr_bytes ads
    \<and> (\<forall>j < n. queue_of s2 (ads ! j) = turn n 1 j ts)"
proof -
  obtain s1 p calls ads where s1: "atm_task_init created fds a s = Inr (s1, p, calls)" "init_ok s1 ads" "length ads = n"
      "tk_brk s1 = tk_brk s + length created" "tk_round s1 = 0"
    using task_init_ok [OF assms(1,4,8), of a] assms(3,5) by auto
  have w: "workers_ok s1 ads" using init_workers_ok(1) [OF s1(2)] s1(3,4) assms(2,6) by auto
  have e: "queue_of s1 (ads ! j) = []" if "j < n" for j
    by (rule init_workers_ok(2) [OF s1(2)]) (use s1(3,4) assms(2) that in auto)
  obtain s2 where s2: "dispatch_all ts s1 = Inr s2" "workers_ok s2 ads"
      "\<forall>j < n. queue_of s2 (ads ! j) = queue_of s1 (ads ! j) @ turn n (Suc 0) j ts"
    using dispatch_all_ok [OF w, of ts] s1(3,5) assms(7) by auto
  have "length ads = n \<and> distinct ads \<and> arr_elems (tk_workers s2) = map ptr_bytes ads"
    using s1(3) s2(2) by (simp add: workers_ok_def)
  then show ?thesis using s1(1) s2(1,3) e by auto
qed

definition no_workers :: task_st where
  "no_workers = \<lparr>tk_workers = \<lparr>arr_vals = [], arr_cap = 0, arr_len = 0, arr_tsize = 8\<rparr>, tk_heap = Map.empty,
     tk_round = 0, tk_brk = 1\<rparr>"

definition test_tasks :: "atm_task list" where
  "test_tasks = [atm_task_new (Some 1) Task_read, atm_task_new (Some 2) Task_read, atm_task_new (Some 1) Task_write]"

theorem atm_task_round_robin_witness:
  "\<exists>s1 p calls s2 ads. atm_task_init [ATM_OK, 11, ATM_OK] (0, 6, 7) 1 no_workers = Inr (s1, p, calls) \<and> dispatch_all test_tasks s1 = Inr s2
    \<and> queue_of s2 (ads ! 0) = [atm_task_new (Some 2) Task_read]
    \<and> queue_of s2 (ads ! 1) = [atm_task_new (Some 1) Task_read, atm_task_new (Some 1) Task_write]"
proof -
  have pre: "0 < tk_brk no_workers" "tk_brk no_workers + length [ATM_OK, 11, ATM_OK] \<le> 2 ^ 64"
      "tk_round no_workers = 0" "length [ATM_OK, 11, ATM_OK] < 2 ^ 24"
      "2 = length (filter (\<lambda>c. c = ATM_OK) [ATM_OK, 11, ATM_OK])" "0 < (2 :: nat)" "length test_tasks < 2 ^ 32" "fst (0 :: int, 6 :: int, 7 :: int) = 0"
    by (simp_all add: ATM_OK_def no_workers_def test_tasks_def)
  obtain s1 p calls s2 ads where s: "atm_task_init [ATM_OK, 11, ATM_OK] (0, 6, 7) 1 no_workers = Inr (s1, p, calls)" "dispatch_all test_tasks s1 = Inr s2"
      "\<forall>j < 2. queue_of s2 (ads ! j) = turn 2 1 j test_tasks"
    using atm_task_round_robin [OF pre, of 1] by blast
  have "turn 2 1 0 test_tasks = [atm_task_new (Some 2) Task_read]"
      "turn 2 1 1 test_tasks = [atm_task_new (Some 1) Task_read, atm_task_new (Some 1) Task_write]"
    by (simp_all add: test_tasks_def)
  then show ?thesis using s by (metis one_less_numeral_iff semiring_norm(76) zero_less_numeral)
qed

text \<open>A round of a worker that has a task, and of one that has none.\<close>

lemma worker_round_ok:
  assumes ok: "worker_ok w" and n: "length (worker_queue w) < 2 ^ 32"
  shows "case worker_queue w of [] \<Rightarrow> worker_round w = Inl No_return
    | t # ts \<Rightarrow> (\<exists>w'. worker_round w = Inr (Some t, True, w') \<and> worker_ok w' \<and> worker_queue w' = ts
        \<and> tw_status w' = tw_status w \<and> tw_tid w' = tw_tid w)"
proof -
  obtain q where q: "tw_tasks w = Some q" "wf_queue q" "q_blk_type q = ATM_QUEUE_BLOCK"
      "tw_status w \<noteq> ATM_TASK_WORK_RETIRED"
    using ok by (auto simp: worker_ok_def)
  have wq: "worker_queue w = queue_abs q" using q(1) by (simp add: worker_queue_def)
  then have "length (queue_abs q) < 2 ^ 32" using n by simp
  note pop = atm_queue_pop_abs [OF q(2) this]
  show ?thesis
  proof (cases "queue_abs q")
    case Nil
    then show ?thesis using pop q wq by (simp add: worker_round_def)
  next
    case (Cons t ts)
    then obtain q' where q': "atm_queue_pop (Some q) = Inr (Some t, Some q')" "wf_queue q'" "queue_abs q' = ts"
        "q_blk_type q' = q_blk_type q"
      using pop by auto
    then show ?thesis using q Cons wq by (simp add: worker_round_def worker_ok_def worker_queue_def Let_def)
  qed
qed

lemma worker_rounds_ok:
  assumes "worker_ok w" "length (worker_queue w) < 2 ^ 32"
  shows "if n \<le> length (worker_queue w)
    then \<exists>w'. worker_rounds n w = Inr (take n (worker_queue w), w') \<and> worker_queue w' = drop n (worker_queue w)
      \<and> tw_status w' = tw_status w \<and> tw_tid w' = tw_tid w
    else worker_rounds n w = Inl No_return"
  using assms
proof (induction n arbitrary: w)
  case (Suc n)
  show ?case
  proof (cases "worker_queue w")
    case Nil
    then show ?thesis using worker_round_ok [OF Suc.prems] by simp
  next
    case (Cons t ts)
    then obtain w' where w': "worker_round w = Inr (Some t, True, w')" "worker_ok w'" "worker_queue w' = ts"
        "tw_status w' = tw_status w" "tw_tid w' = tw_tid w"
      using worker_round_ok [OF Suc.prems] by auto
    have "length (worker_queue w') < 2 ^ 32" using Suc.prems(2) w'(3) Cons by simp
    from Suc.IH [OF w'(2) this] show ?thesis using w' Cons by (auto split: if_splits)
  qed
qed simp



section \<open>The background routines\<close>

lemma load_loop_none:
  "load_loop n i ts ws s = Inr (ts', ws') \<Longrightarrow> ws' = ws"
proof (induction n arbitrary: i)
  case (Suc n)
  then show ?case
    by (auto simp: atm_task_worker_load_def wp_queue_def res_bind_eq_Inr res_map_eq_Inr split: option.splits if_splits)
qed simp

text \<open>
  The load is never computed: the loop takes the slots of the array for workers, so it either
  faults or counts no active worker, and the division by their number faults.
\<close>

lemma atm_task_load_never: "\<exists>f. atm_task_load s = Inl f"
  using load_loop_none [of "unat (arr_len (tk_workers s))" 0 0 0 s]
  by (cases "load_loop (unat (arr_len (tk_workers s))) 0 0 0 s") (auto simp: atm_task_load_def)

fun callback_loops :: "nat \<Rightarrow> atm_ctx option \<Rightarrow> atm_ctx option res" where
  "callback_loops 0 ctx = Inr ctx"
| "callback_loops (Suc n) ctx = res_bind (atm_ctx_callback_loop ctx) (callback_loops n)"

lemma callback_early:
  assumes "unat (cx_loop_count cx) < 9999"
  shows "atm_ctx_callback_loop (Some cx) = Inr (Some (cx\<lparr>cx_loop_count := cx_loop_count cx + 1\<rparr>))"
    and "unat (cx_loop_count cx + 1) = Suc (unat (cx_loop_count cx))"
proof -
  show u: "unat (cx_loop_count cx + 1) = Suc (unat (cx_loop_count cx))"
    using assms by (simp add: unat_word_ariths)
  then have "unat ((cx_loop_count cx + 1) mod 10000) = Suc (unat (cx_loop_count cx))"
    using assms by (simp add: unat_mod)
  then have "(cx_loop_count cx + 1) mod 10000 \<noteq> 0" by (metis nat.distinct(1) unat_0)
  then show "atm_ctx_callback_loop (Some cx) = Inr (Some (cx\<lparr>cx_loop_count := cx_loop_count cx + 1\<rparr>))"
    by (simp add: atm_ctx_callback_loop_def Let_def)
qed

lemma callback_counts:
  assumes "unat (cx_loop_count cx) + n < 10000"
  shows "callback_loops n (Some cx) = Inr (Some (cx\<lparr>cx_loop_count := cx_loop_count cx + of_nat n\<rparr>))"
  using assms
proof (induction n arbitrary: cx)
  case (Suc n)
  then have "unat (cx_loop_count cx) < 9999" by simp
  note e = callback_early [OF this]
  show ?case using Suc.IH [of "cx\<lparr>cx_loop_count := cx_loop_count cx + 1\<rparr>"] e Suc.prems
    by (simp add: algebra_simps)
qed simp

text \<open>The first routine of the array is a slot, which is not a function.\<close>

definition ctx_armed :: "atm_ctx \<Rightarrow> bool" where
  "ctx_armed cx \<longleftrightarrow> (\<exists>b. cx_bg_routine cx = Some b \<and> callback_loop (unat (arr_len b)) 0 b = Inl Bad_jump)"

lemma ctx_init_armed:
  assumes "8 \<le> length code"
  shows "\<exists>cx. atm_ctx_init code = Inr cx \<and> ctx_armed cx \<and> cx_loop_count cx = 0"
proof -
  obtain a where a: "atm_arr_new 8 = Some a" "wf_arr a" "arr_elems a = []" "arr_tsize a = 8"
    using wf_arr_new [of 8] by auto
  then have "unat (arr_cap a) = 32" "arr_len a = 0" by (auto simp: atm_arr_new_def ATM_ARR_INITIAL_LEN_def)
  then have "arr_room a" using a(4) by (simp add: arr_room_def)
  from atm_arr_add_appends [OF a(2) this, of code] obtain b where
      b: "atm_arr_add a (Some code) = Inr (0, b)" "wf_arr b" "arr_elems b = [take 8 code]"
    using a assms \<open>arr_len a = 0\<close> by auto
  have len: "unat (arr_len b) = 1" using arr_elems_length [of b] b(3) by simp
  have "atm_arr_get b 0 = Some 0" using len by (simp add: atm_arr_get_def word_less_nat_alt)
  then have "callback_loop (unat (arr_len b)) 0 b = Inl Bad_jump" unfolding len by (simp add: call_slot_def)
  then show ?thesis using a(1) b(1) by (simp add: atm_ctx_init_def ctx_armed_def)
qed

lemma callback_jumps:
  "ctx_armed cx \<Longrightarrow> cx_loop_count cx = 9999 \<Longrightarrow> atm_ctx_callback_loop (Some cx) = Inl Bad_jump"
  by (auto simp: ctx_armed_def atm_ctx_callback_loop_def Let_def)

text \<open>
  The event loop calls \<^verbatim>\<open>atm_ctx_callback_loop\<close> once per round. After the start-up
  the first 9999 calls return, and the next one jumps to the address of the slot of the
  array, which is data: the routine of the workers never runs.
\<close>

theorem atm_ctx_callback_crashes:
  assumes "8 \<le> length code"
  shows "\<exists>cx. atm_ctx_init code = Inr cx
    \<and> (\<forall>n < 10000. \<exists>cx'. callback_loops n (Some cx) = Inr (Some cx'))
    \<and> (\<exists>cx'. callback_loops 9999 (Some cx) = Inr (Some cx') \<and> atm_ctx_callback_loop (Some cx') = Inl Bad_jump)"
proof -
  obtain cx where cx: "atm_ctx_init code = Inr cx" "ctx_armed cx" "cx_loop_count cx = 0"
    using ctx_init_armed [OF assms] by blast
  have c: "callback_loops n (Some cx) = Inr (Some (cx\<lparr>cx_loop_count := of_nat n\<rparr>))" if "n < 10000" for n
    using callback_counts [of cx n] that cx(3) by simp
  have "atm_ctx_callback_loop (Some (cx\<lparr>cx_loop_count := 9999\<rparr>)) = Inl Bad_jump"
    using callback_jumps [of "cx\<lparr>cx_loop_count := 9999\<rparr>"] cx(2) by (simp add: ctx_armed_def)
  then show ?thesis using c cx(1) c [of 9999] by (intro exI [of _ cx]) auto
qed

theorem atm_ctx_callback_crashes_witness:
  "\<exists>cx cx'. atm_ctx_init [85, 72, 137, 229, 83, 72, 131, 236] = Inr cx
    \<and> callback_loops 9999 (Some cx) = Inr (Some cx') \<and> atm_ctx_callback_loop (Some cx') = Inl Bad_jump"
  using atm_ctx_callback_crashes [of "[85, 72, 137, 229, 83, 72, 131, 236]"] by auto

end
