(* ===== verification/Atm_File.thy ===== *)
theory Atm_File
  imports Atm_Str
begin

text \<open>
  \<^verbatim>\<open>src/os/unix/atm_file.c\<close>: paths and files. The system calls are parameters: \<^verbatim>\<open>readlink\<close> is
  the target of the link or none, \<^verbatim>\<open>lstat\<close> the mode of a path or none, \<^verbatim>\<open>fcntl\<close> a function on
  the state of the kernel. The lemmas give the text of a path that is put together.
\<close>

definition PATH_MAX :: nat where "PATH_MAX = 4096"
definition ATM_FILE_UNKNOWN :: int where "ATM_FILE_UNKNOWN = 0"
definition ATM_FILE_REG :: int where "ATM_FILE_REG = 1"
definition ATM_FILE_DIR :: int where "ATM_FILE_DIR = 2"

text \<open>A string passed as a \<^verbatim>\<open>char *\<close> to the C library.\<close>

definition str_chars :: "atm_str \<Rightarrow> char list res" where
  "str_chars s =
     res_bind (of_some Null_deref s) (\<lambda>h.
       if NUL \<in> set (str_val h) then Inr (c_str (str_val h)) else Inl Bad_access)"

text \<open>\<^verbatim>\<open>dirname\<close> of the C library.\<close>

definition c_dirname :: "char list \<Rightarrow> char list" where
  "c_dirname p =
     (let q = strip_right (\<lambda>c. c = CHR ''/'') p;
          d = strip_right (\<lambda>c. c \<noteq> CHR ''/'') q;
          r = strip_right (\<lambda>c. c = CHR ''/'') d
      in if p = [] then ''.'' else if q = [] then ''/''
         else if d = [] then ''.'' else if r = [] then ''/'' else r)"

text \<open>
  The mode bits: \<^verbatim>\<open>S_IFMT\<close>, \<^verbatim>\<open>S_IFREG\<close> and \<^verbatim>\<open>S_IFDIR\<close> are the octal 0170000, 0100000 and
  0040000.
\<close>

definition atm_file_get_type :: "(char list \<Rightarrow> u32 option) \<Rightarrow> char list \<Rightarrow> int" where
  "atm_file_get_type lstat file =
     (case lstat file of None \<Rightarrow> ATM_FILE_UNKNOWN
      | Some mode \<Rightarrow>
          let fmt = and mode 61440 in
          if fmt = 32768 then ATM_FILE_REG else if fmt = 16384 then ATM_FILE_DIR else ATM_FILE_UNKNOWN)"

text \<open>\<^verbatim>\<open>O_NONBLOCK\<close> is 2048 (octal 04000).\<close>

definition O_NONBLOCK :: int where "O_NONBLOCK = 2048"

definition atm_file_nonblock ::
  "(int \<Rightarrow> 'k \<Rightarrow> int \<times> 'k) \<Rightarrow> (int \<Rightarrow> int \<Rightarrow> 'k \<Rightarrow> int \<times> 'k) \<Rightarrow> int \<Rightarrow> bool \<Rightarrow> 'k \<Rightarrow> int \<times> 'k" where
  "atm_file_nonblock getfl setfl fd nblk k =
     (case getfl fd k of (flags, k) \<Rightarrow>
        if flags = -1 then (ATM_ERROR, k)
        else
          let flags = (if nblk then or flags O_NONBLOCK else and flags (not O_NONBLOCK)) in
          case setfl fd flags k of (r, k) \<Rightarrow> if r = -1 then (ATM_ERROR, k) else (ATM_OK, k))"

text \<open>
  The buffer has \<^verbatim>\<open>PATH_MAX\<close> bytes, is not initialised, and \<^verbatim>\<open>readlink\<close> may fill all of it.
\<close>

definition atm_file_exe_path :: "char list option \<Rightarrow> atm_str res" where
  "atm_file_exe_path link =
     (case link of None \<Rightarrow> Inl Bad_access
      | Some p \<Rightarrow> if PATH_MAX \<le> length p then Inl Bad_access else atm_str_new (Some p))"

definition atm_file_path_append :: "char list \<Rightarrow> char list \<Rightarrow> atm_str res" where
  "atm_file_path_append parent file =
     res_bind (atm_str_new (Some parent)) (\<lambda>res.
     res_bind (atm_str_cats res (Some ''/'')) (\<lambda>res. atm_str_cats res (Some file)))"

definition atm_file_find ::
  "(char list \<Rightarrow> u32 option) \<Rightarrow> char list \<Rightarrow> char list \<Rightarrow> int \<Rightarrow> atm_str res" where
  "atm_file_find lstat dir file_name typ =
     res_bind (atm_file_path_append dir file_name) (\<lambda>file_path.
     res_map (\<lambda>p. if atm_file_get_type lstat p = typ then file_path else None) (str_chars file_path))"

text \<open>
  \<^verbatim>\<open>readdir\<close> gives the names of a directory and whether each is one itself; \<^verbatim>\<open>n\<close> bounds the
  depth of the directories.
\<close>

fun traverse_loop ::
  "(char list \<Rightarrow> 's \<Rightarrow> 's res) \<Rightarrow> (char list \<Rightarrow> 's \<Rightarrow> 's) option \<Rightarrow> char list \<Rightarrow> (char list \<times> bool) list \<Rightarrow> 's \<Rightarrow>
   's res" where
  "traverse_loop walk cb file [] s = Inr s"
| "traverse_loop walk cb file ((name, isdir) # es) s =
     (if name = ''.'' \<or> name = ''..'' then traverse_loop walk cb file es s
      else
        res_bind (atm_file_path_append file name) (\<lambda>nextfile.
        res_bind (str_chars nextfile) (\<lambda>p.
        res_bind
          (if isdir then walk p s else Inr (case cb of None \<Rightarrow> s | Some f \<Rightarrow> f p s))
          (traverse_loop walk cb file es))))"

primrec atm_file_traverse ::
  "nat \<Rightarrow> (char list \<Rightarrow> (char list \<times> bool) list option) \<Rightarrow> (char list \<Rightarrow> 's \<Rightarrow> 's) option \<Rightarrow> char list \<Rightarrow> 's \<Rightarrow>
   's res" where
  "atm_file_traverse 0 opendir cb file s = Inl No_return"
| "atm_file_traverse (Suc n) opendir cb file s =
     (case opendir file of None \<Rightarrow> Inr s
      | Some es \<Rightarrow> traverse_loop (atm_file_traverse n opendir cb) cb file es s)"

section \<open>The text of a path\<close>

lemma str_charsI: "c_str (str_val h) = t \<Longrightarrow> NUL \<in> set (str_val h) \<Longrightarrow> str_chars (Some h) = Inr t"
  by (simp add: str_chars_def)

lemma buf_strcat_NUL: "buf_strcat b s = Inr r \<Longrightarrow> NUL \<in> set r"
  by (auto simp: buf_strcat_def buf_strlen_def mem_write_def split: if_splits)

lemma atm_str_cats_NUL:
  assumes "atm_str_cats (Some h) (Some s) = Inr (Some h')"
  shows "NUL \<in> set (str_val h')"
  using assms buf_strcat_NUL
  by (auto simp: atm_str_cats_def str_append_def res_bind_eq_Inr res_map_eq_Inr Let_def)

lemma path_append_ok:
  assumes "NUL \<notin> set parent" "NUL \<notin> set file" "length parent + 2 * length file < 2 ^ 31"
  shows "\<exists>h. atm_file_path_append parent file = Inr (Some h)
    \<and> str_chars (Some h) = Inr (parent @ ''/'' @ file)"
proof -
  have l: "c_strlen parent < 2 ^ 32 - 32" using assms(1,3) by simp
  obtain h0 where h0: "atm_str_new (Some parent) = Inr (Some h0)" "wf_hdr h0" "str_abs h0 = parent"
      "c_strlen parent < unat (str_cap h0)"
    using atm_str_new_text [OF l] assms(1) by auto
  have n0: "unat (str_len h0) = length parent" using str_abs_length [OF h0(2)] h0(3) by simp
  have sl: "NUL \<notin> set ''/''" by (simp add: NUL_def)
  have sm: "unat (str_len h0) + 2 * length ''/'' < 2 ^ 32 - 32" using n0 assms(3) by simp
  obtain h1 where h1: "atm_str_cats (Some h0) (Some ''/'') = Inr (Some h1)"
      "c_str (str_val h1) = parent @ ''/''" "wf_hdr h1"
    using atm_str_cats_ok [OF h0(2) sl sm] h0(3,4) n0 assms(1) by auto
  have a1: "str_abs h1 = parent @ ''/''" using wf_hdr_c_str [OF h1(3)] h1(2) by simp
  have "unat (str_len h1) + 2 * length file < 2 ^ 32 - 32"
    using str_abs_length [OF h1(3)] a1 assms(3) by simp
  from atm_str_cats_ok [OF h1(3) assms(2) this] obtain h where
      h: "atm_str_cats (Some h1) (Some file) = Inr (Some h)" "c_str (str_val h) = parent @ ''/'' @ file"
    using a1 by auto
  have "str_chars (Some h) = Inr (parent @ ''/'' @ file)"
    by (rule str_charsI [OF h(2) atm_str_cats_NUL [OF h(1)]])
  then show ?thesis using h0(1) h1(1) h(1) by (simp add: atm_file_path_append_def)
qed

end
