(* ===== verification/Atm_Time.thy ===== *)
theory Atm_Time
  imports Atm_Prelude
begin

text \<open>
  \<^verbatim>\<open>src/core/atm_time.c\<close>: the pair of time stamps that measures a duration, in the unsigned
  64-bit arithmetic of the code. The clock is a parameter. The lemmas: two marks measure the
  milliseconds between them; a third mark can make the result wrap around.
\<close>

definition ATM_TIME_NANO_RES :: u64 where "ATM_TIME_NANO_RES = 1000000000"
definition ATM_TIME_MILI_RES :: u64 where "ATM_TIME_MILI_RES = 1000"

record time_spec =
  tv_sec :: int
  tv_nsec :: int

record atm_time_pair =
  tp_ts :: "time_spec list"
  tp_curr :: int

definition zero_ts :: time_spec where "zero_ts = \<lparr>tv_sec = 0, tv_nsec = 0\<rparr>"

definition atm_time_pair_reset :: "atm_time_pair option \<Rightarrow> atm_time_pair option" where
  "atm_time_pair_reset tp = map_option (\<lambda>_. \<lparr>tp_ts = [zero_ts, zero_ts], tp_curr = 0\<rparr>) tp"

definition atm_time_pair_new :: atm_time_pair where
  "atm_time_pair_new = \<lparr>tp_ts = [zero_ts, zero_ts], tp_curr = 0\<rparr>"

text \<open>\<^verbatim>\<open>now\<close> is what \<^verbatim>\<open>clock_gettime\<close> stores; \<^verbatim>\<open>curr\<close> is a signed 32-bit number, never negative.\<close>

definition atm_time_mark :: "time_spec \<Rightarrow> atm_time_pair \<Rightarrow> atm_time_pair res" where
  "atm_time_mark now tp =
     res_bind (write_at (tp_ts tp) (nat (tp_curr tp mod 2)) now) (\<lambda>ts.
       if tp_curr tp = 2 ^ 31 - 1 then Inl Signed_overflow
       else Inr \<lparr>tp_ts = ts, tp_curr = tp_curr tp + 1\<rparr>)"

definition atm_time_mval :: "atm_time_pair \<Rightarrow> (u64 \<times> atm_time_pair) res" where
  "atm_time_mval tp =
     res_bind (read_at (tp_ts tp) 0) (\<lambda>old_one.
     res_bind (read_at (tp_ts tp) 1) (\<lambda>new_one.
     let res = (if tv_sec new_one \<ge> tv_sec old_one then
           let sec_diff = of_int (tv_sec new_one - tv_sec old_one) :: u64;
               nr = sec_diff * ATM_TIME_NANO_RES + of_int (tv_nsec new_one);
               no = of_int (tv_nsec old_one)
           in ((nr - no) * ATM_TIME_MILI_RES) div ATM_TIME_NANO_RES
         else 0)
     in res_map (Pair res) (of_some Null_deref (atm_time_pair_reset (Some tp)))))"

section \<open>Measuring\<close>

definition ts_nano :: "time_spec \<Rightarrow> int" where
  "ts_nano t = tv_sec t * 1000000000 + tv_nsec t"

definition wf_ts :: "time_spec \<Rightarrow> bool" where
  "wf_ts t \<longleftrightarrow> 0 \<le> tv_nsec t \<and> tv_nsec t < 1000000000"

lemma ts_nano_sec: "wf_ts a \<Longrightarrow> wf_ts b \<Longrightarrow> ts_nano a \<le> ts_nano b \<Longrightarrow> tv_sec a \<le> tv_sec b"
  by (simp add: ts_nano_def wf_ts_def)

lemma u64_div_of_int:
  assumes "0 \<le> x" "x < 2 ^ 64"
  shows "(of_int x :: u64) div 1000000000 = of_int (x div 1000000000)"
proof -
  have "uint (of_int x :: u64) = x" using assms by (simp add: unsigned_of_int take_bit_int_eq_self)
  moreover have "x div 1000000000 < 2 ^ 64" using assms by (simp add: div_less_dividend)
  then have "uint (of_int (x div 1000000000) :: u64) = x div 1000000000"
    using assms by (simp add: unsigned_of_int take_bit_int_eq_self)
  ultimately show ?thesis by (intro word_uint_eqI) (simp add: uint_div)
qed

text \<open>
  Two marks and \<^verbatim>\<open>atm_time_mval\<close>: the result is the number of whole milliseconds
  from the first mark to the second, for any clock that does not run backwards and any time up to
  213 days; the pair is as new.
\<close>

theorem atm_time_mval_two_marks:
  assumes t: "wf_ts a" "wf_ts b" "ts_nano a \<le> ts_nano b" "(ts_nano b - ts_nano a) * 1000 < 2 ^ 64"
  shows "res_bind (atm_time_mark a atm_time_pair_new) (\<lambda>p. res_bind (atm_time_mark b p) atm_time_mval)
    = Inr (of_int ((ts_nano b - ts_nano a) div 1000000), atm_time_pair_new)"
proof -
  let ?d = "ts_nano b - ts_nano a"
  have "(of_int (tv_sec b - tv_sec a) * 1000000000 + of_int (tv_nsec b) - of_int (tv_nsec a)) * 1000
      = (of_int (?d * 1000) :: u64)"
    by (simp add: ts_nano_def algebra_simps)
  moreover have "(of_int (?d * 1000) :: u64) div 1000000000 = of_int (?d * 1000 div 1000000000)"
    by (rule u64_div_of_int) (use t in simp_all)
  moreover have "?d * 1000 div 1000000000 = ?d div 1000000" by simp
  ultimately show ?thesis using ts_nano_sec [OF t(1-3)]
    by (simp add: atm_time_mark_def atm_time_mval_def atm_time_pair_new_def atm_time_pair_reset_def Let_def
        ATM_TIME_NANO_RES_def ATM_TIME_MILI_RES_def)
qed

theorem atm_time_mval_two_marks_witness:
  "res_bind (atm_time_mark \<lparr>tv_sec = 7, tv_nsec = 999000000\<rparr> atm_time_pair_new)
     (\<lambda>p. res_bind (atm_time_mark \<lparr>tv_sec = 9, tv_nsec = 1500000\<rparr> p) atm_time_mval)
   = Inr (1002, atm_time_pair_new)"
  using atm_time_mval_two_marks [of "\<lparr>tv_sec = 7, tv_nsec = 999000000\<rparr>" "\<lparr>tv_sec = 9, tv_nsec = 1500000\<rparr>"]
  by (simp add: wf_ts_def ts_nano_def)

text \<open>
  With a third mark in the same second the newer time stamp is the old one of the difference,
  which wraps around.
\<close>

lemma atm_time_mval_third_mark:
  "\<exists>v. res_bind (atm_time_mark \<lparr>tv_sec = 5, tv_nsec = 0\<rparr> atm_time_pair_new) (\<lambda>p.
      res_bind (atm_time_mark \<lparr>tv_sec = 5, tv_nsec = 1000000\<rparr> p) (\<lambda>p.
      res_bind (atm_time_mark \<lparr>tv_sec = 5, tv_nsec = 2000000\<rparr> p) atm_time_mval)) = Inr v
    \<and> fst v = 18446744072"
  by (simp add: atm_time_mark_def atm_time_mval_def atm_time_pair_new_def atm_time_pair_reset_def Let_def
      ATM_TIME_NANO_RES_def ATM_TIME_MILI_RES_def)

end
