(* ===== verification/Atm_Log.thy ===== *)
theory Atm_Log
  imports Atm_File
begin

text \<open>
  \<^verbatim>\<open>src/core/atm_log.c\<close>: the levels and the two logs. A log is the list of the lines written to
  it; the time of a line and the formatted text of \<^verbatim>\<open>vsnprintf\<close> are arguments. The lemmas: which
  messages of a level reach the log, what a line is, and that the names of the levels are
  parsed back.
\<close>

definition ATM_LOG_OFF :: u32 where "ATM_LOG_OFF = 0"
definition ATM_LOG_ALL :: u32 where "ATM_LOG_ALL = 1"
definition ATM_LOG_DEBUG :: u32 where "ATM_LOG_DEBUG = 2"
definition ATM_LOG_INFO :: u32 where "ATM_LOG_INFO = 3"
definition ATM_LOG_WARN :: u32 where "ATM_LOG_WARN = 4"
definition ATM_LOG_ERROR :: u32 where "ATM_LOG_ERROR = 5"
definition ATM_LOG_FATAL :: u32 where "ATM_LOG_FATAL = 6"
definition ATM_LOG_MAXLEN :: nat where "ATM_LOG_MAXLEN = 1024"

definition ATM_LOG_LV_ENUM :: "string list" where
  "ATM_LOG_LV_ENUM = [''OFF'', ''ALL'', ''DEBUG'', ''INFO'', ''WARN'', ''ERROR'', ''FATAL'']"

definition atm_log_strlv :: "u32 \<Rightarrow> string res" where
  "atm_log_strlv level =
     (let lvs_size = of_nat (length ATM_LOG_LV_ENUM);
          level = (if level \<ge> lvs_size then lvs_size - 1 else level)
      in read_at ATM_LOG_LV_ENUM (unat level))"

text \<open>
  The two files and what was written: \<^verbatim>\<open>logpath\<close> and \<^verbatim>\<open>errpath\<close> are open or NULL, and a line
  goes to the file or, when it is not open, to \<^verbatim>\<open>stdout\<close> or \<^verbatim>\<open>stderr\<close>.
\<close>

datatype sink = To_stdout | To_stderr | To_logpath | To_errpath

record log_st =
  lg_logpath :: bool
  lg_errpath :: bool
  lg_lines :: "(sink \<times> string) list"

text \<open>\<^verbatim>\<open>loglevel\<close> is the signed number of the configuration, stored in an unsigned variable.\<close>

definition atm_log_rout_raw :: "int \<Rightarrow> string \<Rightarrow> u32 \<Rightarrow> string option \<Rightarrow> log_st \<Rightarrow> log_st res" where
  "atm_log_rout_raw loglevel now lv msg s =
     (let llv = of_int loglevel :: u32 in
      case msg of None \<Rightarrow> Inr s
      | Some m \<Rightarrow>
          if llv \<noteq> 0 \<and> lv \<noteq> 0 then
            if llv \<le> lv then
              res_map (\<lambda>l. s\<lparr>lg_lines := lg_lines s @
                  [(if \<not> lg_logpath s then To_stdout else To_logpath,
                    ''['' @ l @ ''] '' @ now @ '' : '' @ m @ [CHR 0x0A])]\<rparr>)
                (atm_log_strlv lv)
            else Inr s
          else Inr s)"

text \<open>\<^verbatim>\<open>vsnprintf\<close> into the zeroed buffer keeps at most \<^verbatim>\<open>ATM_LOG_MAXLEN - 1\<close> characters.\<close>

definition log_msg :: "char list \<Rightarrow> string" where
  "log_msg formatted = take (ATM_LOG_MAXLEN - 1) (c_str formatted)"

definition atm_log :: "int \<Rightarrow> string \<Rightarrow> char list \<Rightarrow> log_st \<Rightarrow> log_st res" where
  "atm_log loglevel now formatted s = atm_log_rout_raw loglevel now ATM_LOG_INFO (Some (log_msg formatted)) s"

definition atm_log_rout :: "int \<Rightarrow> string \<Rightarrow> u32 \<Rightarrow> char list \<Rightarrow> log_st \<Rightarrow> log_st res" where
  "atm_log_rout loglevel now level formatted s =
     atm_log_rout_raw loglevel now level (Some (log_msg formatted)) s"

definition atm_log_err :: "string \<Rightarrow> char list \<Rightarrow> log_st \<Rightarrow> log_st" where
  "atm_log_err now formatted s =
     s\<lparr>lg_lines := lg_lines s @
       [(if \<not> lg_errpath s then To_stderr else To_errpath, now @ '' : '' @ log_msg formatted @ [CHR 0x0A])]\<rparr>"

text \<open>The search for a level: a comparison of C strings per name.\<close>

fun parse_level_loop :: "char list \<Rightarrow> nat \<Rightarrow> string list \<Rightarrow> int res" where
  "parse_level_loop slv i [] = Inr (-1)"
| "parse_level_loop slv i (n # ns) =
     res_bind (buf_strcmp slv (n @ [NUL])) (\<lambda>c.
       if c = 0 then Inr (int i) else parse_level_loop slv (Suc i) ns)"

definition atm_log_parse_level :: "char list option \<Rightarrow> int res" where
  "atm_log_parse_level lv =
     res_bind (atm_str_new lv) (\<lambda>slv.
       case slv of None \<Rightarrow> Inr (-1)
       | Some h \<Rightarrow>
           res_bind (atm_str_toupper (Some h)) (\<lambda>u.
           res_bind (of_some Null_deref u) (\<lambda>h. parse_level_loop (str_val h) 0 ATM_LOG_LV_ENUM)))"

text \<open>
  The start: \<^verbatim>\<open>link\<close> is the path of the program, \<^verbatim>\<open>fopen\<close> says which paths can be opened, and
  \<^verbatim>\<open>errlog\<close> is the macro \<^verbatim>\<open>ATM_ERROR_LOG_PATH\<close>, when it is defined. It is a literal, and
  \<^verbatim>\<open>atm_str_isempty\<close> reads the string header in front of it.
\<close>

definition atm_log_init ::
  "char list option \<Rightarrow> (char list \<Rightarrow> bool) \<Rightarrow> string option \<Rightarrow> atm_str \<Rightarrow> log_st \<Rightarrow> log_st res" where
  "atm_log_init link fopen errlog logfile s =
     res_bind (atm_file_exe_path link) (\<lambda>exepath.
     res_bind (str_chars exepath) (\<lambda>p.
     let exedir = c_dirname p in
     res_bind (if lg_logpath s then Inr True else atm_str_isempty logfile) (\<lambda>skip.
     res_bind
       (if skip then Inr s
        else
          res_bind (str_chars logfile) (\<lambda>f.
            if PATH_MAX \<le> length (''../logs/'' @ f) then Inl Bad_access
            else
              res_bind (atm_file_path_append exedir (''../logs/'' @ f)) (\<lambda>lp.
              res_map (\<lambda>lp. s\<lparr>lg_logpath := fopen lp\<rparr>) (str_chars lp)))) (\<lambda>s.
       case errlog of None \<Rightarrow> Inr s
       | Some lit \<Rightarrow> if lg_errpath s then Inr s else Inl Bad_access))))"

section \<open>Levels and lines\<close>

lemma strlv_ok: "atm_log_strlv lv = Inr (ATM_LOG_LV_ENUM ! min 6 (unat lv))"
proof (cases "lv \<ge> 7")
  case True
  then show ?thesis by (simp add: atm_log_strlv_def ATM_LOG_LV_ENUM_def word_le_nat_alt min_absorb1)
next
  case False
  then have "unat lv < 7" by (simp add: word_le_nat_alt)
  then show ?thesis using False by (simp add: atm_log_strlv_def ATM_LOG_LV_ENUM_def min_absorb2)
qed

text \<open>
  A message of a level is written exactly if logging is not off, the level is not
  0 and is at least the configured one: then one line with the name of the level (the last name
  for numbers behind it), the time and at most 1023 characters of the message goes to the log
  file, or to the standard output when it is not open. Nothing else changes.
\<close>

theorem atm_log_rout_writes:
  assumes "0 \<le> loglevel" "loglevel \<le> 6"
  shows "atm_log_rout loglevel now level msg s =
    Inr (if loglevel = 0 \<or> level = 0 \<or> unat level < nat loglevel then s
         else s\<lparr>lg_lines := lg_lines s @
           [(if lg_logpath s then To_logpath else To_stdout,
             ''['' @ ATM_LOG_LV_ENUM ! min 6 (unat level) @ ''] '' @ now @ '' : ''
               @ take 1023 (c_str msg) @ [CHR 0x0A])]\<rparr>)"
proof -
  have u: "unat (of_int loglevel :: u32) = nat loglevel"
    using assms by (simp add: unsigned_of_int take_bit_int_eq_self)
  have z: "(of_int loglevel :: u32) = 0 \<longleftrightarrow> loglevel = 0" using u assms by (simp flip: unat_eq_zero)
  show ?thesis
    by (simp add: atm_log_rout_def atm_log_rout_raw_def Let_def z strlv_ok word_le_nat_alt u not_le
        log_msg_def ATM_LOG_MAXLEN_def)
qed

theorem atm_log_rout_writes_witness:
  "\<exists>s. atm_log_rout 4 ''12:00'' ATM_LOG_ERROR ''bind'' \<lparr>lg_logpath = False, lg_errpath = False, lg_lines = []\<rparr>
     = Inr s \<and> lg_lines s = [(To_stdout, ''[ERROR] 12:00 : bind'' @ [CHR 0x0A])]"
  using atm_log_rout_writes [of 4 "''12:00''" ATM_LOG_ERROR "''bind''" "\<lparr>lg_logpath = False, lg_errpath = False, lg_lines = []\<rparr>"]
  by (simp add: ATM_LOG_ERROR_def ATM_LOG_LV_ENUM_def NUL_def)

lemma parse_level_loop_text:
  assumes "NUL \<notin> set t" "\<forall>n \<in> set ns. NUL \<notin> set n"
  shows "parse_level_loop (t @ NUL # r) i ns =
    Inr (case List.extract (\<lambda>n. n = t) ns of None \<Rightarrow> -1 | Some (a, _, _) \<Rightarrow> int (i + length a))"
  using assms(2)
proof (induction ns arbitrary: i)
  case (Cons n ns)
  have c: "buf_strcmp (t @ NUL # r) (n @ NUL # []) = Inr (c_strcmp t n)"
    using buf_strcmp_text [of t n r "[]"] assms(1) Cons.prems by simp
  have z: "c_strcmp t n = 0 \<longleftrightarrow> t = n" using assms(1) Cons.prems by (intro c_strcmp_0_iff) auto
  show ?case using Cons c z by (auto simp: extract_Cons_code split: option.splits)
qed (simp add: extract_Nil_code)

lemma enum_no_NUL: "\<forall>n \<in> set ATM_LOG_LV_ENUM. NUL \<notin> set n"
  by (simp add: ATM_LOG_LV_ENUM_def NUL_def)

lemma parse_level_text:
  assumes "NUL \<notin> set t" "length t < 2 ^ 31"
  shows "atm_log_parse_level (Some t) =
    Inr (case List.extract (\<lambda>n. n = map char_upper t) ATM_LOG_LV_ENUM of None \<Rightarrow> -1 | Some (a, _, _) \<Rightarrow> int (length a))"
proof -
  have l: "c_strlen t < 2 ^ 32 - 32" using assms by simp
  obtain h where h: "atm_str_new (Some t) = Inr (Some h)" "wf_hdr h" "str_abs h = t"
    using atm_str_new_text [OF l] assms(1) by auto
  obtain u where u: "atm_str_toupper (Some h) = Inr (Some u)" "wf_hdr u" "str_abs u = map char_upper t"
    using atm_str_toupper_wf [OF h(2)] h(3) by auto
  have v: "str_val u = map char_upper t @ NUL # drop (Suc (unat (str_len u))) (str_val u)"
    using wf_hdr_val [OF u(2)] u(3) by simp
  have n: "NUL \<notin> set (map char_upper t)" using str_abs_NUL [OF u(2)] u(3) by simp
  have "parse_level_loop (str_val u) 0 ATM_LOG_LV_ENUM =
      Inr (case List.extract (\<lambda>n. n = map char_upper t) ATM_LOG_LV_ENUM of None \<Rightarrow> -1 | Some (a, _, _) \<Rightarrow> int (0 + length a))"
    by (subst v) (rule parse_level_loop_text [OF n enum_no_NUL])
  then show ?thesis unfolding atm_log_parse_level_def h(1) res_bind_simps option.case u(1) of_some_simps add_0 .
qed

text \<open>
  Parsing inverts printing: the name of each level, in any mixture of cases, is
  parsed to the level.
\<close>

theorem atm_log_level_roundtrip:
  assumes "i < 7" "map char_upper t = ATM_LOG_LV_ENUM ! i"
  shows "atm_log_parse_level (Some t) = Inr (int i) \<and> atm_log_strlv (of_nat i) = Inr (map char_upper t)"
proof -
  have mem: "ATM_LOG_LV_ENUM ! i \<in> set ATM_LOG_LV_ENUM"
    using assms(1) by (intro nth_mem) (simp add: ATM_LOG_LV_ENUM_def)
  then have "NUL \<notin> set (map char_upper t)" using enum_no_NUL assms(2) by simp
  then have n: "NUL \<notin> set t" using char_upper_NUL by (metis image_eqI list.set_map)
  have "\<forall>n \<in> set ATM_LOG_LV_ENUM. length n < 2 ^ 31" by (simp add: ATM_LOG_LV_ENUM_def)
  then have "length (map char_upper t) < 2 ^ 31" using mem assms(2) by simp
  then have l: "length t < 2 ^ 31" by simp
  have i: "i \<in> {0, 1, 2, 3, 4, 5, 6}" using assms(1) by auto
  then have "List.extract (\<lambda>n. n = map char_upper t) ATM_LOG_LV_ENUM
      = Some (take i ATM_LOG_LV_ENUM, ATM_LOG_LV_ENUM ! i, drop (Suc i) ATM_LOG_LV_ENUM)"
    unfolding assms(2) by (auto simp: ATM_LOG_LV_ENUM_def extract_Cons_code)
  moreover have "length (take i ATM_LOG_LV_ENUM) = i" using i by (auto simp: ATM_LOG_LV_ENUM_def)
  moreover have "unat (of_nat i :: u32) = i" using assms(1) by (intro unat_of_nat_small) simp
  ultimately show ?thesis using parse_level_text [OF n l] strlv_ok [of "of_nat i"] assms by simp
qed

theorem atm_log_level_roundtrip_witness: "atm_log_parse_level (Some ''debug'') = Inr 2"
proof -
  have "map char_upper ''debug'' = ATM_LOG_LV_ENUM ! 2" by code_simp
  from atm_log_level_roundtrip [OF _ this] show ?thesis by simp
qed

end
