(* ===== verification/Atm_Config.thy ===== *)
theory Atm_Config
  imports Atm_Log Atm_Util Atm_Str_Words
begin

text \<open>
  \<^verbatim>\<open>src/core/atm_config.c\<close>: the arguments of the program, the path of the configuration file and
  the parser of its lines. The chain of tests for the directives is a table in the same order.
  Pointers that may be freed or were never set are a datatype, and using such a pointer is a
  fault.
\<close>

section \<open>The configuration\<close>

definition ATM_CONFIG_MAXBINDADDR :: nat where "ATM_CONFIG_MAXBINDADDR = 16"
definition ATM_CONFIG_MAXLINE :: nat where "ATM_CONFIG_MAXLINE = 1024"

datatype 's ptr = Live "'s option" | Freed | Uninit

definition ptr_get :: "'s ptr \<Rightarrow> 's option res" where
  "ptr_get p = (case p of Live s \<Rightarrow> Inr s | Freed \<Rightarrow> Inl Bad_access | Uninit \<Rightarrow> Inl Bad_access)"

text \<open>The strings are of any type: string objects in the code, texts in the specification.\<close>

record 's atm_config =
  cf_configfile :: "'s ptr"
  cf_pidfile :: "'s option"
  cf_daemonize :: int
  cf_bindaddr :: "'s option list option"
  cf_bindaddr_count :: nat
  cf_port :: int
  cf_tcpbacklog :: int
  cf_maxidletime :: int
  cf_tcpkeepalive :: int
  cf_maxclients :: int
  cf_loglevel :: int
  cf_logfile :: "'s option"
  cf_maxmemory :: u64
  cf_workernum :: int

type_synonym config = "atm_str_hdr atm_config"

text \<open>\<^verbatim>\<open>atm_alloc\<close> zeroes the structure.\<close>

definition config_zero :: "'s atm_config" where
  "config_zero = \<lparr>cf_configfile = Live None, cf_pidfile = None, cf_daemonize = 0, cf_bindaddr = None,
     cf_bindaddr_count = 0, cf_port = 0, cf_tcpbacklog = 0, cf_maxidletime = 0, cf_tcpkeepalive = 0,
     cf_maxclients = 0, cf_loglevel = 0, cf_logfile = None, cf_maxmemory = 0, cf_workernum = 0\<rparr>"

section \<open>Arguments\<close>

text \<open>The arguments behind the name of the program.\<close>

fun atm_config_parse_arg :: "char list list \<Rightarrow> config \<Rightarrow> config res" where
  "atm_config_parse_arg [] cfg = Inr cfg"
| "atm_config_parse_arg (a # as) cfg =
     (if c_str a = ''-f'' then
        (case as of [] \<Rightarrow> Inl (Exit ATM_ERROR)
         | f # as \<Rightarrow>
             res_bind (atm_str_new (Some f)) (\<lambda>s. atm_config_parse_arg as (cfg\<lparr>cf_configfile := Live s\<rparr>)))
      else if c_str a = ''--help'' then Inl (Exit ATM_OK)
      else if take 1 (c_str a) = ''-'' then Inl (Exit ATM_ERROR)
      else Inr cfg)"

section \<open>Directives\<close>

definition atm_config_yesnotoi :: "char list \<Rightarrow> int" where
  "atm_config_yesnotoi s = (if c_strcaseeq s ''yes'' then 1 else if c_strcaseeq s ''no'' then 0 else -1)"

text \<open>\<^verbatim>\<open>atoi\<close>: a value that an \<^verbatim>\<open>int\<close> cannot hold is undefined behaviour.\<close>

definition c_atoi :: "char list \<Rightarrow> int res" where
  "c_atoi s =
     (let v = fst (c_strtoll (c_str s)) in if - (2 ^ 31) \<le> v \<and> v < 2 ^ 31 then Inr v else Inl Signed_overflow)"

definition conf_error :: "'a res" where "conf_error = Inl (Exit ATM_ERROR)"

definition prop_at :: "atm_str list \<Rightarrow> nat \<Rightarrow> char list res" where
  "prop_at props i = res_bind (read_at props i) str_chars"

definition prop_dup :: "atm_str list \<Rightarrow> nat \<Rightarrow> atm_str res" where
  "prop_dup props i = res_bind (read_at props i) atm_str_dup"

text \<open>A numeric directive: the field is set first and then checked.\<close>

definition conf_int :: "(int \<Rightarrow> bool) \<Rightarrow> (int \<Rightarrow> config \<Rightarrow> config) \<Rightarrow> atm_str list \<Rightarrow> nat \<Rightarrow> config \<Rightarrow> config res" where
  "conf_int bad set_field props psize cfg =
     res_bind (prop_at props 1) (\<lambda>t. res_bind (c_atoi t) (\<lambda>v.
       if bad v then conf_error else Inr (set_field v cfg)))"

definition BIND_TRIM :: "char list" where
  "BIND_TRIM = [CHR '' '', CHR 0x09, CHR 0x0D, CHR 0x0A, CHR 0x22]"

fun bind_loop :: "atm_str list \<Rightarrow> nat \<Rightarrow> nat \<Rightarrow> atm_str list \<Rightarrow> atm_str list res" where
  "bind_loop props 0 j bas = Inr bas"
| "bind_loop props (Suc n) j bas =
     res_bind (prop_dup props (Suc j)) (\<lambda>baddr.
     res_bind (atm_str_trim baddr BIND_TRIM) (\<lambda>baddr.
     res_bind (write_at bas j baddr) (bind_loop props n (Suc j))))"

definition conf_bind :: "atm_str list \<Rightarrow> nat \<Rightarrow> config \<Rightarrow> config res" where
  "conf_bind props psize cfg =
     (let addresses = int psize - 1 in
      if addresses > int ATM_CONFIG_MAXBINDADDR then conf_error
      else if addresses > 0 then
        res_map (\<lambda>bas. cfg\<lparr>cf_bindaddr := Some bas, cf_bindaddr_count := nat addresses\<rparr>)
          (bind_loop props (nat addresses) 0 (replicate ATM_CONFIG_MAXBINDADDR None))
      else conf_error)"

definition conf_pidfile :: "atm_str list \<Rightarrow> nat \<Rightarrow> config \<Rightarrow> config res" where
  "conf_pidfile props psize cfg = res_map (\<lambda>s. cfg\<lparr>cf_pidfile := s\<rparr>) (prop_dup props 1)"

definition conf_daemonize :: "atm_str list \<Rightarrow> nat \<Rightarrow> config \<Rightarrow> config res" where
  "conf_daemonize props psize cfg =
     res_bind (prop_at props 1) (\<lambda>t.
       let v = atm_config_yesnotoi t in if v = -1 then conf_error else Inr (cfg\<lparr>cf_daemonize := v\<rparr>))"

definition conf_loglevel :: "atm_str list \<Rightarrow> nat \<Rightarrow> config \<Rightarrow> config res" where
  "conf_loglevel props psize cfg =
     res_bind (prop_at props 1) (\<lambda>t. res_bind (atm_log_parse_level (Some t)) (\<lambda>v.
       if v < 0 \<or> v > uint ATM_LOG_FATAL then conf_error else Inr (cfg\<lparr>cf_loglevel := v\<rparr>)))"

definition conf_logfile :: "atm_str list \<Rightarrow> nat \<Rightarrow> config \<Rightarrow> config res" where
  "conf_logfile props psize cfg = res_map (\<lambda>s. cfg\<lparr>cf_logfile := s\<rparr>) (prop_dup props 1)"

definition conf_maxmemory :: "atm_str list \<Rightarrow> nat \<Rightarrow> config \<Rightarrow> config res" where
  "conf_maxmemory props psize cfg =
     res_bind (prop_at props 1) (\<lambda>t.
     res_map (\<lambda>(v, _). cfg\<lparr>cf_maxmemory := of_int v\<rparr>) (atm_util_memtoll t))"

text \<open>The name, whether exactly one argument is asked for, and what is done.\<close>

definition conf_directives ::
  "(string \<times> bool \<times> (atm_str list \<Rightarrow> nat \<Rightarrow> config \<Rightarrow> config res)) list" where
  "conf_directives =
     [(''pidfile'', True, conf_pidfile),
      (''daemonize'', True, conf_daemonize),
      (''bind'', False, conf_bind),
      (''port'', True, conf_int (\<lambda>v. v < 0 \<or> v > 65535) (\<lambda>v c. c\<lparr>cf_port := v\<rparr>)),
      (''tcpbacklog'', True, conf_int (\<lambda>v. v < 0) (\<lambda>v c. c\<lparr>cf_tcpbacklog := v\<rparr>)),
      (''timeout'', True, conf_int (\<lambda>v. v < 0) (\<lambda>v c. c\<lparr>cf_maxidletime := v\<rparr>)),
      (''tcpkeepalive'', True, conf_int (\<lambda>v. v < 0) (\<lambda>v c. c\<lparr>cf_tcpkeepalive := v\<rparr>)),
      (''maxclients'', True, conf_int (\<lambda>v. v < 1) (\<lambda>v c. c\<lparr>cf_maxclients := v\<rparr>)),
      (''loglevel'', True, conf_loglevel),
      (''logfile'', True, conf_logfile),
      (''maxmemory'', True, conf_maxmemory),
      (''workernum'', True, conf_int (\<lambda>v. v < 1) (\<lambda>v c. c\<lparr>cf_workernum := v\<rparr>))]"

fun conf_apply ::
  "(string \<times> bool \<times> (atm_str list \<Rightarrow> nat \<Rightarrow> 'c \<Rightarrow> 'c res)) list \<Rightarrow> atm_str \<Rightarrow> atm_str list \<Rightarrow> nat \<Rightarrow> 'c \<Rightarrow> 'c res" where
  "conf_apply [] pname props psize cfg = Inr cfg"
| "conf_apply ((n, two, f) # ds) pname props psize cfg =
     res_bind (atm_str_eqs pname n) (\<lambda>eq.
       if eq \<and> (two \<longrightarrow> psize = 2) then f props psize cfg else conf_apply ds pname props psize cfg)"

section \<open>Lines\<close>

definition LINE_TRIM :: "char list" where
  "LINE_TRIM = [CHR '' '', CHR 0x09, CHR 0x0D, CHR 0x0A]"

definition conf_line :: "atm_str \<Rightarrow> config \<Rightarrow> config res" where
  "conf_line ls cfg =
     res_bind (atm_str_trim ls LINE_TRIM) (\<lambda>l.
     res_bind (of_some Null_deref l) (\<lambda>h.
     res_bind (read_at (str_val h) 0) (\<lambda>c0.
       if c0 = CHR ''#'' \<or> c0 = NUL then Inr cfg
       else
         res_bind (atm_str_split (str_val h) CHR '' '' (unat (str_len h))) (\<lambda>props.
         res_bind (atm_str_split_size props) (\<lambda>psize.
         res_bind (of_some Null_deref props) (\<lambda>ps.
         res_bind (read_at ps 0) (\<lambda>p0.
         res_bind (atm_str_tolower p0) (\<lambda>pname.
         let ps = ps[0 := pname] in
         res_bind (conf_apply conf_directives pname ps psize cfg) (\<lambda>cfg.
         res_map (\<lambda>_. cfg) (atm_str_split_free (Some ps))))))))))) "

fun conf_lines :: "atm_str list \<Rightarrow> config \<Rightarrow> config res" where
  "conf_lines [] cfg = Inl Bad_access"
| "conf_lines (None # ls) cfg = Inr cfg"
| "conf_lines (Some h # ls) cfg = res_bind (conf_line (Some h) cfg) (conf_lines ls)"

definition atm_config_process :: "atm_str \<Rightarrow> config \<Rightarrow> config res" where
  "atm_config_process conf_str cfg =
     res_bind (of_some Null_deref conf_str) (\<lambda>h.
     res_bind (atm_str_split (str_val h) (CHR 0x0A) (unat (str_len h))) (\<lambda>lines.
       case lines of None \<Rightarrow> Inr cfg
       | Some ls \<Rightarrow>
           res_bind (conf_lines ls cfg) (\<lambda>cfg. res_map (\<lambda>_. cfg) (atm_str_split_free (Some ls)))))"

section \<open>The file\<close>

text \<open>
  \<^verbatim>\<open>conf_name\<close> is the macro \<^verbatim>\<open>ATM_CONF_PATH\<close> of the build. The two strings at the end are local
  pointers that are set only when no file was given; then one of them is the pointer that was
  stored in the configuration.
\<close>

definition atm_config_path ::
  "char list option \<Rightarrow> (char list \<Rightarrow> u32 option) \<Rightarrow> char list \<Rightarrow> config \<Rightarrow> config res" where
  "atm_config_path link lstat conf_name cfg =
     res_bind (ptr_get (cf_configfile cfg)) (\<lambda>f.
     res_bind (atm_str_isempty f) (\<lambda>empty.
     res_bind
       (if empty then
          res_bind (atm_file_exe_path link) (\<lambda>exe_path.
          res_bind (str_chars exe_path) (\<lambda>p.
          if PATH_MAX \<le> length (''../'' @ conf_name) then Inl Bad_access
          else
            res_bind (atm_file_find lstat (c_dirname p) (''../'' @ conf_name) ATM_FILE_REG) (\<lambda>conf_path.
            res_bind (atm_str_isempty conf_path) (\<lambda>none.
              if none then Inl (Exit ATM_ERROR)
              else Inr (Live conf_path, Live exe_path, cfg\<lparr>cf_configfile := Live conf_path\<rparr>)))))
        else Inr (Uninit, Uninit, cfg)) (\<lambda>(conf_path, exe_path, cfg).
     res_bind (ptr_get conf_path) (\<lambda>_.
     res_map (\<lambda>_. cfg\<lparr>cf_configfile := Freed\<rparr>) (ptr_get exe_path)))))"

text \<open>\<^verbatim>\<open>fopen\<close> gives the pieces that \<^verbatim>\<open>fgets\<close> returns, or none.\<close>

fun conf_read :: "char list list \<Rightarrow> atm_str \<Rightarrow> atm_str res" where
  "conf_read [] conf = Inr conf"
| "conf_read (buf # bufs) conf = res_bind (atm_str_cats conf (Some buf)) (conf_read bufs)"

definition atm_config_load_file ::
  "char list option \<Rightarrow> (char list \<Rightarrow> u32 option) \<Rightarrow> char list \<Rightarrow> (char list \<Rightarrow> char list list option) \<Rightarrow>
   config \<Rightarrow> config res" where
  "atm_config_load_file link lstat conf_name fopen cfg =
     res_bind (atm_config_path link lstat conf_name cfg) (\<lambda>cfg.
     res_bind (atm_str_new (Some [])) (\<lambda>conf.
     res_bind
       (if cf_configfile cfg = Live None then Inr conf
        else
          res_bind (ptr_get (cf_configfile cfg)) (\<lambda>s.
          res_bind (str_chars s) (\<lambda>path.
            case fopen path of None \<Rightarrow> Inl (Exit ATM_ERROR)
            | Some bufs \<Rightarrow> conf_read bufs conf))) (\<lambda>conf.
     atm_config_process conf cfg)))"

definition atm_config_init ::
  "char list list \<Rightarrow> char list option \<Rightarrow> (char list \<Rightarrow> u32 option) \<Rightarrow> char list \<Rightarrow>
   (char list \<Rightarrow> char list list option) \<Rightarrow> config res" where
  "atm_config_init argv link lstat conf_name fopen =
     res_bind (atm_config_parse_arg (tl argv) config_zero)
       (atm_config_load_file link lstat conf_name fopen)"

end
