(* ===== verification/Atm_Config_Props.thy ===== *)
theory Atm_Config_Props
  imports Atm_Config
begin

text \<open>
  The configuration parser refines a specification on texts: the string objects of the code are
  replaced by their texts, and the memory they live in disappears. What follows from it: the
  settings of an accepted configuration are in their ranges.
\<close>

section \<open>The specification\<close>

type_synonym settings = "char list atm_config"

definition strip :: "char list \<Rightarrow> char list \<Rightarrow> char list" where
  "strip cset t = strip_right (in_cset cset) (dropWhile (in_cset cset) t)"

definition spec_int ::
  "(int \<Rightarrow> bool) \<Rightarrow> (int \<Rightarrow> settings \<Rightarrow> settings) \<Rightarrow> char list list \<Rightarrow> settings \<Rightarrow> settings res" where
  "spec_int bad set_field ws a =
     res_bind (c_atoi (ws ! 1)) (\<lambda>v. if bad v then conf_error else Inr (set_field v a))"

definition spec_bind :: "char list list \<Rightarrow> settings \<Rightarrow> settings res" where
  "spec_bind ws a =
     (let bs = tl ws in
      if length bs > 16 \<or> bs = [] then conf_error
      else Inr (a\<lparr>cf_bindaddr := Some (map (Some \<circ> strip BIND_TRIM) bs @ replicate (16 - length bs) None),
          cf_bindaddr_count := length bs\<rparr>))"

definition spec_daemonize :: "char list list \<Rightarrow> settings \<Rightarrow> settings res" where
  "spec_daemonize ws a =
     (let v = atm_config_yesnotoi (ws ! 1) in if v = -1 then conf_error else Inr (a\<lparr>cf_daemonize := v\<rparr>))"

definition spec_loglevel :: "char list list \<Rightarrow> settings \<Rightarrow> settings res" where
  "spec_loglevel ws a =
     res_bind (atm_log_parse_level (Some (ws ! 1))) (\<lambda>v.
       if v < 0 \<or> v > 6 then conf_error else Inr (a\<lparr>cf_loglevel := v\<rparr>))"

definition spec_maxmemory :: "char list list \<Rightarrow> settings \<Rightarrow> settings res" where
  "spec_maxmemory ws a = res_map (\<lambda>(v, _). a\<lparr>cf_maxmemory := of_int v\<rparr>) (atm_util_memtoll (ws ! 1))"

definition spec_directives :: "(string \<times> bool \<times> (char list list \<Rightarrow> settings \<Rightarrow> settings res)) list" where
  "spec_directives =
     [(''pidfile'', True, \<lambda>ws a. Inr (a\<lparr>cf_pidfile := Some (ws ! 1)\<rparr>)),
      (''daemonize'', True, spec_daemonize),
      (''bind'', False, spec_bind),
      (''port'', True, spec_int (\<lambda>v. v < 0 \<or> v > 65535) (\<lambda>v c. c\<lparr>cf_port := v\<rparr>)),
      (''tcpbacklog'', True, spec_int (\<lambda>v. v < 0) (\<lambda>v c. c\<lparr>cf_tcpbacklog := v\<rparr>)),
      (''timeout'', True, spec_int (\<lambda>v. v < 0) (\<lambda>v c. c\<lparr>cf_maxidletime := v\<rparr>)),
      (''tcpkeepalive'', True, spec_int (\<lambda>v. v < 0) (\<lambda>v c. c\<lparr>cf_tcpkeepalive := v\<rparr>)),
      (''maxclients'', True, spec_int (\<lambda>v. v < 1) (\<lambda>v c. c\<lparr>cf_maxclients := v\<rparr>)),
      (''loglevel'', True, spec_loglevel),
      (''logfile'', True, \<lambda>ws a. Inr (a\<lparr>cf_logfile := Some (ws ! 1)\<rparr>)),
      (''maxmemory'', True, spec_maxmemory),
      (''workernum'', True, spec_int (\<lambda>v. v < 1) (\<lambda>v c. c\<lparr>cf_workernum := v\<rparr>))]"

fun spec_apply ::
  "(string \<times> bool \<times> (char list list \<Rightarrow> 'a \<Rightarrow> 'a res)) list \<Rightarrow> char list list \<Rightarrow> 'a \<Rightarrow> 'a res" where
  "spec_apply [] ws a = Inr a"
| "spec_apply ((n, two, f) # ds) ws a =
     (if hd ws = n \<and> (two \<longrightarrow> length ws = 2) then f ws a else spec_apply ds ws a)"

text \<open>A line: comments and blank lines are skipped, the name of a directive may be in any case.\<close>

definition spec_line :: "char list \<Rightarrow> settings \<Rightarrow> settings res" where
  "spec_line l a =
     (let t = strip LINE_TRIM l in
      if t = [] \<or> hd t = CHR ''#'' then Inr a
      else
        let ws = split_tokens CHR '' '' t
        in spec_apply spec_directives (map char_lower (hd ws) # tl ws) a)"

fun spec_lines :: "char list list \<Rightarrow> settings \<Rightarrow> settings res" where
  "spec_lines [] a = Inr a"
| "spec_lines (l # ls) a = res_bind (spec_line l a) (spec_lines ls)"

definition spec_config :: "char list \<Rightarrow> settings \<Rightarrow> settings res" where
  "spec_config t = spec_lines (split_tokens (CHR 0x0A) t)"

section \<open>The abstraction\<close>

definition conf_abs :: "config \<Rightarrow> settings" where
  "conf_abs c = \<lparr>cf_configfile = map_ptr str_abs (cf_configfile c), cf_pidfile = map_option str_abs (cf_pidfile c),
     cf_daemonize = cf_daemonize c, cf_bindaddr = map_option (map (map_option str_abs)) (cf_bindaddr c),
     cf_bindaddr_count = cf_bindaddr_count c, cf_port = cf_port c, cf_tcpbacklog = cf_tcpbacklog c,
     cf_maxidletime = cf_maxidletime c, cf_tcpkeepalive = cf_tcpkeepalive c, cf_maxclients = cf_maxclients c,
     cf_loglevel = cf_loglevel c, cf_logfile = map_option str_abs (cf_logfile c),
     cf_maxmemory = cf_maxmemory c, cf_workernum = cf_workernum c\<rparr>"

text \<open>The properties of a line behind its first word, as new strings with the sentinel.\<close>

definition props_of :: "atm_str_hdr list \<Rightarrow> atm_str list" where
  "props_of hs = map Some hs @ [None]"

definition props_ok :: "atm_str_hdr list \<Rightarrow> bool" where
  "props_ok hs \<longleftrightarrow> hs \<noteq> [] \<and> wf_hdr (hd hs) \<and> (\<forall>h \<in> set (tl hs). fit_hdr h)"

lemma props_nth: "i < length hs \<Longrightarrow> read_at (props_of hs) i = Inr (Some (hs ! i))"
  by (simp add: props_of_def nth_append)

lemma wf_str_chars: "wf_hdr h \<Longrightarrow> str_chars (Some h) = Inr (str_abs h)"
  using wf_hdr_val [of h] by (intro str_charsI [OF wf_hdr_c_str]) (metis in_set_conv_decomp)+

lemma fit_wf [simp]: "fit_hdr h \<Longrightarrow> wf_hdr h"
  by (simp add: fit_hdr_def)

lemma props_fit:
  assumes "props_ok hs" "0 < i" "i < length hs"
  shows "fit_hdr (hs ! i)"
proof -
  obtain j where j: "i = Suc j" using assms(2) by (cases i) auto
  then have "hs ! i = tl hs ! j" using assms(3) by (simp add: nth_tl)
  moreover have "tl hs ! j \<in> set (tl hs)" using j assms(3) by (intro nth_mem) simp
  ultimately show ?thesis using assms(1) by (simp add: props_ok_def)
qed

lemma prop_at_ok:
  assumes "props_ok hs" "0 < i" "i < length hs"
  shows "prop_at (props_of hs) i = Inr (map str_abs hs ! i)"
  using props_fit [OF assms] assms(3) by (simp add: prop_at_def props_nth wf_str_chars)

lemma prop_dup_ok:
  assumes "props_ok hs" "0 < i" "i < length hs"
  shows "prop_dup (props_of hs) i = Inr (Some (hs ! i))"
  using props_fit [OF assms] assms(3) by (simp add: prop_dup_def props_nth str_dup_fit)

section \<open>Each directive\<close>

definition handler_ok ::
  "bool \<Rightarrow> (atm_str list \<Rightarrow> nat \<Rightarrow> config \<Rightarrow> config res) \<Rightarrow> (char list list \<Rightarrow> settings \<Rightarrow> settings res) \<Rightarrow> bool" where
  "handler_ok two f g \<longleftrightarrow> (\<forall>hs cfg. props_ok hs \<longrightarrow> (two \<longrightarrow> length hs = 2) \<longrightarrow>
     res_map conf_abs (f (props_of hs) (length hs) cfg) = g (map str_abs hs) (conf_abs cfg))"

lemma handler_okI:
  assumes "\<And>hs cfg. props_ok hs \<Longrightarrow> (two \<Longrightarrow> length hs = 2) \<Longrightarrow>
     res_map conf_abs (f (props_of hs) (length hs) cfg) = g (map str_abs hs) (conf_abs cfg)"
  shows "handler_ok two f g"
  using assms by (simp add: handler_ok_def)

lemma res_map_bind: "res_map h (res_bind m f) = res_bind m (\<lambda>x. res_map h (f x))"
  by (cases m) simp_all

lemma res_map_map: "res_map h (res_map f m) = res_map (h \<circ> f) m"
  by (cases m) simp_all

lemma conf_error_map [simp]: "res_map f conf_error = conf_error" "res_bind conf_error g = conf_error"
  by (simp_all add: conf_error_def)

lemma conf_int_ok:
  assumes "\<And>v c. conf_abs (set_field v c) = set_field' v (conf_abs c)"
  shows "handler_ok True (conf_int bad set_field) (spec_int bad set_field')"
proof (rule handler_okI)
  fix hs cfg assume "props_ok hs" "True \<Longrightarrow> length hs = 2"
  then have "prop_at (props_of hs) 1 = Inr (map str_abs hs ! 1)" by (intro prop_at_ok) simp_all
  then show "res_map conf_abs (conf_int bad set_field (props_of hs) (length hs) cfg)
      = spec_int bad set_field' (map str_abs hs) (conf_abs cfg)"
    using assms by (cases "c_atoi (map str_abs hs ! 1)") (simp_all add: conf_int_def spec_int_def)
qed

lemma bind_loop_ok:
  assumes "props_ok hs" "j + n < length hs" "j + n \<le> length bas" "\<forall>i < j. \<exists>h. bas ! i = Some h"
  shows "\<exists>bas'. bind_loop (props_of hs) n j bas = Inr bas' \<and> length bas' = length bas
    \<and> map (map_option str_abs) bas' = take j (map (map_option str_abs) bas)
        @ map (Some \<circ> strip BIND_TRIM) (take n (drop (Suc j) (map str_abs hs)))
        @ drop (j + n) (map (map_option str_abs) bas)"
  using assms(2-4)
proof (induction n arbitrary: j bas)
  case (Suc n)
  let ?h = "hs ! Suc j"
  have "fit_hdr ?h" by (rule props_fit [OF assms(1)]) (use Suc.prems in simp_all)
  then obtain h' where h': "atm_str_trim (Some ?h) BIND_TRIM = Inr (Some h')"
      "str_abs h' = strip BIND_TRIM (str_abs ?h)"
    using atm_str_trim_text [of ?h BIND_TRIM] by (auto simp: strip_def)
  have d: "prop_dup (props_of hs) (Suc j) = Inr (Some ?h)"
    by (rule prop_dup_ok [OF assms(1)]) (use Suc.prems in simp_all)
  let ?b = "bas[j := Some h']"
  have pre: "Suc j + n < length hs" "Suc j + n \<le> length ?b" "\<forall>i < Suc j. \<exists>h. ?b ! i = Some h"
    using Suc.prems by (auto simp: less_Suc_eq nth_list_update)
  obtain bas' where b: "bind_loop (props_of hs) n (Suc j) ?b = Inr bas'" "length bas' = length ?b"
      "map (map_option str_abs) bas' = take (Suc j) (map (map_option str_abs) ?b)
        @ map (Some \<circ> strip BIND_TRIM) (take n (drop (Suc (Suc j)) (map str_abs hs)))
        @ drop (Suc j + n) (map (map_option str_abs) ?b)"
    using Suc.IH [OF pre] by blast
  have s: "bind_loop (props_of hs) (Suc n) j bas = Inr bas'"
    using d h'(1) b(1) Suc.prems(2) by simp
  have t: "take (Suc j) (map (map_option str_abs) ?b) = take j (map (map_option str_abs) bas) @ [Some (str_abs h')]"
    using Suc.prems(2) by (simp add: map_update take_Suc_conv_app_nth)
  have u: "take (Suc n) (drop (Suc j) (map str_abs hs)) = str_abs ?h # take n (drop (Suc (Suc j)) (map str_abs hs))"
    using Suc.prems(1) by (simp add: Cons_nth_drop_Suc [symmetric])
  show ?case using s b(2,3) t u h'(2) by (simp add: map_update)
qed auto

lemma conf_bind_ok: "handler_ok False conf_bind spec_bind"
proof (rule handler_okI)
  fix hs cfg assume ok: "props_ok hs" "False \<Longrightarrow> length hs = 2"
  obtain n where n: "length hs = Suc n" using ok(1) by (cases hs) (simp_all add: props_ok_def)
  have tl: "tl (map str_abs hs) = drop 1 (map str_abs hs)" "length (tl (map str_abs hs)) = n"
    using n by (simp_all add: drop_Suc)
  have e: "tl (map str_abs hs) = [] \<longleftrightarrow> n = 0" using tl(2) by (metis length_0_conv)
  show "res_map conf_abs (conf_bind (props_of hs) (length hs) cfg) = spec_bind (map str_abs hs) (conf_abs cfg)"
  proof (cases "0 < n \<and> n \<le> 16")
    case False
    then show ?thesis using n tl(2) e
      by (auto simp: conf_bind_def spec_bind_def Let_def ATM_CONFIG_MAXBINDADDR_def simp del: map_tl)
  next
    case True
    obtain bas where b: "bind_loop (props_of hs) n 0 (replicate 16 None) = Inr bas"
        "map (map_option str_abs) bas = map (Some \<circ> strip BIND_TRIM) (tl (map str_abs hs)) @ replicate (16 - n) None"
    proof -
      have t: "take n (drop (Suc 0) (map str_abs hs)) = tl (map str_abs hs)" using tl by simp
      have pre: "0 + n < length hs" "0 + n \<le> length (replicate 16 (None :: atm_str))"
          "\<forall>i < 0. \<exists>h. replicate 16 (None :: atm_str) ! i = Some h"
        using n True by simp_all
      show thesis using bind_loop_ok [OF ok(1) pre] unfolding t by (auto intro: that)
    qed
    have c: "conf_bind (props_of hs) (length hs) cfg = Inr (cfg\<lparr>cf_bindaddr := Some bas, cf_bindaddr_count := n\<rparr>)"
      using True b(1) by (simp add: conf_bind_def n Let_def ATM_CONFIG_MAXBINDADDR_def)
    have "tl (map str_abs hs) \<noteq> []" using True e by simp
    then have "spec_bind (map str_abs hs) (conf_abs cfg) = Inr ((conf_abs cfg)\<lparr>cf_bindaddr :=
        Some (map (Some \<circ> strip BIND_TRIM) (tl (map str_abs hs)) @ replicate (16 - n) None), cf_bindaddr_count := n\<rparr>)"
      using True tl(2) by (simp add: spec_bind_def Let_def)
    then show ?thesis unfolding c res_map_simps by (simp add: conf_abs_def b(2))
  qed
qed

lemma conf_text_ok:
  assumes "\<And>hs cfg. props_ok hs \<Longrightarrow> length hs = 2 \<Longrightarrow>
     res_map conf_abs (f (props_of hs) 2 cfg) = g (map str_abs hs) (conf_abs cfg)"
  shows "handler_ok True f g"
  using assms by (intro handler_okI) auto

lemma text_prop:
  assumes "props_ok hs" "length hs = 2"
  shows "prop_dup (props_of hs) (Suc 0) = Inr (Some (hs ! Suc 0))"
    and "prop_at (props_of hs) (Suc 0) = Inr (str_abs (hs ! Suc 0))"
    and "map str_abs hs ! Suc 0 = str_abs (hs ! Suc 0)"
  using assms prop_dup_ok [of hs "Suc 0"] prop_at_ok [of hs "Suc 0"] by simp_all

lemma conf_pidfile_ok: "handler_ok True conf_pidfile (\<lambda>ws a. Inr (a\<lparr>cf_pidfile := Some (ws ! 1)\<rparr>))"
  by (rule conf_text_ok) (simp add: conf_pidfile_def text_prop, simp add: conf_abs_def)

lemma conf_logfile_ok: "handler_ok True conf_logfile (\<lambda>ws a. Inr (a\<lparr>cf_logfile := Some (ws ! 1)\<rparr>))"
  by (rule conf_text_ok) (simp add: conf_logfile_def text_prop, simp add: conf_abs_def)

lemma conf_daemonize_ok: "handler_ok True conf_daemonize spec_daemonize"
  by (rule conf_text_ok) (simp add: conf_daemonize_def spec_daemonize_def text_prop Let_def, simp add: conf_abs_def)

lemma conf_loglevel_ok: "handler_ok True conf_loglevel spec_loglevel"
proof (rule conf_text_ok)
  fix hs cfg assume "props_ok hs" "length hs = 2"
  from text_prop [OF this] show "res_map conf_abs (conf_loglevel (props_of hs) 2 cfg) = spec_loglevel (map str_abs hs) (conf_abs cfg)"
    by (cases "atm_log_parse_level (Some (str_abs (hs ! Suc 0)))")
       (simp_all add: conf_loglevel_def spec_loglevel_def ATM_LOG_FATAL_def conf_abs_def)
qed

lemma conf_maxmemory_ok: "handler_ok True conf_maxmemory spec_maxmemory"
proof (rule conf_text_ok)
  fix hs cfg assume "props_ok hs" "length hs = 2"
  from text_prop [OF this] show "res_map conf_abs (conf_maxmemory (props_of hs) 2 cfg) = spec_maxmemory (map str_abs hs) (conf_abs cfg)"
    by (cases "atm_util_memtoll (str_abs (hs ! Suc 0))")
       (simp_all add: conf_maxmemory_def spec_maxmemory_def conf_abs_def split_beta)
qed

lemma conf_ints_ok:
  "handler_ok True (conf_int bad (\<lambda>v c. c\<lparr>cf_port := v\<rparr>)) (spec_int bad (\<lambda>v c. c\<lparr>cf_port := v\<rparr>))"
  "handler_ok True (conf_int bad (\<lambda>v c. c\<lparr>cf_tcpbacklog := v\<rparr>)) (spec_int bad (\<lambda>v c. c\<lparr>cf_tcpbacklog := v\<rparr>))"
  "handler_ok True (conf_int bad (\<lambda>v c. c\<lparr>cf_maxidletime := v\<rparr>)) (spec_int bad (\<lambda>v c. c\<lparr>cf_maxidletime := v\<rparr>))"
  "handler_ok True (conf_int bad (\<lambda>v c. c\<lparr>cf_tcpkeepalive := v\<rparr>)) (spec_int bad (\<lambda>v c. c\<lparr>cf_tcpkeepalive := v\<rparr>))"
  "handler_ok True (conf_int bad (\<lambda>v c. c\<lparr>cf_maxclients := v\<rparr>)) (spec_int bad (\<lambda>v c. c\<lparr>cf_maxclients := v\<rparr>))"
  "handler_ok True (conf_int bad (\<lambda>v c. c\<lparr>cf_workernum := v\<rparr>)) (spec_int bad (\<lambda>v c. c\<lparr>cf_workernum := v\<rparr>))"
  by (rule conf_int_ok, simp add: conf_abs_def)+

lemmas handlers_ok = conf_pidfile_ok conf_logfile_ok conf_daemonize_ok conf_loglevel_ok conf_maxmemory_ok
  conf_bind_ok conf_ints_ok

lemma directives_ok:
  "list_all2 (\<lambda>(n, t, f) (n', t', g). n = n' \<and> t = t' \<and> NUL \<notin> set n \<and> length n < 100 \<and> handler_ok t f g)
     conf_directives spec_directives"
  unfolding conf_directives_def spec_directives_def list_all2_Cons prod.case list_all2_Nil
  by (intro conjI refl handlers_ok; simp add: NUL_def)

lemma conf_apply_ok:
  assumes "list_all2 (\<lambda>(n, t, f) (n', t', g). n = n' \<and> t = t' \<and> NUL \<notin> set n \<and> length n < 100 \<and> handler_ok t f g) ds sds"
    and ok: "props_ok (h # hs)"
  shows "res_map conf_abs (conf_apply ds (Some h) (props_of (h # hs)) (length (h # hs)) cfg)
    = spec_apply sds (map str_abs (h # hs)) (conf_abs cfg)"
  using assms(1)
proof (induction rule: list_all2_induct)
  case (Cons x ds y sds)
  obtain n t f g where x: "x = (n, t, f)" "y = (n, t, g)" "NUL \<notin> set n" "length n < 100" "handler_ok t f g"
    using Cons.hyps(1) by (cases x, cases y) auto
  have "wf_hdr h" using ok by (simp add: props_ok_def)
  then have e: "atm_str_eqs (Some h) n = Inr (str_abs h = n)" using x(3,4) by (intro atm_str_eqs_text) simp_all
  have r: "res_map conf_abs (f (props_of (h # hs)) (length (h # hs)) cfg) = g (map str_abs (h # hs)) (conf_abs cfg)"
    if "t \<longrightarrow> length (h # hs) = 2"
    using x(5) ok that unfolding handler_ok_def by blast
  show ?case
  proof (cases "str_abs h = n \<and> (t \<longrightarrow> length (h # hs) = 2)")
    case True
    then show ?thesis using r e x(1,2) by simp
  next
    case False
    then have "\<not> (hd (map str_abs (h # hs)) = n \<and> (t \<longrightarrow> length (map str_abs (h # hs)) = 2))" by simp
    then show ?thesis
      unfolding x(1,2) conf_apply.simps spec_apply.simps e res_bind_simps if_not_P [OF False]
      by (simp only: if_False Cons.IH)
  qed
qed simp

section \<open>A line and a file\<close>

lemma NUL_trimmed: "in_cset cset NUL"
  by (simp add: in_cset_def)

lemma strip_right_hd: "strip_right P t \<noteq> [] \<Longrightarrow> hd (strip_right P t) = hd t"
proof -
  assume ne: "strip_right P t \<noteq> []"
  have "t = rev (dropWhile P (rev t)) @ rev (takeWhile P (rev t))"
    by (metis rev_append rev_rev_ident takeWhile_dropWhile_id)
  then have "t = strip_right P t @ rev (takeWhile P (rev t))" by (simp add: strip_right_def)
  then show ?thesis using ne by (metis hd_append2)
qed

lemma strip_hd:
  assumes "strip cset t \<noteq> []"
  shows "\<not> in_cset cset (hd (strip cset t))"
proof -
  have d: "dropWhile (in_cset cset) t \<noteq> []"
  proof
    assume "dropWhile (in_cset cset) t = []"
    then show False using assms by (simp only: strip_def strip_right_def rev.simps dropWhile.simps simp_thms)
  qed
  have "hd (strip cset t) = hd (dropWhile (in_cset cset) t)"
    using strip_right_hd assms by (simp add: strip_def)
  then show ?thesis using hd_dropWhile [OF d] by metis
qed

lemma strip_length: "length (strip cset t) \<le> length t"
proof -
  have "length (strip cset t) \<le> length (dropWhile (in_cset cset) t)"
    by (simp add: strip_def strip_right_def) (metis length_dropWhile_le length_rev)
  also have "\<dots> \<le> length t" by (rule length_dropWhile_le)
  finally show ?thesis .
qed

lemma val_first: "wf_hdr h \<Longrightarrow> read_at (str_val h) 0 = Inr (case str_abs h of [] \<Rightarrow> NUL | c # _ \<Rightarrow> c)"
  by (subst wf_hdr_val) (auto simp: read_at_def split: list.splits)

lemma split_count_props: "split_count (props_of hs) = Inr (length hs)"
  by (simp add: props_of_def split_count_map)

lemma conf_line_ok:
  assumes wf: "wf_hdr h" and len: "length (str_abs h) < 2 ^ 31 - 1"
  shows "res_map conf_abs (conf_line (Some h) cfg) = spec_line (str_abs h) (conf_abs cfg)"
proof -
  let ?t = "strip LINE_TRIM (str_abs h)"
  obtain l where l: "atm_str_trim (Some h) LINE_TRIM = Inr (Some l)" "wf_hdr l" "str_abs l = ?t"
    using atm_str_trim_text [OF wf, of LINE_TRIM] by (auto simp: strip_def)
  show ?thesis
  proof (cases "?t = [] \<or> hd ?t = CHR ''#''")
    case True
    then have "(case str_abs l of [] \<Rightarrow> NUL | c # _ \<Rightarrow> c) \<in> {CHR ''#'', NUL}"
      using l(3) by (cases ?t) auto
    then have "conf_line (Some h) cfg = Inr cfg"
      using l(1) val_first [OF l(2)] by (auto simp: conf_line_def)
    then show ?thesis using True by (simp add: spec_line_def)
  next
    case False
    let ?ws = "split_tokens CHR '' '' ?t"
    have hd: "\<not> in_cset LINE_TRIM (hd ?t)" using False by (intro strip_hd) simp
    then have hn: "hd ?t \<noteq> NUL" "hd ?t \<noteq> CHR '' ''" using NUL_trimmed
      by (auto simp: in_cset_def LINE_TRIM_def c_str_def NUL_def)
    have ws: "?ws \<noteq> []" using split_tokens_some [of ?t "CHR '' ''"] False hn by simp
    have "length (str_abs l) < 2 ^ 31 - 1" using strip_length [of LINE_TRIM "str_abs h"] len l(3) by simp
    from atm_str_split_fit [OF l(2) this, of "CHR '' ''"] obtain hs where
        hs: "atm_str_split (str_val l) CHR '' '' (unat (str_len l)) = Inr (Some (props_of hs))"
        "map str_abs hs = ?ws" "\<forall>h \<in> set hs. fit_hdr h"
      using ws unfolding l(3) by (auto simp: props_of_def)
    obtain p ps where p: "hs = p # ps" using hs(2) ws by (cases hs) auto
    obtain p' where p': "atm_str_tolower (Some p) = Inr (Some p')" "wf_hdr p'" "str_abs p' = map char_lower (str_abs p)"
      using atm_str_tolower_wf [of p] hs(3) p by auto
    have ok: "props_ok (p' # ps)" using p'(2) hs(3) p by (simp add: props_ok_def)
    have upd: "(props_of hs)[0 := Some p'] = props_of (p' # ps)" by (simp add: p props_of_def)
    have r0: "read_at (props_of hs) 0 = Inr (Some p)" using props_nth [of 0 hs] p by simp
    have c: "read_at (str_val l) 0 = Inr (hd ?t)" using val_first [OF l(2)] l(3) False by (cases ?t) auto
    have fr: "atm_str_split_free (Some (props_of (p' # ps))) = Inr ()"
      by (simp add: atm_str_split_free_def split_count_props)
    have ln: "length hs = Suc (length ps)" by (simp add: p)
    have e: "conf_line (Some h) cfg = conf_apply conf_directives (Some p') (props_of (p' # ps)) (length (p' # ps)) cfg"
      using False hn(1) l(1) c hs(1) r0 p'(1) fr
      by (simp add: conf_line_def atm_str_split_size_def split_count_props upd Let_def ln)
         (cases "conf_apply conf_directives (Some p') (props_of (p' # ps)) (Suc (length ps)) cfg", simp_all)
    have w: "map str_abs (p' # ps) = map char_lower (hd ?ws) # tl ?ws" using p'(3) hs(2) p by (cases ?ws) auto
    show ?thesis unfolding e conf_apply_ok [OF directives_ok ok] w using False by (simp add: spec_line_def Let_def)
  qed
qed

lemma conf_lines_ok:
  assumes "\<forall>h \<in> set hs. wf_hdr h \<and> length (str_abs h) < 2 ^ 31 - 1"
  shows "res_map conf_abs (conf_lines (props_of hs) cfg) = spec_lines (map str_abs hs) (conf_abs cfg)"
  using assms
proof (induction hs arbitrary: cfg)
  case (Cons h hs)
  have l: "res_map conf_abs (conf_line (Some h) cfg) = spec_line (str_abs h) (conf_abs cfg)"
    using Cons.prems by (intro conf_line_ok) simp_all
  show ?case
  proof (cases "conf_line (Some h) cfg")
    case (Inl f)
    then show ?thesis using l by (cases "spec_line (str_abs h) (conf_abs cfg)") (simp_all add: props_of_def)
  next
    case (Inr c)
    then have "spec_line (str_abs h) (conf_abs cfg) = Inr (conf_abs c)" using l by simp
    then show ?thesis using Inr Cons by (simp add: props_of_def)
  qed
qed (simp add: props_of_def)

text \<open>The configuration text is a string object whose length field is right.\<close>

lemma process_ok:
  assumes "wf_hdr h" "length (str_abs h) < 2 ^ 31 - 1"
  shows "res_map conf_abs (atm_config_process (Some h) cfg) = spec_config (str_abs h) (conf_abs cfg)"
proof (cases "split_tokens (CHR 0x0A) (str_abs h) = []")
  case True
  then show ?thesis using atm_str_split_fit [OF assms, of "CHR 0x0A"]
    by (simp add: atm_config_process_def spec_config_def)
next
  case False
  then obtain hs where
      hs: "atm_str_split (str_val h) (CHR 0x0A) (unat (str_len h)) = Inr (Some (props_of hs))"
      "map str_abs hs = split_tokens (CHR 0x0A) (str_abs h)" "\<forall>h \<in> set hs. fit_hdr h"
    using atm_str_split_fit [OF assms, of "CHR 0x0A"] by (auto simp: props_of_def)
  have fr: "atm_str_split_free (Some (props_of hs)) = Inr ()"
    by (simp add: atm_str_split_free_def split_count_props)
  have "\<forall>h \<in> set hs. wf_hdr h \<and> length (str_abs h) < 2 ^ 31 - 1" using hs(3) by (simp add: fit_hdr_def)
  from conf_lines_ok [OF this, of cfg] show ?thesis using hs(1,2) fr
    by (cases "conf_lines (props_of hs) cfg") (simp_all add: atm_config_process_def spec_config_def)
qed

section \<open>The settings are in range\<close>

definition bind_valid :: "nat \<Rightarrow> 's option list option \<Rightarrow> bool" where
  "bind_valid n bas \<longleftrightarrow>
     (case bas of None \<Rightarrow> n = 0
      | Some bs \<Rightarrow> length bs = ATM_CONFIG_MAXBINDADDR \<and> 0 < n \<and> n \<le> ATM_CONFIG_MAXBINDADDR \<and> None \<notin> set (take n bs))"

definition conf_valid :: "'s atm_config \<Rightarrow> bool" where
  "conf_valid c \<longleftrightarrow> cf_daemonize c \<in> {0, 1} \<and> 0 \<le> cf_port c \<and> cf_port c \<le> 65535 \<and> 0 \<le> cf_tcpbacklog c
     \<and> 0 \<le> cf_maxidletime c \<and> 0 \<le> cf_tcpkeepalive c \<and> 0 \<le> cf_maxclients c
     \<and> 0 \<le> cf_loglevel c \<and> cf_loglevel c \<le> 6 \<and> 0 \<le> cf_workernum c
     \<and> bind_valid (cf_bindaddr_count c) (cf_bindaddr c)"

lemma conf_valid_abs: "conf_valid (conf_abs c) \<longleftrightarrow> conf_valid c"
  by (auto simp: conf_valid_def bind_valid_def conf_abs_def take_map split: option.splits)

lemma conf_valid_zero: "conf_valid config_zero"
  by (simp add: conf_valid_def bind_valid_def config_zero_def)

definition keeps_valid :: "(char list list \<Rightarrow> settings \<Rightarrow> settings res) \<Rightarrow> bool" where
  "keeps_valid f \<longleftrightarrow> (\<forall>ws a b. conf_valid a \<longrightarrow> f ws a = Inr b \<longrightarrow> conf_valid b)"

lemma spec_int_valid:
  assumes "\<And>v a. \<not> bad v \<Longrightarrow> conf_valid a \<Longrightarrow> conf_valid (set_field v a)"
  shows "keeps_valid (spec_int bad set_field)"
  using assms by (auto simp: keeps_valid_def spec_int_def res_bind_eq_Inr conf_error_def split: if_splits)

lemma spec_bind_valid: "keeps_valid spec_bind"
proof -
  have "bind_valid (length bs) (Some (map (Some \<circ> g) bs @ replicate (16 - length bs) None))"
    if "bs \<noteq> []" "\<not> 16 < length bs" for bs :: "'c list" and g :: "'c \<Rightarrow> 'd"
    using that by (auto simp: bind_valid_def ATM_CONFIG_MAXBINDADDR_def)
  then show ?thesis
    by (auto simp: keeps_valid_def spec_bind_def conf_error_def conf_valid_def Let_def
        simp del: length_tl split: if_splits)
qed

lemma spec_rest_valid:
  "keeps_valid spec_daemonize" "keeps_valid spec_loglevel" "keeps_valid spec_maxmemory"
  "keeps_valid (\<lambda>ws a. Inr (a\<lparr>cf_pidfile := Some (ws ! 1)\<rparr>))" "keeps_valid (\<lambda>ws a. Inr (a\<lparr>cf_logfile := Some (ws ! 1)\<rparr>))"
  by (auto simp: keeps_valid_def spec_daemonize_def spec_loglevel_def spec_maxmemory_def conf_valid_def
      atm_config_yesnotoi_def res_bind_eq_Inr res_map_eq_Inr conf_error_def Let_def split: if_splits)

lemma directives_valid: "\<forall>(n, t, f) \<in> set spec_directives. keeps_valid f"
  unfolding spec_directives_def list.set ball_simps prod.case
  by (intro conjI TrueI spec_bind_valid spec_rest_valid spec_int_valid; simp add: conf_valid_def)

lemma spec_apply_valid:
  "\<forall>(n, t, f) \<in> set ds. keeps_valid f \<Longrightarrow> conf_valid a \<Longrightarrow> spec_apply ds ws a = Inr b \<Longrightarrow> conf_valid b"
  by (induction ds ws a rule: spec_apply.induct) (auto simp: keeps_valid_def split: if_splits)

lemma spec_lines_valid: "conf_valid a \<Longrightarrow> spec_lines ls a = Inr b \<Longrightarrow> conf_valid b"
proof (induction ls arbitrary: a)
  case (Cons l ls)
  then obtain c where c: "spec_line l a = Inr c" "spec_lines ls c = Inr b" by (auto simp: res_bind_eq_Inr)
  have "conf_valid c" using c(1) Cons.prems(1) spec_apply_valid [OF directives_valid]
    by (auto simp: spec_line_def Let_def split: if_splits)
  then show ?case using Cons.IH c(2) by blast
qed simp

section \<open>Properties\<close>

text \<open>
  Property C17. The parser refines its specification on texts: on every configuration text, with
  quotes, comments, unknown directives and errors of every kind, it ends with the settings, or
  with the exit or overflow, that the specification gives.
\<close>

theorem atm_config_process_refines:
  assumes "wf_hdr h" "length (str_abs h) < 2 ^ 31 - 1"
  shows "res_map conf_abs (atm_config_process (Some h) cfg) = spec_config (str_abs h) (conf_abs cfg)"
  using assms by (rule process_ok)

definition test_conf :: "char list" where
  "test_conf = ''# network'' @ [CHR 0x0A, CHR 0x0A] @ ''  Port 8088'' @ [CHR 0x0A] @ ''bind 10.0.0.1 ::1'' @ [CHR 0x0A] @ ''workernum 10''"

theorem atm_config_process_refines_witness:
  "\<exists>c. atm_config_process (Some (hdr_of test_conf)) config_zero = Inr c \<and> cf_port c = 8088
    \<and> cf_workernum c = 10 \<and> cf_bindaddr_count c = 2"
proof -
  have w: "wf_hdr (hdr_of test_conf)" "str_abs (hdr_of test_conf) = test_conf" by code_simp+
  then have "length (str_abs (hdr_of test_conf)) < 2 ^ 31 - 1" by (simp add: test_conf_def)
  note r = atm_config_process_refines [OF w(1) this, of config_zero, unfolded w(2)]
  have "case spec_config test_conf (conf_abs config_zero) of Inl _ \<Rightarrow> False
      | Inr a \<Rightarrow> cf_port a = 8088 \<and> cf_workernum a = 10 \<and> cf_bindaddr_count a = 2"
    by code_simp
  then obtain a where a: "spec_config test_conf (conf_abs config_zero) = Inr a" "cf_port a = 8088"
      "cf_workernum a = 10" "cf_bindaddr_count a = 2"
    by (auto split: sum.splits)
  then show ?thesis using r by (auto simp: res_map_eq_Inr conf_abs_def)
qed

text \<open>
  Property C18. Whatever the configuration text says, when the parser returns, the settings are
  in range: the port is a port, the log level is a level, no number is negative, and the array
  of the addresses to bind to has room for the count and holds that many.
\<close>

theorem atm_config_process_valid:
  assumes "wf_hdr h" "length (str_abs h) < 2 ^ 31 - 1" "conf_valid cfg" "atm_config_process (Some h) cfg = Inr c"
  shows "conf_valid c"
proof -
  have "spec_config (str_abs h) (conf_abs cfg) = Inr (conf_abs c)" using process_ok [OF assms(1,2), of cfg] assms(4) by simp
  then have "conf_valid (conf_abs c)" using spec_lines_valid assms(3) conf_valid_abs unfolding spec_config_def by blast
  then show ?thesis by (simp add: conf_valid_abs)
qed

theorem atm_config_process_valid_witness:
  "\<exists>c. atm_config_process (Some (hdr_of ''loglevel info'')) config_zero = Inr c \<and> conf_valid c"
proof -
  have w: "wf_hdr (hdr_of ''loglevel info'')" "str_abs (hdr_of ''loglevel info'') = ''loglevel info''" by code_simp+
  then have l: "length (str_abs (hdr_of ''loglevel info'')) < 2 ^ 31 - 1" by simp
  have "case spec_config ''loglevel info'' (conf_abs config_zero) of Inl _ \<Rightarrow> False | Inr a \<Rightarrow> True" by code_simp
  then obtain c where c: "atm_config_process (Some (hdr_of ''loglevel info'')) config_zero = Inr c"
    using process_ok [OF w(1) l, of config_zero] w(2) by (auto simp: res_map_eq_Inr split: sum.splits)
  with atm_config_process_valid [OF w(1) l conf_valid_zero c] show ?thesis by blast
qed

end
