(* ===== verification/Atm_Config_Start.thy ===== *)
theory Atm_Config_Start
  imports Atm_Config_Props
begin

text \<open>
  What goes wrong around the parser of \<^verbatim>\<open>src/core/atm_config.c\<close>: a quote in a comment swallows
  the lines behind it, reading the file line by line gives a string whose length is wrong, and
  finding the file ends in the use of pointers that were freed or never set.
\<close>

section \<open>Quotes\<close>

lemma split_open_quote:
  assumes "plain p" "p \<noteq> []" "sep \<notin> set p" "is_quote q" "q \<noteq> sep" "plain r"
  shows "split_tokens sep (p @ q # r) = [p @ q # r]"
proof -
  have i: "split_init = outside [] [] False" by (simp add: split_init_def outside_def)
  have f: "fold (split_step sep) p split_init = outside p [] False"
    unfolding i using split_plain [OF assms(1,3,2), of "[]"] by simp
  have "q \<noteq> NUL" using assms(4) by (auto simp: is_quote_def)
  then have "split_step sep q (outside p [] False) =
      \<lparr>sp_qty = q, sp_inq = 1, sp_trb = False, sp_tok = p @ [q], sp_toks = []\<rparr>"
    using assms(4,5) by (auto simp: split_step_def outside_def is_quote_def Let_def)
  then show ?thesis using f split_inside [OF assms(6,4)] by (simp add: split_tokens_def)
qed

text \<open>
  The lines are cut by the tokeniser for words, which keeps what is between quotes
  together. So after a comment with an apostrophe the rest of the file, as far as it has no
  other quote, is part of the comment: its directives are silently ignored.
\<close>

theorem atm_config_quote_swallows:
  assumes "plain p" "CHR 0x0A \<notin> set p" "is_quote q" "plain r" "length p + length r < 2 ^ 31 - 3"
    "wf_hdr h" "str_abs h = ''#'' @ p @ [q] @ r"
  shows "\<exists>c. atm_config_process (Some h) cfg = Inr c \<and> conf_abs c = conf_abs cfg"
proof -
  let ?t = "''#'' @ p @ [q] @ r"
  have nl: "q \<noteq> CHR 0x0A" using assms(3) by (auto simp: is_quote_def DQ_def SQ_def)
  have "plain (''#'' @ p)" using assms(1) by (simp add: plain_def is_quote_def DQ_def SQ_def NUL_def)
  from split_open_quote [OF this _ _ assms(3) nl assms(4)] assms(2)
  have s: "split_tokens (CHR 0x0A) ?t = [?t]" by simp
  have "strip LINE_TRIM ?t = [] \<or> hd (strip LINE_TRIM ?t) = CHR ''#''"
  proof -
    have "dropWhile (in_cset LINE_TRIM) ?t = ?t" by (simp add: in_cset_def LINE_TRIM_def NUL_def c_str_def)
    then show ?thesis using strip_right_hd [of "in_cset LINE_TRIM" ?t] by (auto simp: strip_def)
  qed
  then have "spec_config ?t (conf_abs cfg) = Inr (conf_abs cfg)"
    unfolding spec_config_def s by (simp add: spec_line_def)
  moreover have "length (str_abs h) < 2 ^ 31 - 1" using assms(5,7) by simp
  ultimately show ?thesis using process_ok [OF assms(6), of cfg] assms(7)
    by (cases "atm_config_process (Some h) cfg") auto
qed

theorem atm_config_quote_swallows_witness:
  "\<exists>c. atm_config_process (Some (hdr_of (''# don'' @ [SQ] @ ''t care'' @ [CHR 0x0A] @ ''port 8088''))) config_zero = Inr c
    \<and> conf_abs c = conf_abs config_zero"
proof -
  let ?r = "''t care'' @ [CHR 0x0A] @ ''port 8088''"
  have w: "wf_hdr (hdr_of (''# don'' @ [SQ] @ ?r))" "str_abs (hdr_of (''# don'' @ [SQ] @ ?r)) = ''#'' @ '' don'' @ [SQ] @ ?r"
    by code_simp+
  have p: "plain '' don''" "plain ?r" "CHR 0x0A \<notin> set '' don''" "is_quote SQ"
    by (simp_all add: plain_def is_quote_def DQ_def SQ_def NUL_def)
  show ?thesis by (rule atm_config_quote_swallows [OF p(1,3,4,2) _ w]) simp
qed

section \<open>Reading the file\<close>

lemma conf_read_swollen:
  assumes "swollen n h" "\<forall>s \<in> set bufs. NUL \<notin> set s" "n + (\<Sum>s\<leftarrow>bufs. length s) < 2 ^ 31"
  shows "conf_read bufs (Some h) = Inl Bad_access
    \<or> (\<exists>h' m. conf_read bufs (Some h) = Inr (Some h') \<and> swollen m h')"
  using assms
proof (induction bufs arbitrary: n h)
  case (Cons s bufs)
  have s: "NUL \<notin> set s" "n + length s < 2 ^ 31" using Cons.prems(2,3) by auto
  consider "atm_str_cats (Some h) (Some s) = Inl Bad_access"
    | h' where "atm_str_cats (Some h) (Some s) = Inr (Some h')" "swollen (n + length s) h'"
    using cats_swollen [OF Cons.prems(1) s] by blast
  then show ?case
  proof cases
    case 2
    then show ?thesis using Cons.IH [OF 2(2)] Cons.prems(2,3) by (simp add: add.assoc)
  qed simp
qed auto

text \<open>
  A configuration file whose first line has more than 9 characters, the line end
  included, is never read: the string that the lines are appended to has grown, its length
  counts the first line twice, and the appends or the parser go beyond its allocation.
\<close>

theorem atm_config_read_overruns:
  assumes "\<forall>s \<in> set (l # ls). NUL \<notin> set s" "9 < length l" "2 * length l + (\<Sum>s\<leftarrow>ls. length s) < 2 ^ 31"
  shows "res_bind (atm_str_new (Some [])) (\<lambda>conf. res_bind (conf_read (l # ls) conf)
      (\<lambda>conf. atm_config_process conf cfg)) = Inl Bad_access"
proof -
  have z: "c_strlen [] < 2 ^ 32 - 32" by (simp add: c_strlen_def)
  obtain h where h: "atm_str_new (Some []) = Inr (Some h)" "wf_hdr h" "str_abs h = []" "unat (str_cap h) \<le> 8"
    using atm_str_new_text [OF z] by (auto simp: c_strlen_def)
  have l0: "unat (str_len h) = 0" using str_abs_length [OF h(2)] h(3) by simp
  have l: "NUL \<notin> set l" "unat (str_cap h) - unat (str_len h) < length l" "unat (str_len h) + 2 * length l < 2 ^ 31"
    using assms h(4) l0 by auto
  obtain h1 where h1: "atm_str_cats (Some h) (Some l) = Inr (Some h1)" "swollen (2 * length l) h1"
    using cats_swells [OF h(2) l(1,2) assms(2) l(3)] l0 by auto
  have "\<forall>s \<in> set ls. NUL \<notin> set s" using assms(1) by simp
  from conf_read_swollen [OF h1(2) this assms(3)] show ?thesis
  proof
    assume "\<exists>h' m. conf_read ls (Some h1) = Inr (Some h') \<and> swollen m h'"
    then obtain h' m where h': "conf_read ls (Some h1) = Inr (Some h')" "swollen m h'" by blast
    then show ?thesis using h(1) h1(1) split_swollen [OF h'(2)] by (simp add: atm_config_process_def)
  qed (use h(1) h1(1) in simp)
qed

theorem atm_config_read_overruns_witness:
  "res_bind (atm_str_new (Some [])) (\<lambda>conf. res_bind (conf_read [''# network'' @ [CHR 0x0A], ''port 8088'' @ [CHR 0x0A]] conf)
     (\<lambda>conf. atm_config_process conf config_zero)) = Inl Bad_access"
  by (rule atm_config_read_overruns) (simp_all add: NUL_def)

section \<open>Finding the file\<close>

lemma parse_arg_live:
  "atm_config_parse_arg as cfg = Inr c \<Longrightarrow> \<exists>s. cf_configfile cfg = Live s \<Longrightarrow> \<exists>s. cf_configfile c = Live s"
  by (induction as cfg rule: atm_config_parse_arg.induct)
     (auto simp: res_bind_eq_Inr split: if_splits list.splits)

lemma config_path_freed:
  "atm_config_path link lstat conf_name cfg = Inr c \<Longrightarrow> cf_configfile c = Freed"
  by (auto simp: atm_config_path_def res_bind_eq_Inr res_map_eq_Inr ptr_get_def split: if_splits)

lemma config_init_faults: "\<exists>f. atm_config_init argv link lstat conf_name fopen = Inl f"
proof (cases "atm_config_init argv link lstat conf_name fopen")
  case (Inr c)
  show ?thesis using Inr
    by (auto simp: atm_config_init_def atm_config_load_file_def res_bind_eq_Inr ptr_get_def
        dest!: config_path_freed)
qed blast


text \<open>With a file given and found, the fault is the use of an invalid pointer.\<close>

lemma config_init_given:
  assumes "argv = [prog, ''-f'', path]" "NUL \<notin> set path" "path \<noteq> []" "length path < 2 ^ 31 - 1"
    "path \<noteq> [DQ, DQ]" "path \<noteq> [SQ, SQ]"
  shows "atm_config_init argv link lstat conf_name fopen = Inl Bad_access"
proof -
  obtain h where h: "atm_str_new (Some path) = Inr (Some h)" "fit_hdr h" "str_abs h = path"
    using str_new_fit [OF assms(2,4)] by blast
  have v: "str_val h = path @ NUL # drop (Suc (unat (str_len h))) (str_val h)"
    using wf_hdr_val [of h] h(2,3) by simp
  have c: "buf_strcmp (str_val h) (q @ [NUL]) = Inr (c_strcmp path q)" if "NUL \<notin> set q" for q
    by (subst v) (use buf_strcmp_text [OF assms(2) that] in simp)
  have "0 < str_len h" using str_abs_length [of h] h(2,3) assms(3)
    by (simp add: word_less_nat_alt flip: length_greater_0_conv)
  moreover have "c_strcmp path [DQ, DQ] \<noteq> 0" "c_strcmp path [SQ, SQ] \<noteq> 0"
    using c_strcmp_0_iff [OF assms(2)] assms(5,6) by (auto simp: DQ_def SQ_def NUL_def)
  ultimately have e: "atm_str_isempty (Some h) = Inr False"
    using c [of "[DQ, DQ]"] c [of "[SQ, SQ]"] by (simp add: atm_str_isempty_def atm_str_len_def DQ_def SQ_def NUL_def)
  have f: "c_str ''-f'' = ''-f''" by (simp add: c_str_def NUL_def)
  show ?thesis using h(1) e f
    by (simp add: atm_config_init_def assms(1) config_zero_def atm_config_load_file_def atm_config_path_def ptr_get_def)
qed

end
