(* ===== verification/Atm_Net.thy ===== *)
theory Atm_Net
  imports Atm_Conn Atm_File "HOL-Library.Signed_Division"
begin

text \<open>
  \<^verbatim>\<open>src/os/unix/atm_net.c\<close>: sockets. The system calls are the fields of a record, functions on
  the state of the kernel. The lemmas: of the descriptors that are opened on the way exactly the
  returned one stays open, for any kernel in which \<^verbatim>\<open>socket\<close> opens a new descriptor and \<^verbatim>\<open>close\<close>
  closes one; and only the first address that gives a socket is tried.
\<close>

definition ATM_NET_ERR_FD :: int where "ATM_NET_ERR_FD = -1"
definition ATM_NET_PORTSLEN :: nat where "ATM_NET_PORTSLEN = 6"
definition ATM_NET_DEFAULT_TCP_KEEPALIVE :: int where "ATM_NET_DEFAULT_TCP_KEEPALIVE = 300"

datatype sockopt = SO_REUSEADDR | SO_KEEPALIVE | TCP_NODELAY | TCP_KEEPIDLE | TCP_KEEPINTVL | TCP_KEEPCNT

datatype family = AF_INET | AF_INET6

text \<open>
  An accepted socket comes with whether the error was \<^verbatim>\<open>EINTR\<close>. An address of the family
  \<^verbatim>\<open>AF_INET\<close> is its text and its port, any other one is none. The host of
  \<^verbatim>\<open>sys_getaddrinfo\<close> is none for NULL.
\<close>

record ('a, 'k) net_sys =
  sys_accept :: "int \<Rightarrow> 'k \<Rightarrow> int \<times> bool \<times> (char list \<times> int) option \<times> 'k"
  sys_getsockname :: "int \<Rightarrow> 'k \<Rightarrow> (char list \<times> int) option \<times> 'k"
  sys_setsockopt :: "int \<Rightarrow> sockopt \<Rightarrow> int \<Rightarrow> 'k \<Rightarrow> int \<times> 'k"
  sys_getaddrinfo :: "char list option \<Rightarrow> char list \<Rightarrow> family \<Rightarrow> 'k \<Rightarrow> int \<times> 'a list \<times> 'k"
  sys_socket :: "'a \<Rightarrow> 'k \<Rightarrow> int \<times> 'k"
  sys_bind :: "int \<Rightarrow> 'a \<Rightarrow> 'k \<Rightarrow> int \<times> 'k"
  sys_listen :: "int \<Rightarrow> int \<Rightarrow> 'k \<Rightarrow> int \<times> 'k"
  sys_connect :: "int \<Rightarrow> 'a \<Rightarrow> 'k \<Rightarrow> int \<times> 'k"
  sys_close :: "int \<Rightarrow> 'k \<Rightarrow> 'k"
  sys_getfl :: "int \<Rightarrow> 'k \<Rightarrow> int \<times> 'k"
  sys_setfl :: "int \<Rightarrow> int \<Rightarrow> 'k \<Rightarrow> int \<times> 'k"

section \<open>Accepting\<close>

definition atm_net_socket_new :: "int \<Rightarrow> atm_socket" where
  "atm_net_socket_new fd = \<lparr>so_fd = fd, so_src_ip = None, so_src_port = 0, so_dst_ip = None, so_dst_port = 0\<rparr>"

text \<open>The loop over \<^verbatim>\<open>EINTR\<close>; \<^verbatim>\<open>n\<close> bounds the interruptions.\<close>

fun accept_retry :: "('a, 'k) net_sys \<Rightarrow> nat \<Rightarrow> int \<Rightarrow> 'k \<Rightarrow> (int \<times> (char list \<times> int) option \<times> 'k) res" where
  "accept_retry sys 0 ss k = Inl No_return"
| "accept_retry sys (Suc n) ss k =
     (case sys_accept sys ss k of (fd, eintr, peer, k) \<Rightarrow>
        if fd = ATM_NET_ERR_FD \<and> eintr then accept_retry sys n ss k else Inr (fd, peer, k))"

definition atm_net_accept_raw ::
  "('a, 'k) net_sys \<Rightarrow> nat \<Rightarrow> atm_socket \<Rightarrow> atm_socket \<Rightarrow> 'k \<Rightarrow> (int \<times> atm_socket \<times> 'k) res" where
  "atm_net_accept_raw sys n ssock csock k =
     res_bind (accept_retry sys n (so_fd ssock) k) (\<lambda>(fd, peer, k).
       if fd = ATM_NET_ERR_FD then Inr (ATM_ERROR, csock, k)
       else
         res_bind
           (case peer of None \<Rightarrow> Inr csock
            | Some (ip, port) \<Rightarrow>
                res_map (\<lambda>s. csock\<lparr>so_src_ip := s, so_src_port := port\<rparr>) (atm_str_new (Some ip))) (\<lambda>csock.
         case sys_getsockname sys fd k of (loc, k) \<Rightarrow>
         res_map (\<lambda>csock. (ATM_OK, csock\<lparr>so_fd := fd\<rparr>, k))
           (case loc of None \<Rightarrow> Inr csock
            | Some (ip, port) \<Rightarrow>
                res_map (\<lambda>s. csock\<lparr>so_dst_ip := s, so_dst_port := port\<rparr>) (atm_str_new (Some ip)))))"

definition atm_net_accept ::
  "('a, 'k) net_sys \<Rightarrow> nat \<Rightarrow> atm_socket \<Rightarrow> 'k \<Rightarrow> (atm_socket option \<times> 'k) res" where
  "atm_net_accept sys n ss k =
     res_map (\<lambda>(ret, s, k). (if ret \<noteq> ATM_OK then None else Some s, k))
       (atm_net_accept_raw sys n ss (atm_net_socket_new ATM_NET_ERR_FD) k)"

section \<open>Options\<close>

definition atm_net_nonblock :: "('a, 'k) net_sys \<Rightarrow> atm_socket \<Rightarrow> bool \<Rightarrow> 'k \<Rightarrow> int \<times> 'k" where
  "atm_net_nonblock sys s non_block k =
     atm_file_nonblock (sys_getfl sys) (sys_setfl sys) (so_fd s) non_block k"

definition atm_net_nodelay :: "('a, 'k) net_sys \<Rightarrow> atm_socket \<Rightarrow> bool \<Rightarrow> 'k \<Rightarrow> int \<times> 'k" where
  "atm_net_nodelay sys s nodelay k =
     (case sys_setsockopt sys (so_fd s) TCP_NODELAY (if nodelay then 1 else 0) k of (ret, k) \<Rightarrow>
        if ret = -1 then (ATM_ERROR, k) else (ATM_OK, k))"

definition atm_net_keepalive :: "('a, 'k) net_sys \<Rightarrow> atm_socket \<Rightarrow> int \<Rightarrow> 'k \<Rightarrow> int \<times> 'k" where
  "atm_net_keepalive sys s interval k =
     (let fd = so_fd s in
      case sys_setsockopt sys fd SO_KEEPALIVE 1 k of (ret, k) \<Rightarrow>
        if ret = -1 then (ATM_ERROR, k) else
      case sys_setsockopt sys fd TCP_KEEPIDLE interval k of (ret, k) \<Rightarrow>
        if ret < 0 then (ATM_ERROR, k) else
      case sys_setsockopt sys fd TCP_KEEPINTVL
          (let val = interval sdiv 3 in if val = 0 then 1 else val) k of (ret, k) \<Rightarrow>
        if ret < 0 then (ATM_ERROR, k) else
      case sys_setsockopt sys fd TCP_KEEPCNT 3 k of (ret, k) \<Rightarrow>
        if ret < 0 then (ATM_ERROR, k) else (ATM_OK, k))"

definition atm_net_set_reuse_addr :: "('a, 'k) net_sys \<Rightarrow> int \<Rightarrow> 'k \<Rightarrow> int \<times> 'k" where
  "atm_net_set_reuse_addr sys sockfd k =
     (case sys_setsockopt sys sockfd SO_REUSEADDR 1 k of (ret, k) \<Rightarrow>
        if ret = -1 then (ATM_ERROR, k) else (ATM_OK, k))"

section \<open>Listening and connecting\<close>

text \<open>\<^verbatim>\<open>%d\<close> of \<^verbatim>\<open>snprintf\<close>; a buffer of \<^verbatim>\<open>n\<close> bytes keeps \<^verbatim>\<open>n - 1\<close> characters.\<close>

fun nat_dec :: "nat \<Rightarrow> char list" where
  "nat_dec n = (if n < 10 then [char_of (48 + n)] else nat_dec (n div 10) @ [char_of (48 + n mod 10)])"

declare nat_dec.simps [simp del]

definition int_dec :: "int \<Rightarrow> char list" where
  "int_dec i = (if i < 0 then CHR ''-'' # nat_dec (nat (- i)) else nat_dec (nat i))"

definition atm_net_listen_raw :: "('a, 'k) net_sys \<Rightarrow> int \<Rightarrow> 'a \<Rightarrow> int \<Rightarrow> 'k \<Rightarrow> int \<times> 'k" where
  "atm_net_listen_raw sys sockfd sa backlog k =
     (case sys_bind sys sockfd sa k of (ret, k) \<Rightarrow>
        if ret = -1 then (ATM_ERROR, k) else
      case sys_listen sys sockfd backlog k of (ret, k) \<Rightarrow>
        if ret = -1 then (ATM_ERROR, k) else (ATM_OK, k))"

text \<open>The label \<^verbatim>\<open>error\<close>: close the descriptor if there is one.\<close>

definition net_error :: "('a, 'k) net_sys \<Rightarrow> int \<Rightarrow> 'k \<Rightarrow> int \<times> 'k" where
  "net_error sys sockfd k =
     (ATM_NET_ERR_FD, if sockfd \<noteq> ATM_NET_ERR_FD then sys_close sys sockfd k else k)"

fun listen_addrs :: "('a, 'k) net_sys \<Rightarrow> int \<Rightarrow> int \<Rightarrow> 'a list \<Rightarrow> 'k \<Rightarrow> int \<times> 'k" where
  "listen_addrs sys backlog sockfd [] k = net_error sys sockfd k"
| "listen_addrs sys backlog sockfd (p # ps) k =
     (case sys_socket sys p k of (sockfd, k) \<Rightarrow>
        if sockfd = ATM_NET_ERR_FD then listen_addrs sys backlog sockfd ps k else
      case atm_net_set_reuse_addr sys sockfd k of (ret, k) \<Rightarrow>
        if ATM_OK \<noteq> ret then net_error sys sockfd k else
      case atm_net_listen_raw sys sockfd p backlog k of (ret, k) \<Rightarrow>
        if ATM_OK \<noteq> ret then net_error sys sockfd k else (sockfd, k))"

definition atm_net_listen_tcp_raw :: "('a, 'k) net_sys \<Rightarrow> int \<Rightarrow> char list option \<Rightarrow> int \<Rightarrow> 'k \<Rightarrow> int \<times> 'k" where
  "atm_net_listen_tcp_raw sys port bindaddr backlog k =
     (case sys_getaddrinfo sys bindaddr (take (ATM_NET_PORTSLEN - 1) (int_dec port)) AF_INET k of
        (ret, servinfo, k) \<Rightarrow>
        if ret \<noteq> ATM_OK then (ATM_NET_ERR_FD, k)
        else listen_addrs sys backlog ATM_NET_ERR_FD servinfo k)"

definition atm_net_listen_tcp ::
  "('a, 'k) net_sys \<Rightarrow> int \<Rightarrow> int \<Rightarrow> char list option \<Rightarrow> 'k \<Rightarrow> atm_socket option \<times> 'k" where
  "atm_net_listen_tcp sys port backlog bindaddr k =
     (case atm_net_listen_tcp_raw sys port bindaddr backlog k of (s, k) \<Rightarrow>
        (if s \<noteq> ATM_NET_ERR_FD then Some (atm_net_socket_new s) else None, k))"

fun connect_addrs :: "('a, 'k) net_sys \<Rightarrow> int \<Rightarrow> 'a list \<Rightarrow> 'k \<Rightarrow> int \<times> 'k" where
  "connect_addrs sys res [] k = net_error sys res k"
| "connect_addrs sys res (p # ps) k =
     (case sys_socket sys p k of (res, k) \<Rightarrow>
        if res = -1 then connect_addrs sys res ps k else
      case sys_connect sys res p k of (ret, k) \<Rightarrow>
        if ret = -1 then net_error sys res k else (res, k))"

definition atm_net_connect :: "('a, 'k) net_sys \<Rightarrow> char list \<Rightarrow> int \<Rightarrow> 'k \<Rightarrow> int \<times> 'k" where
  "atm_net_connect sys adr port k =
     (let service = take 5 (int_dec port) in
      case sys_getaddrinfo sys (Some adr) service AF_INET k of (ret, servinfo, k) \<Rightarrow>
        if ret \<noteq> 0 then
          (case sys_getaddrinfo sys (Some adr) service AF_INET6 k of (ret, servinfo, k) \<Rightarrow>
             if ret \<noteq> 0 then (ATM_ERROR, k) else connect_addrs sys ATM_NET_ERR_FD servinfo k)
        else connect_addrs sys ATM_NET_ERR_FD servinfo k)"

section \<open>Descriptors\<close>

text \<open>What the kernel does with the set \<^verbatim>\<open>fds\<close> of the open descriptors of the process.\<close>

definition net_kernel :: "('a, 'k) net_sys \<Rightarrow> ('k \<Rightarrow> int set) \<Rightarrow> bool" where
  "net_kernel sys fds \<longleftrightarrow>
     (\<forall>p k. case sys_socket sys p k of (fd, k') \<Rightarrow>
        if fd = -1 then fds k' = fds k else fd \<notin> fds k \<and> fds k' = insert fd (fds k))
     \<and> (\<forall>fd k. fds (sys_close sys fd k) = fds k - {fd})
     \<and> (\<forall>fd opt v k. fds (snd (sys_setsockopt sys fd opt v k)) = fds k)
     \<and> (\<forall>n s f k. fds (snd (snd (sys_getaddrinfo sys n s f k))) = fds k)
     \<and> (\<forall>fd p k. fds (snd (sys_bind sys fd p k)) = fds k)
     \<and> (\<forall>fd b k. fds (snd (sys_listen sys fd b k)) = fds k)
     \<and> (\<forall>fd p k. fds (snd (sys_connect sys fd p k)) = fds k)"

text \<open>The result of a function that returns a descriptor: that one is new and open, or none is.\<close>

definition one_opened :: "('k \<Rightarrow> int set) \<Rightarrow> 'k \<Rightarrow> int \<times> 'k \<Rightarrow> bool" where
  "one_opened fds k r \<longleftrightarrow>
     (if fst r = -1 then fds (snd r) = fds k else fst r \<notin> fds k \<and> fds (snd r) = insert (fst r) (fds k))"

lemma net_kernelD:
  assumes "net_kernel sys fds"
  shows "sys_socket sys p k = (fd, k') \<Longrightarrow> if fd = -1 then fds k' = fds k else fd \<notin> fds k \<and> fds k' = insert fd (fds k)"
    and "fds (sys_close sys fd k) = fds k - {fd}"
    and "sys_setsockopt sys fd opt v k = (r, k') \<Longrightarrow> fds k' = fds k"
    and "sys_getaddrinfo sys n s f k = (r, ps, k') \<Longrightarrow> fds k' = fds k"
    and "sys_bind sys fd p k = (r, k') \<Longrightarrow> fds k' = fds k"
    and "sys_listen sys fd b k = (r, k') \<Longrightarrow> fds k' = fds k"
    and "sys_connect sys fd p k = (r, k') \<Longrightarrow> fds k' = fds k"
proof -
  note n = assms [unfolded net_kernel_def]
  note a = n [THEN conjunct1] and n1 = n [THEN conjunct2]
  note b = n1 [THEN conjunct1] and n2 = n1 [THEN conjunct2]
  note c = n2 [THEN conjunct1] and n3 = n2 [THEN conjunct2]
  note d = n3 [THEN conjunct1] and n4 = n3 [THEN conjunct2]
  note e = n4 [THEN conjunct1] and n5 = n4 [THEN conjunct2]
  note f = n5 [THEN conjunct1] and g = n5 [THEN conjunct2]
  show "sys_socket sys p k = (fd, k') \<Longrightarrow> if fd = -1 then fds k' = fds k else fd \<notin> fds k \<and> fds k' = insert fd (fds k)"
    using spec [OF spec [OF a, of p], of k] by simp
  show "fds (sys_close sys fd k) = fds k - {fd}" using b by blast
  show "sys_setsockopt sys fd opt v k = (r, k') \<Longrightarrow> fds k' = fds k" using c by (metis snd_conv)
  show "sys_getaddrinfo sys n s f k = (r, ps, k') \<Longrightarrow> fds k' = fds k" for f using d by (metis snd_conv)
  show "sys_bind sys fd p k = (r, k') \<Longrightarrow> fds k' = fds k" using e by (metis snd_conv)
  show "sys_listen sys fd b k = (r, k') \<Longrightarrow> fds k' = fds k" for b using f by (metis snd_conv)
  show "sys_connect sys fd p k = (r, k') \<Longrightarrow> fds k' = fds k" using g by (metis snd_conv)
qed

lemma one_opened_cong: "fds k' = fds k \<Longrightarrow> one_opened fds k' x \<longleftrightarrow> one_opened fds k x"
  by (simp only: one_opened_def)

lemma net_error_none: "net_error sys (-1) k = (-1, k)"
  by (simp add: net_error_def ATM_NET_ERR_FD_def)

lemma net_error_closed:
  assumes "net_kernel sys fds" "fd \<noteq> -1" "fd \<notin> fds k0" "fds k = insert fd (fds k0)"
  shows "one_opened fds k0 (net_error sys fd k)"
  using assms net_kernelD(2) [OF assms(1)] by (simp add: one_opened_def net_error_def ATM_NET_ERR_FD_def)

lemma set_reuse_addr_fds: "net_kernel sys fds \<Longrightarrow> atm_net_set_reuse_addr sys fd k = (r, k') \<Longrightarrow> fds k' = fds k"
  using net_kernelD(3) by (fastforce simp: atm_net_set_reuse_addr_def split: prod.splits if_splits)

lemma listen_raw_fds: "net_kernel sys fds \<Longrightarrow> atm_net_listen_raw sys fd p b k = (r, k') \<Longrightarrow> fds k' = fds k"
  using net_kernelD(5,6) by (fastforce simp: atm_net_listen_raw_def split: prod.splits if_splits)

lemma listen_addrs_fds:
  assumes K: "net_kernel sys fds"
  shows "one_opened fds k (listen_addrs sys backlog (-1) ps k)"
proof (induction ps arbitrary: k)
  case Nil
  show ?case by (simp add: net_error_none one_opened_def)
next
  case (Cons p ps)
  obtain fd k1 where s: "sys_socket sys p k = (fd, k1)" by fastforce
  note f = net_kernelD(1) [OF K s]
  show ?case
  proof (cases "fd = -1")
    case True
    then show ?thesis using s f Cons.IH [of k1] one_opened_cong [of fds k1 k] by (simp add: ATM_NET_ERR_FD_def)
  next
    case False
    obtain r k2 where r: "atm_net_set_reuse_addr sys fd k1 = (r, k2)" by fastforce
    obtain l k3 where l: "atm_net_listen_raw sys fd p backlog k2 = (l, k3)" by fastforce
    have "fds k2 = insert fd (fds k)" "fds k3 = insert fd (fds k)" "fd \<notin> fds k"
      using f False set_reuse_addr_fds [OF K r] listen_raw_fds [OF K l] by simp_all
    then show ?thesis using s r l False net_error_closed [OF K False, of k]
      by (simp add: ATM_NET_ERR_FD_def) (simp add: one_opened_def)
  qed
qed

lemma connect_addrs_fds:
  assumes K: "net_kernel sys fds"
  shows "one_opened fds k (connect_addrs sys (-1) ps k)"
proof (induction ps arbitrary: k)
  case Nil
  show ?case by (simp add: net_error_none one_opened_def)
next
  case (Cons p ps)
  obtain fd k1 where s: "sys_socket sys p k = (fd, k1)" by fastforce
  note f = net_kernelD(1) [OF K s]
  show ?case
  proof (cases "fd = -1")
    case True
    then show ?thesis using s f Cons.IH [of k1] one_opened_cong [of fds k1 k] by simp
  next
    case False
    obtain r k2 where r: "sys_connect sys fd p k1 = (r, k2)" by fastforce
    have "fds k2 = insert fd (fds k)" "fd \<notin> fds k" using f False net_kernelD(7) [OF K r] by simp_all
    then show ?thesis using s r False net_error_closed [OF K False, of k] by simp (simp add: one_opened_def)
  qed
qed

section \<open>Properties\<close>

text \<open>
  Property C24. Listening and connecting leak no descriptor: when they return one it is new and
  the only one they left open, and when they fail they left none open, wherever they failed.
\<close>

theorem atm_net_no_fd_leak:
  assumes "net_kernel sys fds"
  shows "one_opened fds k (atm_net_listen_tcp_raw sys port bindaddr backlog k)
    \<and> one_opened fds k (atm_net_connect sys adr port k)"
proof -
  obtain r ps k1 where g: "sys_getaddrinfo sys bindaddr (take (ATM_NET_PORTSLEN - 1) (int_dec port)) AF_INET k = (r, ps, k1)"
    by (metis prod_cases3)
  obtain r2 ps2 k2 where g2: "sys_getaddrinfo sys (Some adr) (take 5 (int_dec port)) AF_INET k = (r2, ps2, k2)"
    by (metis prod_cases3)
  obtain r3 ps3 k3 where g3: "sys_getaddrinfo sys (Some adr) (take 5 (int_dec port)) AF_INET6 k2 = (r3, ps3, k3)"
    by (metis prod_cases3)
  have f: "fds k1 = fds k" "fds k2 = fds k" "fds k3 = fds k"
    using net_kernelD(4) [OF assms g] net_kernelD(4) [OF assms g2] net_kernelD(4) [OF assms g3] by simp_all
  have e: "one_opened fds k (ATM_NET_ERR_FD, k1)" "one_opened fds k (ATM_ERROR, k3)"
    using f by (simp_all add: one_opened_def ATM_NET_ERR_FD_def ATM_ERROR_def)
  have l: "one_opened fds k (listen_addrs sys backlog (-1) ps k1)"
    "one_opened fds k (connect_addrs sys (-1) ps2 k2)" "one_opened fds k (connect_addrs sys (-1) ps3 k3)"
    using listen_addrs_fds [OF assms] connect_addrs_fds [OF assms] one_opened_cong f by metis+
  show ?thesis using g g2 g3 e l
    by (auto simp: atm_net_listen_tcp_raw_def atm_net_connect_def Let_def ATM_NET_ERR_FD_def)
qed

text \<open>A kernel whose state is the list of the open descriptors and in which nothing fails.\<close>

definition test_kernel :: "(nat, int list) net_sys" where
  "test_kernel = \<lparr>sys_accept = (\<lambda>fd k. (-1, False, None, k)), sys_getsockname = (\<lambda>fd k. (None, k)),
     sys_setsockopt = (\<lambda>fd opt v k. (0, k)), sys_getaddrinfo = (\<lambda>n s f k. (0, [1, 2], k)),
     sys_socket = (\<lambda>p k. let fd = fold max k 2 + 1 in (fd, fd # k)), sys_bind = (\<lambda>fd p k. (if p = 1 then -1 else 0, k)),
     sys_listen = (\<lambda>fd b k. (0, k)), sys_connect = (\<lambda>fd p k. (0, k)), sys_close = (\<lambda>fd k. removeAll fd k),
     sys_getfl = (\<lambda>fd k. (0, k)), sys_setfl = (\<lambda>fd v k. (0, k))\<rparr>"

lemma fold_max_le: "(m :: int) \<le> fold max xs m \<and> (\<forall>x \<in> set xs. x \<le> fold max xs m)"
proof (induction xs arbitrary: m)
  case (Cons x xs)
  have "max x m \<le> fold max xs (max x m)" using Cons.IH by blast
  then show ?case using Cons.IH [of "max x m"] by auto
qed simp

lemma test_kernel_ok: "net_kernel test_kernel set"
proof -
  have "fold max k 2 + 1 \<notin> set k" "fold max k 2 + 1 \<noteq> - 1" for k :: "int list"
    using fold_max_le [of 2 k] by force+
  then show ?thesis by (auto simp: net_kernel_def test_kernel_def Let_def)
qed

theorem atm_net_no_fd_leak_witness:
  "one_opened set [0, 1, 2] (atm_net_listen_tcp_raw test_kernel 8088 (Some ''0.0.0.0'') 511 [0, 1, 2])
    \<and> atm_net_listen_tcp_raw test_kernel 8088 (Some ''0.0.0.0'') 511 [0, 1, 2] = (-1, [0, 1, 2])
    \<and> atm_net_connect test_kernel ''localhost'' 8088 [0, 1, 2] = (3, [3, 0, 1, 2])"
proof -
  have "atm_net_listen_tcp_raw test_kernel 8088 (Some ''0.0.0.0'') 511 [0, 1, 2] = (-1, [0, 1, 2])"
      "atm_net_connect test_kernel ''localhost'' 8088 [0, 1, 2] = (3, [3, 0, 1, 2])"
    by (simp_all add: atm_net_listen_tcp_raw_def atm_net_connect_def test_kernel_def Let_def ATM_OK_def ATM_ERROR_def
        ATM_NET_ERR_FD_def atm_net_set_reuse_addr_def atm_net_listen_raw_def net_error_def)
  then show ?thesis using atm_net_no_fd_leak [OF test_kernel_ok] by blast
qed

end
