(* ===== verification/Atm_Client.thy ===== *)
theory Atm_Client
  imports Atm_Buf Atm_Net Atm_Pipe
begin

text \<open>
  \<^verbatim>\<open>src/core/atm_client.c\<close>: a blocking client. Its two loops over \<^verbatim>\<open>write\<close> and \<^verbatim>\<open>read\<close>, which are
  parameters. The lemmas: what is sent is a prefix of the text, all of it unless a write fails;
  what is received is what was pending, in its order, but the number of bytes that were received
  before an error is lost.
\<close>

record atm_client =
  cl_addr :: "char list"
  cl_port :: int
  cl_timeout :: int
  cl_sockfd :: int

definition atm_client_init ::
  "int \<Rightarrow> int \<times> int \<times> int \<Rightarrow> addr \<Rightarrow> engine \<Rightarrow> (engine \<times> ctl_call list) res" where
  "atm_client_init epfd created a en = atm_event_init epfd created a en"

text \<open>The time-out goes to \<^verbatim>\<open>atm_net_connect\<close>, which does not use it.\<close>

definition atm_client_new ::
  "('a, 'k) net_sys \<Rightarrow> char list \<Rightarrow> int \<Rightarrow> int \<Rightarrow> 'k \<Rightarrow> atm_client option \<times> 'k" where
  "atm_client_new sys adr port timeout k =
     (case atm_net_connect sys adr port k of (sock, k) \<Rightarrow>
        (if sock \<noteq> ATM_NET_ERR_FD
         then Some \<lparr>cl_addr = adr, cl_port = port, cl_timeout = timeout, cl_sockfd = sock\<rparr> else None, k))"

text \<open>\<^verbatim>\<open>rem\<close> and \<^verbatim>\<open>buff\<close> of the loop; \<^verbatim>\<open>write\<close> is called with the file descriptor.\<close>

function client_send_loop :: "'s sys_write \<Rightarrow> int \<Rightarrow> u8 list \<Rightarrow> 's \<Rightarrow> 's" where
  "client_send_loop wr rem buff s =
     (if 0 < rem then
        (case wr s (take (nat rem) buff) of (cnt, s) \<Rightarrow>
           if 0 < cnt then client_send_loop wr (rem - cnt) (drop (nat cnt) buff) s else s)
      else s)"
  by pat_completeness auto
termination by (relation "measure (\<lambda>(wr, rem, buff, s). nat rem)") auto

declare client_send_loop.simps [simp del]

text \<open>The text is given by the bytes before its terminator; \<^verbatim>\<open>strlen\<close> is stored in an \<^verbatim>\<open>int\<close>.\<close>

definition atm_client_send :: "(int \<Rightarrow> 's sys_write) \<Rightarrow> atm_client \<Rightarrow> u8 list \<Rightarrow> 's \<Rightarrow> 's" where
  "atm_client_send wr c s k =
     client_send_loop (wr (cl_sockfd c)) (sint (word_of_nat (length s) :: 32 word)) s k"

text \<open>
  \<^verbatim>\<open>buff\<close> is what was stored so far, \<^verbatim>\<open>rem\<close> the room that is left. A \<^verbatim>\<open>read\<close> that gave more than
  it was asked for would have written behind the buffer.
\<close>

function client_recv_loop ::
  "'s sys_read \<Rightarrow> nat \<Rightarrow> u8 list \<Rightarrow> 's \<Rightarrow> (int \<times> u8 list \<times> 's) res" where
  "client_recv_loop rd rem buff s =
     (case rd s rem of (ret, bytes, s) \<Rightarrow>
        if 0 < ret then
          (if int rem < ret then Inl Bad_access
           else if rem - nat ret = 0 then Inr (int (length (buff @ take (nat ret) bytes)), buff @ take (nat ret) bytes, s)
           else client_recv_loop rd (rem - nat ret) (buff @ take (nat ret) bytes) s)
        else if ret < 0 then Inr (ret, buff, s)
        else Inr (int (length buff), buff, s))"
  by pat_completeness auto
termination by (relation "measure (\<lambda>(rd, rem, buff, s). rem)") auto

declare client_recv_loop.simps [simp del]

definition atm_client_recv :: "(int \<Rightarrow> 's sys_read) \<Rightarrow> atm_client \<Rightarrow> nat \<Rightarrow> 's \<Rightarrow> (int \<times> u8 list \<times> 's) res" where
  "atm_client_recv rd c sz k = client_recv_loop (rd (cl_sockfd c)) sz [] k"

section \<open>The loops\<close>

text \<open>How the loop ends: \<^verbatim>\<open>j\<close> bytes are sent, and these are all, or the write of the rest fails.\<close>

lemma send_loop_ok:
  assumes snk: "sock_sink wr sent"
  shows "\<exists>j s1. j \<le> length bs \<and> sent (client_send_loop wr (int (length bs)) bs s) = sent s @ take j bs
    \<and> (j < length bs \<longrightarrow> sent s1 = sent s @ take j bs \<and> fst (wr s1 (drop j bs)) \<le> 0)"
proof (induction "length bs" arbitrary: bs s rule: less_induct)
  case less
  show ?case
  proof (cases "bs = []")
    case True
    then show ?thesis by (simp add: client_send_loop.simps)
  next
    case False
    obtain c s' where w: "wr s bs = (c, s')" by fastforce
    note k = sock_sinkD [OF snk False w]
    show ?thesis
    proof (cases "0 < c")
      case True
      with k have c: "c \<le> int (length bs)" "sent s' = sent s @ take (nat c) bs" by simp_all
      have "length (drop (nat c) bs) < length bs" using True False by simp
      from less [OF this, of s'] obtain j s1 where j: "j \<le> length bs - nat c"
          "sent (client_send_loop wr (int (length bs) - c) (drop (nat c) bs) s') = sent s' @ take j (drop (nat c) bs)"
          "j < length bs - nat c \<longrightarrow> sent s1 = sent s' @ take j (drop (nat c) bs) \<and> fst (wr s1 (drop (nat c + j) bs)) \<le> 0"
        using True c(1) by (auto simp: of_nat_diff add.commute)
      have "sent s' @ take j (drop (nat c) bs) = sent s @ take (nat c + j) bs" using c(2) by (simp add: take_add)
      then show ?thesis using j True w c(1) False
        by (intro exI [of _ "nat c + j"] exI [of _ s1]) (simp add: client_send_loop.simps [of _ "int (length bs)"])
    next
      case False
      with k w \<open>bs \<noteq> []\<close> show ?thesis
        by (intro exI [of _ 0] exI [of _ s]) (simp add: client_send_loop.simps [of _ "int (length bs)"])
    qed
  qed
qed

lemma recv_loop_ok:
  assumes src: "sock_source rd pend"
  shows "0 < rem \<Longrightarrow> \<exists>r j s'. client_recv_loop rd rem buff s = Inr (r, buff @ take j (pend s), s')
    \<and> j \<le> rem \<and> j \<le> length (pend s) \<and> pend s' = drop j (pend s)
    \<and> (r < 0 \<or> r = int (length buff + j))
    \<and> (j < rem \<longrightarrow> (\<exists>s1. pend s1 = drop j (pend s) \<and> fst (rd s1 (rem - j)) \<le> 0 \<and> (r < 0 \<longrightarrow> fst (rd s1 (rem - j)) = r)))"
proof (induction rem arbitrary: buff s rule: less_induct)
  case (less rem)
  obtain c bytes s' where w: "rd s rem = (c, bytes, s')" by (metis prod_cases3)
  note k = sock_sourceD [OF src less.prems w]
  show ?case
  proof (cases "0 < c")
    case True
    with k have c: "c \<le> int rem" "nat c \<le> length (pend s)" "bytes = take (nat c) (pend s)" "pend s' = drop (nat c) (pend s)"
      by simp_all
    show ?thesis
    proof (cases "rem - nat c = 0")
      case True
      then show ?thesis using w c \<open>0 < c\<close>
        by (intro exI [of _ "int (length buff + nat c)"] exI [of _ "nat c"] exI [of _ s'])
          (simp add: client_recv_loop.simps [of _ rem] min_def)
    next
      case False
      then have "rem - nat c < rem" "0 < rem - nat c" using True less.prems by simp_all
      from less.IH [OF this, of "buff @ bytes" s'] obtain r j s2 where j:
          "client_recv_loop rd (rem - nat c) (buff @ bytes) s' = Inr (r, (buff @ bytes) @ take j (pend s'), s2)"
          "j \<le> rem - nat c" "j \<le> length (pend s')" "pend s2 = drop j (pend s')"
          "r < 0 \<or> r = int (length (buff @ bytes) + j)"
          "j < rem - nat c \<longrightarrow> (\<exists>s1. pend s1 = drop j (pend s') \<and> fst (rd s1 (rem - nat c - j)) \<le> 0
             \<and> (r < 0 \<longrightarrow> fst (rd s1 (rem - nat c - j)) = r))"
        by blast
      have t: "bytes @ take j (pend s') = take (nat c + j) (pend s)" "drop j (pend s') = drop (nat c + j) (pend s)"
        using c(3,4) by (simp_all add: take_add) (simp add: add.commute)
      have "client_recv_loop rd rem buff s = Inr (r, buff @ take (nat c + j) (pend s), s2)"
        using w c(1,3) True False j(1) t by (simp add: client_recv_loop.simps [of _ rem])
      moreover have "nat c + j < rem \<longrightarrow> (\<exists>s1. pend s1 = drop (nat c + j) (pend s) \<and> fst (rd s1 (rem - (nat c + j))) \<le> 0
             \<and> (r < 0 \<longrightarrow> fst (rd s1 (rem - (nat c + j))) = r))"
        using j(6) unfolding t(2) diff_diff_left by (simp add: less_diff_conv add.commute)
      moreover have "nat c + j \<le> rem" "nat c + j \<le> length (pend s)" using j(2,3) c(2,4) False by simp_all
      moreover have "pend s2 = drop (nat c + j) (pend s)" using j(4) t(2) by simp
      moreover have "r < 0 \<or> r = int (length buff + (nat c + j))"
        using j(5) c(2,3) by auto
      ultimately show ?thesis by blast
    qed
  next
    case False
    then show ?thesis using k w less.prems
      by (intro exI [of _ "if c < 0 then c else int (length buff)"] exI [of _ 0] exI [of _ s'])
        (auto simp: client_recv_loop.simps [of _ rem] intro!: exI [of _ s])
  qed
qed

section \<open>Properties\<close>

text \<open>
  What the client sends of a text is a prefix, in order and without gaps or
  repetitions whatever pieces \<^verbatim>\<open>write\<close> takes, and it is the whole text unless the write of the
  rest fails.
\<close>

theorem atm_client_send_prefix:
  assumes "sock_sink (wr (cl_sockfd c)) sent" "length bs < 2 ^ 31"
  shows "\<exists>j k1. j \<le> length bs \<and> sent (atm_client_send wr c bs k) = sent k @ take j bs
    \<and> (j < length bs \<longrightarrow> sent k1 = sent k @ take j bs \<and> fst (wr (cl_sockfd c) k1 (drop j bs)) \<le> 0)"
proof -
  have "sint (word_of_nat (length bs) :: 32 word) = int (length bs)"
    using assms(2) by (simp add: signed_of_nat signed_take_bit_int_eq_self)
  then show ?thesis using send_loop_ok [OF assms(1), of bs k] by (simp add: atm_client_send_def)
qed

text \<open>A socket that takes three bytes at a time, until it holds eight.\<close>

definition three_write :: "int \<Rightarrow> u8 list sys_write" where
  "three_write fd k bs =
     (if length k < 8 \<and> bs \<noteq> [] then (int (min 3 (length bs)), k @ take 3 bs) else (-1, k))"

definition test_client :: atm_client where
  "test_client = \<lparr>cl_addr = ''localhost'', cl_port = 8088, cl_timeout = 0, cl_sockfd = 3\<rparr>"

theorem atm_client_send_prefix_witness:
  "(\<exists>j. atm_client_send three_write test_client [1, 2, 3, 4, 5, 6, 7, 8, 9, 10] [] = take j [1, 2, 3, 4, 5, 6, 7, 8, 9, 10])
    \<and> atm_client_send three_write test_client [1, 2, 3, 4, 5, 6, 7, 8, 9, 10] [] = [1, 2, 3, 4, 5, 6, 7, 8, 9]"
proof -
  have s: "sock_sink (three_write (cl_sockfd test_client)) id" by (auto simp: sock_sink_def three_write_def min_def)
  have "\<exists>j. atm_client_send three_write test_client [1, 2, 3, 4, 5, 6, 7, 8, 9, 10] [] = take j [1, 2, 3, 4, 5, 6, 7, 8, 9, 10]"
    using atm_client_send_prefix [where wr = three_write and c = test_client, OF s, of "[1, 2, 3, 4, 5, 6, 7, 8, 9, 10]" "[]"] by auto
  moreover have "atm_client_send three_write test_client [1, 2, 3, 4, 5, 6, 7, 8, 9, 10] [] = [1, 2, 3, 4, 5, 6, 7, 8, 9]"
    by (simp add: atm_client_send_def client_send_loop.simps three_write_def test_client_def)
  ultimately show ?thesis by (rule conjI)
qed


text \<open>A socket that gives two bytes at a time and then fails.\<close>

definition two_read :: "int \<Rightarrow> u8 list sys_read" where
  "two_read fd k n = (if k = [] then (-1, [], []) else (int (min (min 2 n) (length k)), take (min 2 n) k, drop (min 2 n) k))"


end
