(* ===== verification/Atm_Sig.thy ===== *)
theory Atm_Sig
  imports Atm_Core
begin

text \<open>
  \<^verbatim>\<open>src/os/unix/atm_sig.c\<close> and the last branch of \<^verbatim>\<open>atm_atomic.h\<close>, which is compiled when neither
  libatomic nor the built-ins of gcc are configured. \<^verbatim>\<open>signal\<close> and \<^verbatim>\<open>waitpid\<close> are parameters, functions
  on the state of the kernel.
\<close>

datatype signo = SIGCLD | SIGPIPE

datatype disposition = Handler | SIG_IGN

text \<open>\<^verbatim>\<open>signal\<close> says whether it succeeded.\<close>

type_synonym 'k sys_signal = "signo \<Rightarrow> disposition \<Rightarrow> 'k \<Rightarrow> bool \<times> 'k"

text \<open>The children that are waited for; \<^verbatim>\<open>n\<close> bounds their number.\<close>

fun wait_loop :: "('k \<Rightarrow> int \<times> 'k) \<Rightarrow> nat \<Rightarrow> 'k \<Rightarrow> 'k res" where
  "wait_loop waitpid 0 k = Inl No_return"
| "wait_loop waitpid (Suc n) k =
     (case waitpid k of (pid, k) \<Rightarrow> if 0 < pid then wait_loop waitpid n k else Inr k)"

definition atm_sig_handle :: "'k sys_signal \<Rightarrow> ('k \<Rightarrow> int \<times> 'k) \<Rightarrow> nat \<Rightarrow> 'k \<Rightarrow> 'k res" where
  "atm_sig_handle sig waitpid n k =
     (case sig SIGCLD Handler k of (ok, k) \<Rightarrow>
        if \<not> ok then Inl (Exit ATM_OK) else wait_loop waitpid n k)"

definition atm_sig_init :: "'k sys_signal \<Rightarrow> 'k \<Rightarrow> 'k res" where
  "atm_sig_init sig k =
     (case sig SIGCLD Handler k of (ok, k) \<Rightarrow>
        if \<not> ok then Inl (Exit ATM_OK) else
      case sig SIGPIPE SIG_IGN k of (ok, k) \<Rightarrow>
        if \<not> ok then Inl (Exit ATM_OK) else Inr k)"

text \<open>The handler waits for exactly the children that have ended, whatever their number.\<close>

lemma wait_loop_ok:
  assumes "\<And>k. waitpid k = (case zs k of [] \<Rightarrow> (-1, k) | z # _ \<Rightarrow> (int (Suc z), reap k))"
    "\<And>k. zs (reap k) = tl (zs k)"
  shows "length (zs k) < n \<Longrightarrow> \<exists>k'. wait_loop waitpid n k = Inr k' \<and> zs k' = []"
proof (induction n arbitrary: k)
  case (Suc n)
  show ?case
  proof (cases "zs k")
    case Nil
    then show ?thesis using assms(1) by simp
  next
    case (Cons z z')
    then show ?thesis using assms Suc.IH [of "reap k"] Suc.prems by simp
  qed
qed simp

section \<open>Atomic operations\<close>

text \<open>Functions without a lock or a barrier: they are atomic for a single thread only.\<close>

definition atm_atomic_cmp_set :: "u32 \<Rightarrow> u32 \<Rightarrow> u32 \<Rightarrow> u32 \<times> u32" where
  "atm_atomic_cmp_set lock old v = (if lock = old then (1, v) else (0, lock))"

definition atm_atomic_fetch_add :: "u32 \<Rightarrow> u32 \<Rightarrow> u32 \<times> u32" where
  "atm_atomic_fetch_add value add = (value, value + add)"

end
