(* ===== verification/Atm_Main.thy ===== *)
theory Atm_Main
  imports Atm_Config_Start Atm_Net Atm_Sig Atm_Task_Props Atm_Server_Runs
begin

text \<open>
  \<^verbatim>\<open>src/core/atm_server.c\<close>: the start of the process and its endless loop, composed of the models
  of the components. The lemmas: the start establishes what the properties of the components
  rely on; the loop is the run of the server model until its 10000th round, which ends in a
  jump to a data address.
\<close>

section \<open>The start\<close>

text \<open>
  What the system gives during the start: the sockets, \<^verbatim>\<open>signal\<close>, the results of \<^verbatim>\<open>epoll_create\<close>,
  of the two calls of \<^verbatim>\<open>pipe\<close> and of \<^verbatim>\<open>pthread_create\<close>, the bytes that go into the seed, and the
  bytes at the address of \<^verbatim>\<open>atm_task_moniter_routine\<close>.
\<close>

record ('a, 'k) start_sys =
  st_net :: "('a, 'k) net_sys"
  st_signal :: "'k sys_signal"
  st_epfd :: int
  st_pipes :: "(int \<times> int \<times> int) \<times> (int \<times> int \<times> int)"
  st_thread :: "nat \<Rightarrow> int"
  st_usec :: "u8 list"
  st_sec :: "u8 list"
  st_pid :: "u8 list"
  st_rnd :: "nat \<Rightarrow> u8"
  st_code :: "u8 list"

text \<open>
  The static variables of the process. The addresses of the events of the start are numbered
  on their own.
\<close>

record service =
  sc_srv :: srv
  sc_listens :: "atm_conn_listen list"
  sc_engine :: engine
  sc_tasks :: task_st
  sc_pipe :: "atm_task atm_pipe"
  sc_ctx :: "atm_ctx option"

definition atm_test_in_test_mod :: "char list list \<Rightarrow> bool" where
  "atm_test_in_test_mod argv = (1 < length argv \<and> c_strcmp ''test'' (c_str (argv ! 1)) = 0)"

definition atm_dict_init :: "('a, 'k) start_sys \<Rightarrow> u8 list" where
  "atm_dict_init sys = atm_siphash_init (st_usec sys) (st_sec sys) (st_pid sys) (st_rnd sys)"

text \<open>
  The cache is made by \<^verbatim>\<open>atm_ctx_init\<close>. The list of \<^verbatim>\<open>w_free\<close> is replaced by \<^verbatim>\<open>atm_conn_init\<close>,
  and the pool by \<^verbatim>\<open>atm_blk_init\<close>; until then the pointers are NULL and not used.
\<close>

definition app_start :: "('a, 'k) start_sys \<Rightarrow> app" where
  "app_start sys =
     \<lparr>w_pool = None, w_ops = [], w_tasks = [], w_ctl = [], w_free = atm_list_new None ATM_FREE_SHALLOW,
      w_cache = atm_dict_new ATM_OBJ_T (Some ATM_OBJ_T) ATM_FREE_DEEP, w_cmds = None, w_seed = atm_dict_init sys\<rparr>"

definition engine_start :: engine where
  "engine_start = \<lparr>en_ep = -1, en_nevents = 0, en_pipe = None\<rparr>"

definition atm_service_init :: "('a, 'k) start_sys \<Rightarrow> settings \<Rightarrow> 'k \<Rightarrow> (service \<times> 'k) res" where
  "atm_service_init sys conf k =
     (let w = app_start sys in
      res_bind (atm_ctx_init (st_code sys)) (\<lambda>cx.
      res_bind (atm_sig_init (st_signal sys) k) (\<lambda>k.
      let w = w\<lparr>w_pool := atm_blk_init\<rparr> in
      res_bind (atm_event_init (st_epfd sys) (fst (st_pipes sys)) 0 engine_start) (\<lambda>(en, calls).
      res_bind (atm_conn_init (atm_net_listen_tcp (st_net sys) (cf_port conf) (cf_tcpbacklog conf))
          (\<lambda>ss. atm_net_nonblock (st_net sys) ss True) (cf_bindaddr_count conf) (cf_bindaddr conf) 1 k
          (log_ctl calls w)) (\<lambda>(ls, k, w).
      res_bind (atm_task_init (map (st_thread sys) [0..<nat (cf_workernum conf)]) (snd (st_pipes sys))
          (Suc (length ls)) no_workers) (\<lambda>(ts, p, calls).
      res_map (\<lambda>w. (\<lparr>sc_srv = srv_new w, sc_listens = ls, sc_engine = en, sc_tasks = ts, sc_pipe = p, sc_ctx = Some cx\<rparr>, k))
        (atm_cmd_init (log_ctl calls w))))))))"

section \<open>The loop\<close>

text \<open>
  What happens during each call of \<^verbatim>\<open>atm_event_routine\<close>, in the threads too, is a list of the
  inputs of the server model; the rounds that are given are the ones that are run.
\<close>

fun atm_service :: "srv_in list list \<Rightarrow> service \<Rightarrow> service res" where
  "atm_service [] sv = Inr sv"
| "atm_service (ins # rounds) sv =
     res_bind (srv_run ins (sc_srv sv)) (\<lambda>s.
     res_bind (atm_ctx_callback_loop (sc_ctx sv)) (\<lambda>cx.
       atm_service rounds (sv\<lparr>sc_srv := s, sc_ctx := cx\<rparr>)))"

text \<open>
  The whole program, without the test suite: the parameters of \<^verbatim>\<open>atm_config_init\<close> and
  \<^verbatim>\<open>atm_log_init\<close>, those of the start, and the rounds.
\<close>

definition atm_server_main ::
  "char list list \<Rightarrow> char list option \<Rightarrow> (char list \<Rightarrow> u32 option) \<Rightarrow> char list \<Rightarrow>
   (char list \<Rightarrow> char list list option) \<Rightarrow> (char list \<Rightarrow> bool) \<Rightarrow> string option \<Rightarrow> log_st \<Rightarrow>
   ('a, 'k) start_sys \<Rightarrow> 'k \<Rightarrow> srv_in list list \<Rightarrow> (int \<times> service option) res" where
  "atm_server_main argv link lstat conf_name fopen fopen_log errlog lg sys k rounds =
     res_bind (atm_config_init argv link lstat conf_name fopen) (\<lambda>cfg.
     res_bind (atm_log_init link fopen_log errlog (cf_logfile cfg) lg) (\<lambda>lg.
       if atm_test_in_test_mod argv then Inr (ATM_OK, None)
       else
         res_bind (atm_service_init sys (conf_abs cfg) k) (\<lambda>(sv, k).
         res_map (\<lambda>sv. (ATM_OK, Some sv)) (atm_service rounds sv))))"

section \<open>What the start establishes\<close>

lemma event_init_ok:
  "fst fds = 0 \<Longrightarrow> \<exists>en calls. atm_event_init epfd fds a engine_start = Inr (en, calls) \<and> en_ep en = epfd"
proof -
  assume "fst fds = 0"
  then obtain p :: "event_op atm_pipe" where p: "atm_pipe_new fds = Inr p" using pipe_new_ok by blast
  obtain q calls where "atm_pipe_event_init a p = (q, calls)" by fastforce
  with p show ?thesis by (simp add: atm_event_init_def engine_start_def)
qed

lemma listen_loop_length: "listen_loop lis nb bs a k = (ls, calls, k') \<Longrightarrow> length ls \<le> length bs"
proof (induction lis nb bs a k arbitrary: ls calls k' rule: listen_loop.induct)
  case (2 lis nb b bs a k)
  then show ?case by (fastforce simp: Let_def split: prod.splits option.splits if_splits)
qed simp

lemma conn_init_ok:
  assumes "bind_valid n bindaddr"
  obtains ls k' calls where "atm_conn_init lis nb n bindaddr a k w =
      Inr (ls, k', (log_ctl calls w)\<lparr>w_free := atm_list_new None ATM_FREE_SHALLOW\<rparr>)" "length ls \<le> max 1 n"
proof -
  obtain bs where bs: "(if n = 0 then (case bindaddr of None \<Rightarrow> Inr [Some ''0.0.0.0''] | Some _ \<Rightarrow> Inl (Exit ATM_ERROR))
      else res_bind (of_some Null_deref bindaddr) (\<lambda>bs. mem_read bs 0 n)) = Inr bs" "length bs \<le> max 1 n"
    using assms by (auto simp: bind_valid_def split: option.splits)
  obtain ls calls k' where l: "listen_loop lis nb bs a k = (ls, calls, k')" by (metis prod_cases3)
  have "atm_conn_init lis nb n bindaddr a k w =
      Inr (ls, k', (log_ctl calls w)\<lparr>w_free := atm_list_new None ATM_FREE_SHALLOW\<rparr>)"
    unfolding atm_conn_init_def atm_conn_listen_tcp_def bs(1) using l by simp
  moreover have "length ls \<le> max 1 n" using listen_loop_length [OF l] bs(2) by simp
  ultimately show thesis by (rule that)
qed

text \<open>The calls of the system that the start does not survive without.\<close>

definition start_ok :: "('a, 'k) start_sys \<Rightarrow> 'k \<Rightarrow> bool" where
  "start_ok sys k \<longleftrightarrow> fst (fst (st_pipes sys)) = 0 \<and> fst (snd (st_pipes sys)) = 0 \<and> 8 \<le> length (st_code sys)
     \<and> (case atm_sig_init (st_signal sys) k of Inl _ \<Rightarrow> False | Inr _ \<Rightarrow> True)"

lemma first_session:
  assumes "wf_pool (w_pool w)" "cmds_ok w" "cache_ok w" "accept_conn a ea cs w = (c, w')"
  shows "sess_ready (atm_sess_new c) w'" "cache_abs w' = cache_abs w"
proof -
  have p: "w_pool w' = w_pool w" "w_cache w' = w_cache w" "w_cmds w' = w_cmds w" "w_seed w' = w_seed w"
    using assms(4) by (auto simp: accept_conn_def atm_event_add_conn_def log_ctl_def Let_def split: prod.splits)
  have "wf_conn c w'" "c_event c \<noteq> None"
    using assms(1,4) p(1) by (auto simp: accept_conn_def atm_event_add_conn_def atm_conn_new_def wf_conn_def Let_def split: prod.splits)
  then show "sess_ready (atm_sess_new c) w'" using assms(2,3) app_cong [OF p(2,3,4)]
    by (simp add: sess_ready_def atm_sess_new_def sess_idle_def)
  show "cache_abs w' = cache_abs w" using app_cong(3) [OF p(2,3,4)] .
qed

lemma service_starts:
  assumes conf: "conf_valid conf" "cf_workernum conf < 2 ^ 24" and sys: "start_ok sys k"
  shows "\<exists>sv k' w ads. atm_service_init sys conf k = Inr (sv, k') \<and> sc_srv sv = srv_new w
    \<and> wf_pool (w_pool w) \<and> cmds_ok w \<and> cache_ok w \<and> cache_abs w = Map.empty \<and> (\<forall>t. cache_room w t)
    \<and> w_tasks w = [] \<and> w_ops w = []
    \<and> (\<forall>a ea cs. case accept_conn a ea cs w of (c, w') \<Rightarrow> sess_ready (atm_sess_new c) w' \<and> cache_abs w' = Map.empty)
    \<and> init_ok (sc_tasks sv) ads
    \<and> length ads = length (filter (\<lambda>i. st_thread sys i = ATM_OK) [0..<nat (cf_workernum conf)])
    \<and> length (sc_listens sv) \<le> max 1 (cf_bindaddr_count conf)"
proof -
  have pipes: "fst (fst (st_pipes sys)) = 0" "fst (snd (st_pipes sys)) = 0" and code: "8 \<le> length (st_code sys)"
    using sys by (simp_all add: start_ok_def)
  obtain cx where cx: "atm_ctx_init (st_code sys) = Inr cx" using ctx_init_armed [OF code] by blast
  obtain k1 where k1: "atm_sig_init (st_signal sys) k = Inr k1"
    using sys by (auto simp: start_ok_def split: sum.splits)
  obtain en calls where en: "atm_event_init (st_epfd sys) (fst (st_pipes sys)) 0 engine_start = Inr (en, calls)"
    using event_init_ok [OF pipes(1)] by blast
  let ?w0 = "log_ctl calls (app_start sys\<lparr>w_pool := atm_blk_init\<rparr>)"
  have bind: "bind_valid (cf_bindaddr_count conf) (cf_bindaddr conf)" using conf(1) by (simp add: conf_valid_def)
  obtain ls k2 calls1 where ls: "atm_conn_init (atm_net_listen_tcp (st_net sys) (cf_port conf) (cf_tcpbacklog conf))
        (\<lambda>ss. atm_net_nonblock (st_net sys) ss True) (cf_bindaddr_count conf) (cf_bindaddr conf) 1 k1 ?w0
      = Inr (ls, k2, (log_ctl calls1 ?w0)\<lparr>w_free := atm_list_new None ATM_FREE_SHALLOW\<rparr>)"
      "length ls \<le> max 1 (cf_bindaddr_count conf)"
    by (rule conn_init_ok [OF bind])
  let ?w1 = "(log_ctl calls1 ?w0)\<lparr>w_free := atm_list_new None ATM_FREE_SHALLOW\<rparr>"
  let ?cs = "map (st_thread sys) [0..<nat (cf_workernum conf)]"
  have "0 < tk_brk no_workers" "length ?cs < 2 ^ 24" using conf(2) by (simp_all add: no_workers_def)
  from task_init_ok [OF this pipes(2)] obtain ts p calls2 ads where
      ts: "atm_task_init ?cs (snd (st_pipes sys)) (Suc (length ls)) no_workers = Inr (ts, p, calls2)" "init_ok ts ads"
      "length ads = length (filter (\<lambda>c. c = ATM_OK) ?cs)"
    by blast
  obtain d w where w: "atm_cmd_init (log_ctl calls2 ?w1) = Inr w" "cmds_ok w" "w = (log_ctl calls2 ?w1)\<lparr>w_cmds := d\<rparr>"
    using atm_cmd_init_ok by blast
  have start: "atm_service_init sys conf k =
      Inr (\<lparr>sc_srv = srv_new w, sc_listens = ls, sc_engine = en, sc_tasks = ts, sc_pipe = p, sc_ctx = Some cx\<rparr>, k2)"
    using cx k1 en ls(1) ts(1) w(1) by (simp add: atm_service_init_def)
  have c: "w_cache w = atm_dict_new ATM_OBJ_T (Some ATM_OBJ_T) ATM_FREE_DEEP" "w_pool w = atm_blk_init"
      "w_tasks w = []" "w_ops w = []"
    by (simp_all add: w(3) log_ctl_def app_start_def)
  have wp: "wf_pool (w_pool w)" by (simp add: c(2))
  from first_session [OF wp w(2) cache_new_ok(1) [OF c(1)]] cache_new_ok(2) [OF c(1)]
  have s: "case accept_conn a ea cs w of (x, w') \<Rightarrow> sess_ready (atm_sess_new x) w' \<and> cache_abs w' = Map.empty" for a ea cs
    by (fastforce split: prod.splits)
  have "length ads = length (filter (\<lambda>i. st_thread sys i = ATM_OK) [0..<nat (cf_workernum conf)])"
    using ts(3) by (simp add: filter_map comp_def)
  then show ?thesis using start wp w(2) cache_new_ok [OF c(1)] c(3,4) s ts(2) ls(2)
    by (intro exI [of _ w] exI conjI) (assumption | simp)+
qed

section \<open>The rounds of the loop\<close>

lemma srv_run_append: "srv_run (xs @ ys) s = res_bind (srv_run xs s) (srv_run ys)"
proof (induction xs arbitrary: s)
  case (Cons x xs)
  then show ?case by (cases "srv_do x s") simp_all
qed simp

lemma atm_service_append: "atm_service (xs @ ys) sv = res_bind (atm_service xs sv) (atm_service ys)"
proof (induction xs arbitrary: sv)
  case (Cons x xs)
  then show ?case
    by (cases "srv_run x (sc_srv sv)"; cases "atm_ctx_callback_loop (sc_ctx sv)") simp_all
qed simp

lemma service_runs:
  assumes "sc_ctx sv = Some cx" "unat (cx_loop_count cx) + length rounds < 10000"
  shows "atm_service rounds sv =
    res_map (\<lambda>s. sv\<lparr>sc_srv := s, sc_ctx := Some (cx\<lparr>cx_loop_count := cx_loop_count cx + of_nat (length rounds)\<rparr>)\<rparr>)
      (srv_run (concat rounds) (sc_srv sv))"
  using assms
proof (induction rounds arbitrary: sv cx)
  case Nil
  then show ?case by simp
next
  case (Cons ins rounds)
  let ?cx = "cx\<lparr>cx_loop_count := cx_loop_count cx + 1\<rparr>"
  have "unat (cx_loop_count cx) < 9999" using Cons.prems(2) by simp
  note e = callback_early [OF this]
  show ?case
  proof (cases "srv_run ins (sc_srv sv)")
    case (Inl f)
    then show ?thesis by (simp add: srv_run_append)
  next
    case (Inr s)
    have "unat (cx_loop_count ?cx) + length rounds < 10000" using Cons.prems(2) e(2) by simp
    from Cons.IH [OF _ this, of "sv\<lparr>sc_srv := s, sc_ctx := Some ?cx\<rparr>"] show ?thesis
      using Inr Cons.prems(1) e(1) by (simp add: srv_run_append algebra_simps)
  qed
qed

lemma service_dies:
  assumes cx: "sc_ctx sv = Some cx" "ctx_armed cx" "cx_loop_count cx = 0" and n: "10000 \<le> length rounds"
  shows "atm_service rounds sv =
    Inl (case srv_run (concat (take 10000 rounds)) (sc_srv sv) of Inl f \<Rightarrow> f | Inr _ \<Rightarrow> Bad_jump)"
proof -
  let ?a = "take 9999 rounds" and ?l = "rounds ! 9999" and ?b = "drop 10000 rounds"
  have t: "take 10000 rounds = ?a @ [?l]" using take_Suc_conv_app_nth [of 9999 rounds] n by simp
  have r: "rounds = ?a @ (?l # ?b)" using t append_take_drop_id [of 10000 rounds] by simp
  have a: "atm_service ?a sv = res_map (\<lambda>s. sv\<lparr>sc_srv := s, sc_ctx := Some (cx\<lparr>cx_loop_count := 9999\<rparr>)\<rparr>)
      (srv_run (concat ?a) (sc_srv sv))"
    using service_runs [OF cx(1), of ?a] n cx(3) by simp
  have j: "atm_ctx_callback_loop (Some (cx\<lparr>cx_loop_count := 9999\<rparr>)) = Inl Bad_jump"
    using callback_jumps [of "cx\<lparr>cx_loop_count := 9999\<rparr>"] cx(2) by (simp add: ctx_armed_def)
  have "atm_service rounds sv = res_bind (atm_service ?a sv) (atm_service (?l # ?b))"
    by (subst r) (rule atm_service_append)
  also have "\<dots> = Inl (case srv_run (concat ?a @ ?l) (sc_srv sv) of Inl f \<Rightarrow> f | Inr _ \<Rightarrow> Bad_jump)"
  proof (cases "srv_run (concat ?a) (sc_srv sv)")
    case (Inr s)
    then show ?thesis using a j by (cases "srv_run ?l s") (simp_all add: srv_run_append)
  qed (use a in \<open>simp add: srv_run_append\<close>)
  finally show ?thesis by (simp add: t)
qed

section \<open>Properties\<close>

text \<open>
  Property C10. With a configuration that the parser accepts, and when no system call of the
  start ends the process, the start succeeds and establishes what the rest relies on: the
  server is in the state from which its runs are taken, the cache is empty and well-formed,
  the command table holds the commands, every accepted connection has a session that is ready,
  there is a worker with an empty queue for each created thread, and at most one listening
  socket for each address.
\<close>

theorem atm_service_init_ready:
  assumes conf: "conf_valid conf" "cf_workernum conf < 2 ^ 24" and sys: "start_ok sys k"
  shows "\<exists>sv k' w ads. atm_service_init sys conf k = Inr (sv, k') \<and> sc_srv sv = srv_new w
    \<and> wf_pool (w_pool w) \<and> cmds_ok w \<and> cache_ok w \<and> cache_abs w = Map.empty \<and> (\<forall>t. cache_room w t)
    \<and> w_tasks w = [] \<and> w_ops w = []
    \<and> (\<forall>a ea cs. case accept_conn a ea cs w of (c, w') \<Rightarrow> sess_ready (atm_sess_new c) w' \<and> cache_abs w' = Map.empty)
    \<and> init_ok (sc_tasks sv) ads
    \<and> length ads = length (filter (\<lambda>i. st_thread sys i = ATM_OK) [0..<nat (cf_workernum conf)])
    \<and> length (sc_listens sv) \<le> max 1 (cf_bindaddr_count conf)"
  using assms by (rule service_starts)

definition test_start :: "(nat, int list) start_sys" where
  "test_start = \<lparr>st_net = test_kernel, st_signal = (\<lambda>_ _ k. (True, k)), st_epfd = 4, st_pipes = ((0, 5, 6), (0, 7, 8)),
     st_thread = (\<lambda>i. if i = 1 then 11 else ATM_OK), st_usec = replicate 8 7, st_sec = replicate 8 9,
     st_pid = replicate 4 1, st_rnd = of_nat, st_code = [85, 72, 137, 229, 83, 72, 131, 236]\<rparr>"

definition test_conf :: settings where
  "test_conf = config_zero\<lparr>cf_port := 8088, cf_workernum := 3\<rparr>"

lemma test_start_ok: "start_ok test_start k" "conf_valid test_conf"
  by (simp_all add: start_ok_def test_start_def atm_sig_init_def conf_valid_def bind_valid_def test_conf_def config_zero_def)

theorem atm_service_init_ready_witness:
  "\<exists>sv k' w ads. atm_service_init test_start test_conf [0, 1, 2] = Inr (sv, k') \<and> sc_srv sv = srv_new w
    \<and> cmds_ok w \<and> cache_ok w \<and> init_ok (sc_tasks sv) ads \<and> length ads = 2 \<and> length (sc_listens sv) \<le> 1"
proof -
  have w: "cf_workernum test_conf < 2 ^ 24" "cf_workernum test_conf = 3" "cf_bindaddr_count test_conf = 0"
    by (simp_all add: test_conf_def config_zero_def)
  have l: "length (filter (\<lambda>i. st_thread test_start i = ATM_OK) [0..<nat 3]) = 2"
    by (simp add: test_start_def ATM_OK_def upt_rec)
  from atm_service_init_ready [OF test_start_ok(2) w(1) test_start_ok(1) [of "[0, 1, 2]"]] w(2,3) l
  show ?thesis by (fastforce simp: w(2,3))
qed

text \<open>
  Property C11. The endless loop is the run of the server until its 10000th round, and no
  further: with fewer rounds it ends in the state to which the inputs of all rounds lead the
  server, and with 10000 it is a jump to a data address, unless a fault of the server came first.
\<close>

theorem atm_service_ends:
  assumes "8 \<le> length (st_code sys)" "atm_service_init sys conf k = Inr (sv, k')"
  shows "if length rounds < 10000
    then res_map sc_srv (atm_service rounds sv) = srv_run (concat rounds) (sc_srv sv)
    else atm_service rounds sv =
      Inl (case srv_run (concat (take 10000 rounds)) (sc_srv sv) of Inl f \<Rightarrow> f | Inr _ \<Rightarrow> Bad_jump)"
proof -
  obtain cx where cx: "atm_ctx_init (st_code sys) = Inr cx" "ctx_armed cx" "cx_loop_count cx = 0"
    using ctx_init_armed [OF assms(1)] by blast
  have c: "sc_ctx sv = Some cx"
    using assms(2) cx(1) by (auto simp: atm_service_init_def res_bind_eq_Inr res_map_eq_Inr Let_def)
  show ?thesis
  proof (cases "length rounds < 10000")
    case True
    then have "unat (cx_loop_count cx) + length rounds < 10000" using cx(3) by simp
    from service_runs [OF c this] True show ?thesis
      by (cases "srv_run (concat rounds) (sc_srv sv)") simp_all
  next
    case False
    then show ?thesis using service_dies [OF c cx(2,3), of rounds] by simp
  qed
qed

theorem atm_service_ends_witness:
  "\<exists>sv k'. atm_service_init test_start test_conf [0, 1, 2] = Inr (sv, k')
    \<and> res_map sc_srv (atm_service [[], []] sv) = Inr (sc_srv sv)
    \<and> atm_service (replicate 10000 []) sv = Inl Bad_jump"
proof -
  have code: "8 \<le> length (st_code test_start)" by (simp add: test_start_def)
  obtain sv k' where sv: "atm_service_init test_start test_conf [0, 1, 2] = Inr (sv, k')"
    using service_starts [OF test_start_ok(2) _ test_start_ok(1), of "[0, 1, 2]"]
    by (auto simp: test_conf_def config_zero_def)
  have "srv_run (concat (take 10000 (replicate 10000 []))) (sc_srv sv) = Inr (sc_srv sv)" by simp
  with atm_service_ends [OF code sv, of "[[], []]"] atm_service_ends [OF code sv, of "replicate 10000 []"] sv
  show ?thesis by simp
qed

text \<open>As the code is written the program does not get so far: see \<^verbatim>\<open>Atm_Config_Start\<close>.\<close>

lemma main_never:
  "\<exists>f. atm_server_main argv link lstat conf_name fopen fopen_log errlog lg sys k rounds = Inl f"
  using config_init_faults [of argv link lstat conf_name fopen] by (auto simp: atm_server_main_def)

end
