(* ===== verification/Atm_Server_Safe.thy ===== *)
theory Atm_Server_Safe
  imports Atm_Request Atm_Main "HOL-Library.Sublist"
begin

text \<open>
  The running server refines a table of keys and values. As long as nothing refers to a freed
  connection, and no command is one that reads behind its arguments, every input is handled
  without a fault, in any order of tasks, and the cache is what the served lines make of it,
  by \<^verbatim>\<open>cmd_spec\<close>, one after the other.
\<close>

section \<open>What the server relies on\<close>

definition srv_data :: "srv \<Rightarrow> bool" where
  "srv_data s \<longleftrightarrow> cmds_ok (sv_w s) \<and> cache_ok (sv_w s) \<and> wf_pool (w_pool (sv_w s))
     \<and> (\<forall>a se. sv_conns s a = Some se \<longrightarrow> sess_ready se (sv_w s))
     \<and> (\<forall>ea a. sv_evs s ea = Some a \<longrightarrow> a \<in> dom (sv_conns s))"

text \<open>The bytes that a script gives before the end of the input.\<close>

definition script_pend :: "u8 list list \<Rightarrow> u8 list" where
  "script_pend rs = concat (takeWhile (\<lambda>b. b \<noteq> []) rs)"

text \<open>What an input refers to is allocated.\<close>

definition live :: "srv_in \<Rightarrow> srv \<Rightarrow> bool" where
  "live i s = (case i of
     In_accept _ \<Rightarrow> True
   | In_events es \<Rightarrow> (\<forall>x \<in> set es. sv_evs s (fst x) \<noteq> None)
   | In_op \<Rightarrow> (case w_ops (sv_w s) of [] \<Rightarrow> True | op # _ \<Rightarrow> sv_evs s (eo_e op) \<noteq> None)
   | In_task n _ _ _ \<Rightarrow>
       (let ts = w_tasks (sv_w s) in
        n < length ts \<longrightarrow> t_run (ts ! n) \<noteq> Task_free \<longrightarrow>
        (case t_load (ts ! n) of None \<Rightarrow> False | Some a \<Rightarrow> sv_conns s a \<noteq> None)))"

text \<open>
  What the session of a read task finds in its buffer: \<^verbatim>\<open>None\<close> when it is not called, because
  the connection was deactivated or the socket gives the end of the input or an error.
\<close>

definition task_input :: "atm_sess \<Rightarrow> u8 list list \<Rightarrow> bool \<Rightarrow> u8 list option" where
  "task_input se rs eagain =
     (case c_event (se_conn se) of None \<Rightarrow> None
      | Some e \<Rightarrow> if ev_active e \<and> (script_pend rs \<noteq> [] \<or> rs = [] \<and> eagain)
                  then Some (conn_in (se_conn se) @ script_pend rs) else None)"

definition srv_input :: "srv_in \<Rightarrow> srv \<Rightarrow> (addr \<times> u8 list) option" where
  "srv_input i s = (case i of
     In_task n rs _ eagain \<Rightarrow>
       (let ts = w_tasks (sv_w s) in
        if n < length ts \<and> t_run (ts ! n) = Task_read
        then Option.bind (t_load (ts ! n)) (\<lambda>a.
             Option.bind (sv_conns s a) (\<lambda>se. map_option (Pair a) (task_input se rs eagain)))
        else None)
   | _ \<Rightarrow> None)"

text \<open>The connection and the line that the input has served, as its words.\<close>

definition srv_served :: "srv_in \<Rightarrow> srv \<Rightarrow> (addr \<times> char list list) list" where
  "srv_served i s = (case srv_input i s of None \<Rightarrow> []
     | Some (a, inp) \<Rightarrow> if has_line inp then [(a, line_words inp)] else [])"

text \<open>
  The commands that are allowed: \<^verbatim>\<open>set\<close> has a key, the table has room for it, and a connection
  does not hold more input than an \<^verbatim>\<open>int\<close> counts.
\<close>

definition in_ok :: "srv_in \<Rightarrow> srv \<Rightarrow> bool" where
  "in_ok i s \<longleftrightarrow> (case srv_input i s of None \<Rightarrow> True | Some (a, inp) \<Rightarrow> length inp < 2 ^ 31 - 1)
     \<and> (\<forall>x \<in> set (srv_served i s). runnable (snd x) (sv_w s))"

section \<open>The table of keys and values\<close>

text \<open>What the server is to do: the table, and the replies to each connection, one line at a time.\<close>

type_synonym table = "(char list \<rightharpoonup> char list) \<times> (addr \<Rightarrow> u8 list)"

definition table_new :: table where
  "table_new = (Map.empty, \<lambda>_. [])"

definition table_serve :: "addr \<times> char list list \<Rightarrow> table \<Rightarrow> table" where
  "table_serve q t = (case q of (a, ws) \<Rightarrow> case t of (m, outs) \<Rightarrow>
     case cmd_spec ws m of (m', r) \<Rightarrow> (m', outs(a := outs a @ bytes_of (r @ [NL]))))"

text \<open>
  The server implements the table when its cache is the table, and what a connection has sent
  with what waits in its buffer are the replies to it. The buffer of a freed connection is lost.
\<close>

definition srv_abs :: "srv \<Rightarrow> table \<Rightarrow> bool" where
  "srv_abs s t \<longleftrightarrow> fst t = cache_abs (sv_w s) \<and> (\<forall>a. sv_brk s \<le> a \<longrightarrow> snd t a = [] \<and> sv_sent s a = [])
     \<and> (\<forall>a. prefix (sv_sent s a) (snd t a))
     \<and> (\<forall>a se. sv_conns s a = Some se \<longrightarrow> snd t a = sv_sent s a @ conn_out (se_conn se))"

section \<open>One connection at a time\<close>

lemma ready_other: "sess_ready se w \<Longrightarrow> wf_pool (w_pool w') \<Longrightarrow> cmds_ok w' \<Longrightarrow> cache_ok w' \<Longrightarrow> sess_ready se w'"
  by (auto simp: sess_ready_def wf_conn_def intro: wf_buf_pool)

lemma ready_world: "sess_ready se w \<Longrightarrow> wf_pool (w_pool w) \<and> cmds_ok w \<and> cache_ok w"
  using wf_buf_poolD by (auto simp: sess_ready_def wf_conn_def)

lemma put_sess_data:
  assumes d: "srv_data s" and a: "sv_conns s a = Some se" and r: "sess_ready se' w'"
  shows "srv_data (put_sess a se' w' s)"
proof -
  note w = ready_world [OF r]
  have "sess_ready se'' w'" if "sv_conns s b = Some se''" for b se''
    using d that ready_other [of se'' "sv_w s" w'] w by (simp add: srv_data_def)
  then show ?thesis using d r w by (auto simp: srv_data_def put_sess_def)
qed

text \<open>A step that serves nothing.\<close>

definition calm :: "srv \<Rightarrow> srv \<Rightarrow> bool" where
  "calm s s' \<longleftrightarrow> srv_data s' \<and> sv_evs s' = sv_evs s \<and> (\<forall>t. srv_abs s t \<longrightarrow> srv_abs s' t)"

lemma calm_refl: "srv_data s \<Longrightarrow> calm s s"
  by (simp add: calm_def)

lemma calm_trans: "calm s t \<Longrightarrow> calm t u \<Longrightarrow> calm s u"
  by (simp add: calm_def)

definition same_app :: "app \<Rightarrow> app \<Rightarrow> bool" where
  "same_app w w' \<longleftrightarrow> w_cache w' = w_cache w \<and> w_cmds w' = w_cmds w \<and> w_seed w' = w_seed w"

lemma same_appD:
  "same_app w w' \<Longrightarrow> cmds_ok w' = cmds_ok w \<and> cache_ok w' = cache_ok w \<and> cache_abs w' = cache_abs w"
  unfolding same_app_def using app_cong by blast

lemma same_app_rest:
  assumes "world_rest w' = world_rest w"
  shows "same_app w w'"
  using app_restD [OF assms] by (simp add: same_app_def)

lemma same_app_trans: "same_app w w1 \<Longrightarrow> same_app w1 w2 \<Longrightarrow> same_app w w2"
  by (simp add: same_app_def)

lemma put_calm:
  assumes d: "srv_data s" and a: "sv_conns s a = Some se"
    and c: "same_app (sv_w s) w'" "wf_conn c' w'" "c_event c' \<noteq> None" "conn_out c' = conn_out (se_conn se)"
  shows "calm s (put_sess a (se\<lparr>se_conn := c'\<rparr>) w' s)"
proof -
  have "sess_ready se (sv_w s)" using d a by (simp add: srv_data_def)
  then have "sess_ready (se\<lparr>se_conn := c'\<rparr>) w'"
    using same_appD [OF c(1)] c(2,3) by (simp add: sess_ready_def sess_idle_def)
  from put_sess_data [OF d a this] show ?thesis
    using a c(4) same_appD [OF c(1)] by (auto simp: calm_def put_sess_def srv_abs_def)
qed

lemma data_conn:
  assumes "srv_data s" "sv_evs s ea = Some a"
  shows "\<exists>se. sv_conns s a = Some se \<and> sess_ready se (sv_w s)"
proof -
  have "a \<in> dom (sv_conns s)" using assms by (simp add: srv_data_def)
  then obtain se where se: "sv_conns s a = Some se" by (auto simp: dom_def)
  with assms(1) show ?thesis by (simp add: srv_data_def)
qed

lemma calm_world:
  assumes d: "srv_data s" and sa: "same_app (sv_w s) w'" and p: "wf_pool (w_pool w')"
  shows "calm s (s\<lparr>sv_w := w'\<rparr>)"
proof -
  note a = same_appD [OF sa]
  have c: "cmds_ok w'" "cache_ok w'" using d a by (simp_all add: srv_data_def)
  have "sess_ready se w'" if "sv_conns s b = Some se" for b se
    using d that ready_other [OF _ p c, of se "sv_w s"] by (simp add: srv_data_def)
  then show ?thesis using d a p by (auto simp: srv_data_def calm_def srv_abs_def)
qed

lemma with_conn_calm:
  assumes d: "srv_data s" and ex: "sv_evs s ea = Some a"
    and f: "\<And>se e. sess_ready se (sv_w s) \<Longrightarrow> c_event (se_conn se) = Some e \<Longrightarrow>
      \<exists>c' w'. f (se_conn se) (sv_w s) = Inr (c', w') \<and> same_app (sv_w s) w' \<and> wf_conn c' w'
        \<and> c_event c' \<noteq> None \<and> conn_out c' = conn_out (se_conn se)"
  shows "\<exists>s'. with_conn f a s = Inr s' \<and> calm s s'"
proof -
  obtain se where se: "sv_conns s a = Some se" "sess_ready se (sv_w s)" using data_conn [OF d ex] by blast
  then obtain e where "c_event (se_conn se) = Some e" by (auto simp: sess_ready_def)
  from f [OF se(2) this] obtain c' w' where c: "f (se_conn se) (sv_w s) = Inr (c', w')"
      "same_app (sv_w s) w'" "wf_conn c' w'" "c_event c' \<noteq> None" "conn_out c' = conn_out (se_conn se)" by blast
  from put_calm [OF d se(1) c(2-5)] c(1) se(1) show ?thesis by (simp add: with_conn_def get_sess_def)
qed

section \<open>Events and operations\<close>

lemma handlers_calm:
  assumes d: "srv_data s" and ex: "sv_evs s ea = Some a"
  shows "\<exists>s'. srv_handle_read ea s = Inr s' \<and> calm s s'" "\<exists>s'. srv_handle_write ea s = Inr s' \<and> calm s s'"
proof -
  have t: "\<exists>c' w'. conn_task m r (se_conn se) (sv_w s) = Inr (c', w') \<and> same_app (sv_w s) w' \<and> wf_conn c' w'
      \<and> c_event c' \<noteq> None \<and> conn_out c' = conn_out (se_conn se)"
    if "sess_ready se (sv_w s)" "c_event (se_conn se) = Some e" for se e m r
    using that by (cases "atm_event_del_event e m")
      (auto simp: conn_task_def conn_event_def sess_ready_def same_app_def wf_conn_def atm_task_dispatch_def log_ctl_def
        conn_out_def)
  have "\<exists>c' w'. atm_conn_handle_read (se_conn se) (sv_w s) = Inr (c', w') \<and> same_app (sv_w s) w' \<and> wf_conn c' w'
      \<and> c_event c' \<noteq> None \<and> conn_out c' = conn_out (se_conn se)"
    if r: "sess_ready se (sv_w s)" "c_event (se_conn se) = Some e" for se e
    using t [OF r, of ATM_EVENT_READ Task_read] r(2)
    by (auto simp: atm_conn_handle_read_def conn_event_def wf_conn_def conn_out_def)
  from with_conn_calm [where f = atm_conn_handle_read, OF d ex this] show "\<exists>s'. srv_handle_read ea s = Inr s' \<and> calm s s'"
    using ex by (simp add: srv_handle_read_def get_ev_def)
  have "\<exists>c' w'. atm_conn_handle_write (se_conn se) (sv_w s) = Inr (c', w') \<and> same_app (sv_w s) w' \<and> wf_conn c' w'
      \<and> c_event c' \<noteq> None \<and> conn_out c' = conn_out (se_conn se)"
    if r: "sess_ready se (sv_w s)" "c_event (se_conn se) = Some e" for se e
    using t [OF r, of ATM_EVENT_WRITE Task_write] r(2)
    by (auto simp: atm_conn_handle_write_def conn_event_def wf_conn_def conn_out_def)
  from with_conn_calm [where f = atm_conn_handle_write, OF d ex this] show "\<exists>s'. srv_handle_write ea s = Inr s' \<and> calm s s'"
    using ex by (simp add: srv_handle_write_def get_ev_def)
qed

lemma event_there:
  assumes "srv_data s" "sv_evs s ea \<noteq> None"
  shows "\<exists>e. srv_event ea s = Inr e"
proof -
  obtain a se where "sv_evs s ea = Some a" "sv_conns s a = Some se" "sess_ready se (sv_w s)"
    using assms data_conn by blast
  then show ?thesis by (auto simp: srv_event_def get_ev_def get_sess_def sess_ready_def conn_event_def)
qed

lemma process_ev_calm:
  assumes d: "srv_data s" and ex: "sv_evs s ea \<noteq> None"
  shows "\<exists>s'. atm_event_process_ev (srv_event ea) (srv_handle_read ea) (srv_handle_write ea) evs s = Inr s' \<and> calm s s'"
proof -
  have one: "\<exists>t'. (if b then res_bind (srv_event ea t) (\<lambda>e. if P e then h t else Inr t) else Inr t) = Inr t' \<and> calm t t'"
    if t: "srv_data t" "sv_evs t ea \<noteq> None" and h: "\<exists>t'. h t = Inr t' \<and> calm t t'" for t h b P
  proof -
    obtain e where "srv_event ea t = Inr e" using event_there [OF t] by blast
    then show ?thesis using h calm_refl [OF t(1)] by simp
  qed
  let ?m = "if evs AND (EPOLLERR OR EPOLLHUP) \<noteq> 0 then evs OR (EPOLLIN OR EPOLLOUT) else evs"
  have hr: "\<exists>t'. srv_handle_read ea t = Inr t' \<and> calm t t'" "\<exists>t'. srv_handle_write ea t = Inr t' \<and> calm t t'"
    if "srv_data t" "sv_evs t ea \<noteq> None" for t using handlers_calm that by blast+
  obtain s1 where s1: "(if ?m AND EPOLLIN \<noteq> 0 then res_bind (srv_event ea s) (\<lambda>e. if ev_handle_read e \<and> ev_active e
      then srv_handle_read ea s else Inr s) else Inr s) = Inr s1" "calm s s1"
    using one [where h = "srv_handle_read ea" and b = "?m AND EPOLLIN \<noteq> 0" and P = "\<lambda>e. ev_handle_read e \<and> ev_active e", OF d ex hr(1) [OF d ex]] by blast
  have c: "srv_data s1" "sv_evs s1 ea \<noteq> None" using s1(2) ex by (simp_all add: calm_def)
  obtain s2 where s2: "(if ?m AND EPOLLOUT \<noteq> 0 then res_bind (srv_event ea s1) (\<lambda>e. if ev_handle_write e \<and> ev_active e
      then srv_handle_write ea s1 else Inr s1) else Inr s1) = Inr s2" "calm s1 s2"
    using one [where h = "srv_handle_write ea" and b = "?m AND EPOLLOUT \<noteq> 0" and P = "\<lambda>e. ev_handle_write e \<and> ev_active e", OF c hr(2) [OF c]] by blast
  show ?thesis unfolding atm_event_process_ev_def Let_def s1(1) res_bind_simps s2(1)
    using calm_trans [OF s1(2) s2(2)] by blast
qed

lemma process_all_calm:
  "srv_data s \<Longrightarrow> \<forall>x \<in> set es. sv_evs s (fst x) \<noteq> None \<Longrightarrow>
   \<exists>s'. process_all srv_event srv_handle_read srv_handle_write es s = Inr s' \<and> calm s s'"
proof (induction es arbitrary: s)
  case (Cons x es)
  obtain ea m where x: "x = (ea, m)" by (cases x)
  have ex: "sv_evs s ea \<noteq> None" using Cons.prems(2) x by simp
  obtain e where e: "srv_event ea s = Inr e" using event_there [OF Cons.prems(1) ex] by blast
  obtain s1 where s1: "(if ev_fd e = -1 then Inr s
      else atm_event_process_ev (srv_event ea) (srv_handle_read ea) (srv_handle_write ea) m s) = Inr s1" "calm s s1"
    using process_ev_calm [OF Cons.prems(1) ex] calm_refl [OF Cons.prems(1)] by (cases "ev_fd e = -1") auto
  obtain s2 where "process_all srv_event srv_handle_read srv_handle_write es s1 = Inr s2" "calm s1 s2"
    using Cons.IH [of s1] s1(2) Cons.prems(2) by (auto simp: calm_def)
  then show ?case using e s1 calm_trans [OF s1(2)] by (simp add: x)
qed (simp add: calm_refl)

lemma op_calm:
  assumes d: "srv_data s" and l: "live In_op s"
  shows "\<exists>s'. srv_op s = Inr s' \<and> calm s s'"
proof (cases "w_ops (sv_w s)")
  case Nil
  then show ?thesis using calm_refl [OF d] by (simp add: srv_op_def)
next
  case (Cons op ops)
  let ?s = "s\<lparr>sv_w := (sv_w s)\<lparr>w_ops := ops\<rparr>\<rparr>"
  have c: "calm s ?s" by (rule calm_world [OF d]) (use d in \<open>simp_all add: same_app_def srv_data_def\<close>)
  then have d1: "srv_data ?s" by (simp add: calm_def)
  obtain a where a: "sv_evs ?s (eo_e op) = Some a" using l Cons by (auto simp: live_def)
  have u: "\<exists>c' w'. upd_event f (se_conn se) (sv_w ?s) = Inr (c', w') \<and> same_app (sv_w ?s) w' \<and> wf_conn c' w'
      \<and> c_event c' \<noteq> None \<and> conn_out c' = conn_out (se_conn se)"
    if "sess_ready se (sv_w ?s)" "c_event (se_conn se) = Some e" for f se e
    using that by (cases "f e") (auto simp: upd_event_def conn_event_def sess_ready_def same_app_def wf_conn_def log_ctl_def conn_out_def)
  have "\<exists>s'. with_conn (upd_event f) a ?s = Inr s' \<and> calm s s'" for f
  proof -
    obtain s' where "with_conn (upd_event f) a ?s = Inr s'" "calm ?s s'"
      using with_conn_calm [where f = "upd_event f", OF d1 a] u by blast
    then show ?thesis using calm_trans [OF c] by blast
  qed
  then show ?thesis using Cons a c
    by (fastforce simp: srv_op_def atm_event_notify_handle_def get_ev_def)
qed

section \<open>Accepting\<close>

lemma add_conn_data:
  assumes d: "srv_data s"
  shows "srv_data (add_conn cs s)" "srv_abs s t \<Longrightarrow> srv_abs (add_conn cs s) t"
proof -
  let ?a = "sv_brk s"
  obtain c w where cw: "accept_conn ?a (Suc ?a) cs (sv_w s) = (c, w)" by (cases "accept_conn ?a (Suc ?a) cs (sv_w s)")
  have p: "wf_pool (w_pool (sv_w s))" "cmds_ok (sv_w s)" "cache_ok (sv_w s)" using d by (simp_all add: srv_data_def)
  note f = first_session [OF p cw]
  note w = ready_world [OF f(1)]
  have "sess_ready se w" if "sv_conns s b = Some se" for b se
    using d that ready_other [of se "sv_w s" w] w by (simp add: srv_data_def)
  then show "srv_data (add_conn cs s)" using d cw f w by (auto simp: srv_data_def add_conn_def Let_def)
  have "conn_out c = []"
    using cw by (auto simp: accept_conn_def atm_conn_new_def conn_out_def split: prod.splits)
  then show "srv_abs (add_conn cs s) t" if "srv_abs s t"
    using that cw f(2) by (auto simp: srv_abs_def add_conn_def atm_sess_new_def Let_def)
qed

lemma accept_loop_data:
  "srv_data s \<Longrightarrow> srv_data (snd (accept_loop acc n k s))
    \<and> (\<forall>t. srv_abs s t \<longrightarrow> srv_abs (snd (accept_loop acc n k s)) t)"
proof (induction n arbitrary: k s)
  case (Suc n)
  show ?case
  proof (cases "acc k")
    case (Pair x k')
    then show ?thesis using Suc.prems Suc.IH [OF add_conn_data(1) [OF Suc.prems]] add_conn_data(2) [OF Suc.prems]
      by (cases x) auto
  qed
qed simp

section \<open>The write task\<close>

lemma inactive_ok:
  assumes e: "c_event c = Some e" and l: "wf_list (w_free w)"
  shows "\<exists>c' w'. atm_conn_inactive c f w = Inr (c', w') \<and> same_app w w' \<and> (wf_conn c w \<longrightarrow> wf_conn c' w') 
    \<and> c_event c' \<noteq> None \<and> conn_out c' = conn_out c"
proof (cases "ev_active e")
  case True
  obtain fl where "atm_list_push (w_free w) (c_addr c) = Inr fl" using ld.push_law [OF l, of "c_addr c"] by auto
  with e True show ?thesis
    by (cases f) (simp_all add: atm_conn_inactive_def conn_event_def atm_conn_free_enqueue_def atm_conn_free_notify_def
        atm_task_dispatch_def clear_flag_def same_app_def wf_conn_def conn_out_def Let_def)
next
  case False
  with e show ?thesis
    by (simp add: atm_conn_inactive_def conn_event_def atm_conn_free_notify_def atm_task_dispatch_def same_app_def wf_conn_def
        conn_out_def)
qed

lemma free_check_ok:
  assumes e: "c_event c = Some e"
  shows "\<exists>c' w'. atm_conn_free_check c f w = Inr (c', w') \<and> same_app w w' \<and> (wf_conn c w \<longrightarrow> wf_conn c' w') 
    \<and> c_event c' \<noteq> None \<and> conn_out c' = conn_out c"
  using e by (cases f) (simp_all add: atm_conn_free_check_def conn_event_def atm_conn_free_notify_def atm_task_dispatch_def
      clear_flag_def same_app_def wf_conn_def conn_out_def)

lemma write_loop_safe:
  assumes wf: "wf_conn c w" and snk: "sock_sink wr sent" and e: "c_event c = Some e"
    and fuel: "length (conn_out c) < fuel" and l: "wf_list (w_free w)"
  shows "\<exists>go s' c' w'. task_write_loop wr eagain fuel (Suc n) s c w = Inr (go, s', c', w')
    \<and> same_app w w' \<and> wf_conn c' w' \<and> c_event c' \<noteq> None \<and> sent s' @ conn_out c' = sent s @ conn_out c"
proof (cases "ev_active e")
  case False
  then show ?thesis using e wf by (auto simp: conn_event_def same_app_def)
next
  case True
  obtain k r s1 c1 w1 where raw: "atm_conn_task_write_raw wr fuel s c w = Inr (r, s1, c1, w1)" "wf_conn c1 w1"
      "sent s1 = sent s @ take k (conn_out c)" "conn_out c1 = drop k (conn_out c)" "c_write_reqs c1 = c_write_reqs c" "conn_rest c1 = conn_rest c" "world_rest w1 = world_rest w"
    using task_write_raw_ok [OF wf snk fuel] by blast
  have e1: "c_event c1 = Some e" using conn_restD(1) [OF raw(6)] e by simp
  have l1: "wf_list (w_free w1)" using world_restD(3) [OF raw(7)] l by simp
  have out: "sent s1 @ conn_out c1 = sent s @ conn_out c" using raw(3,4) by simp
  note sa = same_app_rest [OF raw(7)]
  consider (err) "r = -1" "\<not> eagain s1" | (zero) "r = 0" | (part) "r \<noteq> 0" "\<not> (r = -1 \<and> \<not> eagain s1)" by blast
  then show ?thesis
  proof cases
    case err
    obtain c2 w2 where "atm_conn_inactive c1 On_write w1 = Inr (c2, w2)" "same_app w1 w2" "wf_conn c2 w2" "c_event c2 \<noteq> None" "conn_out c2 = conn_out c1"
      using inactive_ok [OF e1 l1] raw(2) by blast
    then show ?thesis using err e True raw(1) out same_app_trans [OF sa] by (auto simp: conn_event_def)
  next
    case zero
    then show ?thesis using e True raw(1,2) e1 sa out
      by (auto simp: conn_event_def atm_conn_inter_write_def same_app_def add_notify_def wf_conn_def conn_out_def)
  next
    case part
    then show ?thesis using e True raw(1,2,5) e1 sa out
      by (auto simp: conn_event_def atm_conn_yield_write_def wf_conn_def conn_out_def)
  qed
qed

lemma task_write_safe:
  assumes wf: "wf_conn c w" and snk: "sock_sink wr sent" and e: "c_event c = Some e"
    and fuel: "length (conn_out c) < fuel" and l: "wf_list (w_free w)"
  shows "\<exists>r s' c' w'. atm_conn_task_write wr eagain fuel s c w = Inr (r, s', c', w')
    \<and> same_app w w' \<and> wf_conn c' w' \<and> c_event c' \<noteq> None \<and> sent s' @ conn_out c' = sent s @ conn_out c"
proof -
  obtain n where n: "fuel = Suc n" using fuel by (cases fuel) simp_all
  obtain go s1 c1 w1 where lp: "task_write_loop wr eagain fuel fuel s c w = Inr (go, s1, c1, w1)"
      "same_app w w1" "wf_conn c1 w1" "c_event c1 \<noteq> None" "sent s1 @ conn_out c1 = sent s @ conn_out c"
    using write_loop_safe [OF wf snk e fuel l, of eagain n s] n by blast
  then obtain e1 where "c_event c1 = Some e1" by blast
  from free_check_ok [OF this, of On_write w1] obtain c2 w2 where "atm_conn_free_check c1 On_write w1 = Inr (c2, w2)"
      "same_app w1 w2" "wf_conn c2 w2" "c_event c2 \<noteq> None" "conn_out c2 = conn_out c1" using lp(3) by blast
  then show ?thesis using lp same_app_trans [OF lp(2)] by (cases go) (simp_all add: atm_conn_task_write_def)
qed

lemma script_sink: "sock_sink script_write snd"
  unfolding sock_sink_def
proof (intro allI impI)
  fix s :: "nat list \<times> u8 list" and bs :: "u8 list"
  obtain ks out where s: "s = (ks, out)" by (cases s)
  show "case script_write s bs of (ret, s') \<Rightarrow>
      if 0 < ret then ret \<le> int (length bs) \<and> snd s' = snd s @ take (nat ret) bs else snd s' = snd s"
    by (cases ks) (auto simp: s min_def)
qed

section \<open>The read task\<close>

lemma script_pend_simps:
  "script_pend [] = []" "script_pend ([] # bs) = []" "b \<noteq> [] \<Longrightarrow> script_pend (b # bs) = b @ script_pend bs"
  by (simp_all add: script_pend_def)

lemma script_source: "sock_drains script_read script_pend"
  unfolding sock_drains_def sock_source_def
proof (intro conjI allI impI)
  fix rs :: "u8 list list" and n :: nat
  assume n: "0 < n"
  show "case script_read rs n of (ret, bytes, rs') \<Rightarrow>
      if 0 < ret then ret \<le> int n \<and> nat ret \<le> length (script_pend rs)
        \<and> bytes = take (nat ret) (script_pend rs) \<and> script_pend rs' = drop (nat ret) (script_pend rs)
      else script_pend rs' = script_pend rs"
  proof (cases rs)
    case (Cons b bs)
    consider (eof) "b = []" | (all) "b \<noteq> []" "length b \<le> n" | (part) "b \<noteq> []" "n < length b" by fastforce
    then show ?thesis
    proof cases
      case part
      then have "drop n b \<noteq> []" by simp
      with part n Cons show ?thesis by (simp add: script_pend_simps min_def)
    qed (simp_all add: Cons script_pend_simps min_def)
  qed (simp add: script_pend_simps)
next
  fix rs :: "u8 list list" and n :: nat
  assume "0 < n" "script_pend rs \<noteq> []"
  then show "0 < fst (script_read rs n)"
    by (cases rs; cases "hd rs = []") (simp_all add: script_pend_simps)
qed

lemma script_fuel: "length (script_pend rs) < Suc (length (concat rs))"
proof -
  have "concat rs = script_pend rs @ concat (dropWhile (\<lambda>b. b \<noteq> []) rs)"
    unfolding script_pend_def by (metis concat_append takeWhile_dropWhile_id)
  then show ?thesis by (metis length_append le_add1 less_Suc_eq_le)
qed

lemma script_none:
  assumes "script_pend rs = []"
  shows "script_read rs n = (if rs = [] then -1 else 0, [], rs)"
proof (cases rs)
  case (Cons b bs)
  then have "b = []" using assms script_pend_simps(3) [of b bs] by (cases "b = []") simp_all
  then show ?thesis using Cons by simp
qed simp

text \<open>What the task has done, with what the session found.\<close>

definition task_done :: "atm_sess \<Rightarrow> app \<Rightarrow> u8 list option \<Rightarrow> atm_conn \<Rightarrow> app \<Rightarrow> bool" where
  "task_done se w inp c' w' \<longleftrightarrow> (case inp of
     None \<Rightarrow> cache_abs w' = cache_abs w \<and> conn_out c' = conn_out (se_conn se)
   | Some bs \<Rightarrow> input_served se w c' w' bs)"

lemma ready_after:
  assumes "sess_ready se w" "same_app w w'" "wf_conn c' w'" "c_event c' \<noteq> None"
  shows "sess_ready (se\<lparr>se_conn := c'\<rparr>) w'"
  using assms(1,3,4) same_appD [OF assms(2)] by (simp add: sess_ready_def sess_idle_def)

lemma read_stops:
  assumes rd: "sess_ready se w" and e: "c_event (se_conn se) = Some e" "ev_active e"
    and l: "wf_list (w_free w)" and p: "script_pend rs = []" "\<not> (rs = [] \<and> eagain)"
  shows "\<exists>c' w'. atm_conn_task_read script_read (\<lambda>_. eagain) (Suc n) sess_proc rs se (se_conn se) w
      = Inr (ATM_ERROR, rs, se, c', w') \<and> sess_ready (se\<lparr>se_conn := c'\<rparr>) w' \<and> same_app w w'
      \<and> conn_out c' = conn_out (se_conn se)"
proof -
  have wf: "wf_conn (se_conn se) w" using rd by (simp add: sess_ready_def)
  let ?r = "if rs = [] then -1 else 0 :: int"
  have "?r \<le> 0" by simp
  from conn_read_none [where rd = script_read and s = rs and n = n, OF wf script_none [OF p(1)] this] obtain b q where raw:
      "atm_conn_task_read_raw script_read (Suc n) rs (se_conn se) w = Inr (?r, rs, (se_conn se)\<lparr>c_r_buf := b\<rparr>, w\<lparr>w_pool := q\<rparr>)"
      "wf_conn ((se_conn se)\<lparr>c_r_buf := b\<rparr>) (w\<lparr>w_pool := q\<rparr>)" by blast
  let ?c = "(se_conn se)\<lparr>c_r_buf := b\<rparr>" and ?w = "w\<lparr>w_pool := q\<rparr>"
  have "c_event ?c = Some e" "wf_list (w_free ?w)" using e(1) l by simp_all
  from inactive_ok [OF this, of On_read] raw(2) obtain c2 w2 where i: "atm_conn_inactive ?c On_read ?w = Inr (c2, w2)"
      "same_app ?w w2" "wf_conn c2 w2" "c_event c2 \<noteq> None" "conn_out c2 = conn_out ?c" by blast
  have sa: "same_app w w2" using same_app_trans [OF _ i(2), of w] by (simp add: same_app_def)
  have "(?r = -1 \<and> \<not> eagain) \<or> ?r = 0" using p(2) by simp
  then have "atm_conn_task_read script_read (\<lambda>_. eagain) (Suc n) sess_proc rs se (se_conn se) w = Inr (ATM_ERROR, rs, se, c2, w2)"
    using raw(1) e i(1) by (simp add: atm_conn_task_read_def task_read_proc_def conn_event_def)
  moreover have "conn_out c2 = conn_out (se_conn se)" using i(5) by (simp add: conn_out_def)
  ultimately show ?thesis using ready_after [OF rd sa i(3,4)] sa by blast
qed

lemma task_read_safe:
  assumes rd: "sess_ready se w" and l: "wf_list (w_free w)"
    and inp: "\<And>bs. task_input se rs eagain = Some bs \<Longrightarrow> length bs < 2 ^ 31 - 1 \<and> (has_line bs \<longrightarrow> runnable (line_words bs) w)"
  shows "\<exists>r rs' se' c' w'. atm_conn_task_read script_read (\<lambda>_. eagain) (Suc (length (concat rs))) sess_proc rs se (se_conn se) w
      = Inr (r, rs', se', c', w') \<and> sess_ready (se'\<lparr>se_conn := c'\<rparr>) w' \<and> task_done se w (task_input se rs eagain) c' w'"
proof -
  obtain e where e: "c_event (se_conn se) = Some e" using rd by (auto simp: sess_ready_def)
  have wf: "wf_conn (se_conn se) w" using rd by (simp add: sess_ready_def)
  consider (idle) "\<not> ev_active e" | (data) "ev_active e" "script_pend rs \<noteq> []"
    | (again) "ev_active e" "script_pend rs = []" "rs = []" "eagain"
    | (stop) "ev_active e" "script_pend rs = []" "\<not> (rs = [] \<and> eagain)" by blast
  then show ?thesis
  proof cases
    case idle
    obtain c2 w2 where f: "atm_conn_free_check (se_conn se) On_read w = Inr (c2, w2)" "same_app w w2" "wf_conn c2 w2"
        "c_event c2 \<noteq> None" "conn_out c2 = conn_out (se_conn se)"
      using free_check_ok [OF e, of On_read w] wf by blast
    have "atm_conn_task_read script_read (\<lambda>_. eagain) (Suc (length (concat rs))) sess_proc rs se (se_conn se) w
        = Inr (ATM_OK, rs, se, c2, w2)"
      using idle e f(1) by (simp add: atm_conn_task_read_def task_read_proc_def conn_event_def)
    moreover have "task_done se w (task_input se rs eagain) c2 w2"
      using idle e f(5) same_appD [OF f(2)] by (simp add: task_done_def task_input_def)
    ultimately show ?thesis using ready_after [OF rd f(2-4)] by blast
  next
    case data
    let ?inp = "conn_in (se_conn se) @ script_pend rs"
    have t: "task_input se rs eagain = Some ?inp" using data e by (simp add: task_input_def)
    from task_read_serves [where s = rs and rd = script_read and eagain = "\<lambda>_. eagain", OF rd e data(1) script_source data(2) script_fuel refl]
      inp [OF t] show ?thesis unfolding t by (fastforce simp: task_done_def)
  next
    case again
    have t: "task_input se rs eagain = Some (conn_in (se_conn se))" using again e by (simp add: task_input_def script_pend_def)
    obtain b q where raw: "atm_conn_task_read_raw script_read (Suc (length (concat rs))) rs (se_conn se) w
          = Inr (-1, rs, (se_conn se)\<lparr>c_r_buf := b\<rparr>, w\<lparr>w_pool := q\<rparr>)"
        "wf_conn ((se_conn se)\<lparr>c_r_buf := b\<rparr>) (w\<lparr>w_pool := q\<rparr>)" "conn_in ((se_conn se)\<lparr>c_r_buf := b\<rparr>) = conn_in (se_conn se)"
      using conn_read_none [where rd = script_read and s = rs and r = "-1" and n = "length (concat rs)", OF wf] again(3) by auto
    have "\<not> (-1 = (-1 :: int) \<and> \<not> (\<lambda>_. eagain) rs \<or> -1 = (0 :: int))" using again(4) by simp
    from task_read_rest [where eagain = "\<lambda>_. eagain", OF rd e again(1) raw(1) this raw(2,3)] inp [OF t]
    show ?thesis unfolding t by (fastforce simp: task_done_def conn_out_def conn_rest_def world_rest_def)
  next
    case stop
    have "task_input se rs eagain = None" using stop e by (simp add: task_input_def)
    then show ?thesis using read_stops [OF rd e stop(1) l stop(2,3), of "length (concat rs)"] same_appD
      by (fastforce simp: task_done_def)
  qed
qed

section \<open>The free task\<close>

lemma free_loop_returns:
  assumes step: "\<And>c vs s. Q (c # vs) s \<Longrightarrow> \<exists>b. busy c s = Inr b \<and> (\<not> b \<longrightarrow> (\<exists>s'. fr c s = Inr s' \<and> Q vs s'))"
    and rot: "\<And>c vs s. Q (c # vs) s \<Longrightarrow> Q (vs @ [c]) s"
  shows "wf_list l \<Longrightarrow> list_vals l = todo @ kept \<Longrightarrow> distinct (todo @ kept) \<Longrightarrow>
    unproc = (case kept of [] \<Rightarrow> None | d # _ \<Rightarrow> Some d) \<Longrightarrow> Q (list_vals l) s \<Longrightarrow> length todo < n \<Longrightarrow>
    \<exists>l' s'. free_loop busy fr n unproc l s = Inr (l', s') \<and> Q (list_vals l') s'"
proof (induction n arbitrary: unproc l s todo kept)
  case (Suc n)
  have pk: "atm_list_lpeek l = Inr (case todo @ kept of [] \<Rightarrow> None | c # _ \<Rightarrow> Some c)"
    using ld.lpeek_law [OF Suc.prems(1)] Suc.prems(2) by simp
  show ?case
  proof (cases todo)
    case Nil
    then have "atm_list_lpeek l = Inr unproc" using pk Suc.prems(4) by (simp split: list.splits)
    then show ?thesis using Suc.prems(5) by auto
  next
    case (Cons c cs)
    have ne: "Some c \<noteq> unproc" using Suc.prems(3,4) Cons by (auto split: list.splits)
    have pk: "atm_list_lpeek l = Inr (Some c)" using pk Cons by simp
    obtain l1 where l1: "atm_list_lpop l = Inr (Some c, l1)" "wf_list l1" "list_vals l1 = cs @ kept"
      using ld.lpop_law [OF Suc.prems(1), of c "cs @ kept"] Suc.prems(2) Cons by auto
    have q: "Q (c # cs @ kept) s" using Suc.prems(2,5) Cons by simp
    obtain b where b: "busy c s = Inr b" "\<not> b \<longrightarrow> (\<exists>s'. fr c s = Inr s' \<and> Q (cs @ kept) s')" using step [OF q] by blast
    have d: "distinct (cs @ kept)" "distinct (cs @ kept @ [c])" "length cs < n" using Suc.prems(3,6) Cons by auto
    show ?thesis
    proof (cases b)
      case False
      then obtain s1 where s1: "fr c s = Inr s1" "Q (list_vals l1) s1" using b(2) l1(3) by auto
      from Suc.IH [OF l1(2,3) d(1) Suc.prems(4) s1(2) d(3)] show ?thesis using pk ne l1(1) b(1) False s1(1) by simp
    next
      case True
      obtain l2 where l2: "atm_list_push l1 c = Inr l2" "wf_list l2" "list_vals l2 = cs @ kept @ [c]"
        using ld.push_law [OF l1(2), of c] l1(3) by auto
      let ?u = "if unproc = None then Some c else unproc"
      have u: "?u = (case kept @ [c] of [] \<Rightarrow> None | d # _ \<Rightarrow> Some d)"
        using Suc.prems(4) by (simp split: list.splits)
      have "Q (list_vals l2) s" using rot [OF q] l2(3) by simp
      from Suc.IH [OF l2(2,3) d(2) u this d(3)] show ?thesis using pk ne l1(1) l2(1) b(1) True by simp
    qed
  qed
qed simp

lemma sess_free_ok:
  assumes "sess_ready se w"
  shows "\<exists>cl w'. atm_sess_free (Some se) w = Inr (cl, w') \<and> same_app w w' \<and> wf_pool (w_pool w')"
proof -
  let ?c = "se_conn se"
  have r: "wf_conn ?c w" "se_argv se = None" using assms by (simp_all add: sess_ready_def sess_idle_def)
  have "wf_buf (c_r_buf ?c, w_pool w)" using r(1) by (simp add: wf_conn_def)
  from buf_free_ok [OF this] obtain p1 where p1: "atm_buf_free (Some (c_r_buf ?c)) (w_pool w) = Inr p1" "wf_pool p1" by auto
  have "wf_buf (c_w_buf ?c, p1)" using r(1) wf_buf_pool p1(2) by (auto simp: wf_conn_def)
  from buf_free_ok [OF this] obtain p2 where p2: "atm_buf_free (Some (c_w_buf ?c)) p1 = Inr p2" "wf_pool p2" by auto
  show ?thesis using r(2) p1(1) p2
    by (simp add: atm_sess_free_def atm_conn_free_def log_ctl_def atm_socket_free_def Let_def same_app_def)
qed

lemma drop_ok:
  assumes d: "srv_data s" and a: "sv_conns s c \<noteq> None"
  shows "\<exists>s'. sess_drop c s = Inr s' \<and> srv_data s' \<and> (\<forall>t. srv_abs s t \<longrightarrow> srv_abs s' t)"
proof -
  obtain se where se: "sv_conns s c = Some se" "sess_ready se (sv_w s)" using a d by (auto simp: srv_data_def)
  obtain cl w where w: "atm_sess_free (Some se) (sv_w s) = Inr (cl, w)" "same_app (sv_w s) w" "wf_pool (w_pool w)"
    using sess_free_ok [OF se(2)] by blast
  let ?s = "s\<lparr>sv_w := w\<rparr>"
  let ?s' = "?s\<lparr>sv_conns := (sv_conns s)(c := None), sv_evs := (\<lambda>ea. if sv_evs s ea = Some c then None else sv_evs s ea)\<rparr>"
  have cl: "srv_data ?s" "\<forall>t. srv_abs s t \<longrightarrow> srv_abs ?s t" using calm_world [OF d w(2,3)] by (simp_all add: calm_def)
  have "srv_data ?s'" using cl(1) by (auto simp: srv_data_def)
  moreover have "srv_abs ?s' t" if "srv_abs s t" for t using cl(2) that by (auto simp: srv_abs_def)
  moreover have "sess_drop c s = Inr ?s'" using se(1) w(1) by (simp add: sess_drop_def get_sess_def)
  ultimately show ?thesis by blast
qed

lemma free_task_safe:
  assumes inv: "srv_inv s" and d: "srv_data s"
  shows "\<exists>s'. res_map (\<lambda>(l, s). s\<lparr>sv_w := (sv_w s)\<lparr>w_free := l\<rparr>\<rparr>)
      (atm_conn_free_func sess_busy sess_drop (w_free (sv_w s)) s) = Inr s'
    \<and> srv_data s' \<and> (\<forall>t. srv_abs s t \<longrightarrow> srv_abs s' t)"
proof -
  let ?l = "w_free (sv_w s)"
  let ?Q = "\<lambda>vs s'. queued vs s' \<and> srv_data s' \<and> (\<forall>t. srv_abs s t \<longrightarrow> srv_abs s' t)"
  have l: "wf_list ?l" "queued (list_vals ?l) s" using inv by (simp_all add: srv_inv_def)
  have step: "\<exists>b. sess_busy c s1 = Inr b \<and> (\<not> b \<longrightarrow> (\<exists>s'. sess_drop c s1 = Inr s' \<and> ?Q vs s'))" if q: "?Q (c # vs) s1" for c vs s1
  proof -
    have c: "sv_conns s1 c \<noteq> None" using q by (auto simp: queued_def)
    obtain s2 where s2: "sess_drop c s1 = Inr s2" "srv_data s2" "\<forall>t. srv_abs s1 t \<longrightarrow> srv_abs s2 t" using drop_ok [OF _ c] q by blast
    have "queued vs s2" using queued_drop [OF s2(1)] q by blast
    then show ?thesis using s2 c q by (auto simp: sess_busy_def get_sess_def)
  qed
  obtain ps where "list_rep ?l ps" "list_vals ?l = map snd ps" using wf_list_rep [OF l(1)] by blast
  then have n: "length (list_vals ?l) < Suc (l_brk ?l)" using list_rep_length [of ?l ps] by simp
  have v: "list_vals ?l = list_vals ?l @ []" and dd: "distinct (list_vals ?l @ [])"
    and u: "None = (case [] of [] \<Rightarrow> None | d # _ \<Rightarrow> Some (d :: addr))" using l(2) by (simp_all add: queued_def)
  have q: "?Q (list_vals ?l) s" using l(2) d by blast
  obtain l' s1 where f: "free_loop sess_busy sess_drop (Suc (l_brk ?l)) None ?l s = Inr (l', s1)" "?Q (list_vals l') s1"
    using free_loop_returns [where Q = ?Q and busy = sess_busy and fr = sess_drop, OF step _ l(1) v dd u q n] queued_rotate by blast
  have "calm s1 (s1\<lparr>sv_w := (sv_w s1)\<lparr>w_free := l'\<rparr>\<rparr>)"
    by (rule calm_world) (use f(2) in \<open>simp_all add: same_app_def srv_data_def\<close>)
  then show ?thesis using f by (auto simp: atm_conn_free_func_def calm_def simp del: free_loop.simps)
qed

section \<open>One step\<close>

lemma task_step:
  assumes inv: "srv_inv s" and d: "srv_data s"
    and load: "t_run t \<noteq> Task_free \<longrightarrow> (\<exists>a se. t_load t = Some a \<and> sv_conns s a = Some se)"
    and inp: "\<And>a se bs. t_run t = Task_read \<Longrightarrow> t_load t = Some a \<Longrightarrow> sv_conns s a = Some se \<Longrightarrow>
      task_input se rs eagain = Some bs \<Longrightarrow> length bs < 2 ^ 31 - 1 \<and> (has_line bs \<longrightarrow> runnable (line_words bs) (sv_w s))"
  defines "q \<equiv> (if t_run t = Task_read then Option.bind (t_load t) (\<lambda>a.
             Option.bind (sv_conns s a) (\<lambda>se. map_option (Pair a) (task_input se rs eagain))) else None)"
  shows "\<exists>s'. run_task t rs ws eagain s = Inr s' \<and> srv_data s'
    \<and> (\<forall>tb. srv_abs s tb \<longrightarrow> srv_abs s' (fold table_serve
        (case q of None \<Rightarrow> [] | Some (a, bs) \<Rightarrow> if has_line bs then [(a, line_words bs)] else []) tb))"
proof (cases "t_run t")
  case Task_free
  then show ?thesis using free_task_safe [OF inv d] by (simp add: run_task_def q_def)
next
  case Task_write
  obtain a se where a: "t_load t = Some a" "sv_conns s a = Some se" using load Task_write by auto
  have rd: "sess_ready se (sv_w s)" using d a(2) by (simp add: srv_data_def)
  then obtain e where e: "c_event (se_conn se) = Some e" and wf: "wf_conn (se_conn se) (sv_w s)" by (auto simp: sess_ready_def)
  have l: "wf_list (w_free (sv_w s))" using inv by (simp add: srv_inv_def)
  obtain r ks out c' w' where w: "atm_conn_task_write script_write (\<lambda>_. eagain) (Suc (length (conn_out (se_conn se)))) (ws, [])
        (se_conn se) (sv_w s) = Inr (r, (ks, out), c', w')" "same_app (sv_w s) w'" "wf_conn c' w'" "c_event c' \<noteq> None"
      "out @ conn_out c' = conn_out (se_conn se)"
    using task_write_safe [OF wf script_sink e lessI l, of "\<lambda>_. eagain" "(ws, [])"] by fastforce
  let ?s = "(put_sess a (se\<lparr>se_conn := c'\<rparr>) w' s)\<lparr>sv_sent := (sv_sent s)(a := sv_sent s a @ out)\<rparr>"
  have sd: "srv_data (put_sess a (se\<lparr>se_conn := c'\<rparr>) w' s)" by (rule put_sess_data [OF d a(2) ready_after [OF rd w(2-4)]])
  have "srv_data ?s" using sd by (simp add: srv_data_def)
  moreover have "srv_abs ?s tb" if "srv_abs s tb" for tb
    unfolding srv_abs_def
  proof (intro conjI allI impI)
    show "fst tb = cache_abs (sv_w ?s)" using that same_appD [OF w(2)] by (simp add: srv_abs_def put_sess_def)
  next
    fix b assume "sv_brk ?s \<le> b"
    then have b: "snd tb b = []" "sv_sent s b = []" using that by (simp_all add: srv_abs_def put_sess_def)
    then show "snd tb b = []" by simp
    have "b = a \<Longrightarrow> out = []" using b that a(2) w(5) by (auto simp: srv_abs_def)
    then show "sv_sent ?s b = []" using b by (auto simp: put_sess_def)
  next
    fix b
    have "snd tb a = sv_sent s a @ out @ conn_out c'" using that a(2) w(5) by (simp add: srv_abs_def)
    then show "prefix (sv_sent ?s b) (snd tb b)" using that by (simp add: srv_abs_def put_sess_def)
    fix se' assume "sv_conns ?s b = Some se'"
    then show "snd tb b = sv_sent ?s b @ conn_out (se_conn se')"
      using that a(2) w(5) by (auto simp: srv_abs_def put_sess_def split: if_splits)
  qed
  moreover have "run_task t rs ws eagain s = Inr ?s" using Task_write a w(1) by (simp add: run_task_def get_sess_def)
  ultimately show ?thesis using Task_write by (simp add: q_def)
next
  case Task_read
  obtain a se where a: "t_load t = Some a" "sv_conns s a = Some se" using load Task_read by auto
  have rd: "sess_ready se (sv_w s)" using d a(2) by (simp add: srv_data_def)
  have l: "wf_list (w_free (sv_w s))" using inv by (simp add: srv_inv_def)
  obtain r rs' se' c' w' where w: "atm_conn_task_read script_read (\<lambda>_. eagain) (Suc (length (concat rs))) sess_proc rs se
        (se_conn se) (sv_w s) = Inr (r, rs', se', c', w')" "sess_ready (se'\<lparr>se_conn := c'\<rparr>) w'"
      "task_done se (sv_w s) (task_input se rs eagain) c' w'"
    using task_read_safe [OF rd l inp [OF Task_read a]] by blast
  let ?s = "put_sess a (se'\<lparr>se_conn := c'\<rparr>) w' s"
  have lt: "a < sv_brk s" using queuedD(1) [OF conjunct2 [OF inv [unfolded srv_inv_def]] a(2)] .
  have "srv_abs ?s (fold table_serve (case q of None \<Rightarrow> [] | Some (a, bs) \<Rightarrow> if has_line bs then [(a, line_words bs)] else []) tb)"
    if tb: "srv_abs s tb" for tb
  proof -
    obtain m outs where tm: "tb = (m, outs)" by (cases tb)
    have m: "m = cache_abs (sv_w s)" "outs a = sv_sent s a @ conn_out (se_conn se)" using tb a(2) by (simp_all add: srv_abs_def tm)
    have q: "q = map_option (Pair a) (task_input se rs eagain)" using Task_read a by (simp add: q_def)
    consider (none) "case q of None \<Rightarrow> True | Some (_, bs) \<Rightarrow> \<not> has_line bs" "cache_abs w' = cache_abs (sv_w s)" "conn_out c' = conn_out (se_conn se)"
      | (line) bs where "q = Some (a, bs)" "has_line bs" "(cache_abs w', conn_out c') = (case cmd_spec (line_words bs) (cache_abs (sv_w s)) of
            (m, r) \<Rightarrow> (m, conn_out (se_conn se) @ bytes_of (r @ [NL])))"
      using w(3) q by (cases "task_input se rs eagain") (auto simp: task_done_def input_served_def split: if_splits)
    then show ?thesis
    proof cases
      case none
      have "srv_abs ?s tb" using tb a(2) none(2,3) by (auto simp: srv_abs_def put_sess_def)
      then show ?thesis using none(1) by (auto split: option.splits)
    next
      case line
      obtain m' r where sp: "cmd_spec (line_words bs) m = (m', r)" by (cases "cmd_spec (line_words bs) m")
      then have o: "cache_abs w' = m'" "conn_out c' = conn_out (se_conn se) @ bytes_of (r @ [NL])" using line(3) m(1) by simp_all
      have "srv_abs ?s (table_serve (a, line_words bs) tb)"
        using tb lt o m(2) sp by (auto simp: srv_abs_def put_sess_def table_serve_def tm)
      then show ?thesis using line(1,2) by simp
    qed
  qed
  moreover have "run_task t rs ws eagain s = Inr ?s" using Task_read a w(1) by (simp add: run_task_def get_sess_def)
  ultimately show ?thesis using put_sess_data [OF d a(2) w(2)] by blast
qed

lemma srv_do_data:
  assumes inv: "srv_inv s" and d: "srv_data s" and l: "live i s" and ok: "in_ok i s"
  shows "\<exists>s'. srv_do i s = Inr s' \<and> srv_data s' \<and> (\<forall>t. srv_abs s t \<longrightarrow> srv_abs s' (fold table_serve (srv_served i s) t))"
proof (cases i)
  case (In_accept css)
  then show ?thesis using accept_loop_data [OF d, of script_accept ATM_CONN_PERCALL_ACCEPTS css]
    by (simp add: atm_conn_handle_accept_def srv_served_def srv_input_def)
next
  case (In_events es)
  then have "\<forall>x \<in> set es. sv_evs s (fst x) \<noteq> None" using l by (simp add: live_def)
  from process_all_calm [OF d this] calm_refl [OF d] show ?thesis
    by (auto simp: In_events atm_event_routine_def atm_event_process_events_def calm_def srv_served_def srv_input_def)
next
  case In_op
  then show ?thesis using op_calm [OF d] l by (auto simp: calm_def srv_served_def srv_input_def)
next
  case (In_task n rs ws eagain)
  let ?ts = "w_tasks (sv_w s)"
  let ?w = "(sv_w s)\<lparr>w_tasks := take n ?ts @ drop (Suc n) ?ts\<rparr>"
  let ?s = "s\<lparr>sv_w := ?w\<rparr>"
  show ?thesis
  proof (cases "n < length ?ts")
    case False
    then show ?thesis using d In_task by (auto simp: srv_served_def srv_input_def Let_def)
  next
    case True
    have "calm s ?s" by (rule calm_world [OF d]) (use d in \<open>simp_all add: same_app_def srv_data_def\<close>)
    then have d1: "srv_data ?s" and ab: "\<forall>t. srv_abs s t \<longrightarrow> srv_abs ?s t" by (simp_all add: calm_def)
    have i1: "srv_inv ?s" using inv srv_inv_cong [of ?s s] by simp
    have ld: "t_run (?ts ! n) \<noteq> Task_free \<longrightarrow> (\<exists>a se. t_load (?ts ! n) = Some a \<and> sv_conns ?s a = Some se)"
      using l True In_task by (auto simp: live_def Let_def split: option.splits)
    have q: "srv_input i s = (if t_run (?ts ! n) = Task_read then Option.bind (t_load (?ts ! n)) (\<lambda>a.
             Option.bind (sv_conns ?s a) (\<lambda>se. map_option (Pair a) (task_input se rs eagain))) else None)"
      using True In_task by (simp add: srv_input_def Let_def)
    have cr: "runnable xs (sv_w ?s) = runnable xs (sv_w s)" for xs
      by (simp add: runnable_def cache_room_def split: list.split)
    have inp: "length bs < 2 ^ 31 - 1 \<and> (has_line bs \<longrightarrow> runnable (line_words bs) (sv_w ?s))"
      if "t_run (?ts ! n) = Task_read" "t_load (?ts ! n) = Some a" "sv_conns ?s a = Some se" "task_input se rs eagain = Some bs"
      for a se bs
    proof -
      have "srv_input i s = Some (a, bs)" using q that by simp
      then show ?thesis using ok unfolding cr in_ok_def srv_served_def by simp
    qed
    have "\<exists>s'. run_task (?ts ! n) rs ws eagain ?s = Inr s' \<and> srv_data s'
        \<and> (\<forall>t. srv_abs ?s t \<longrightarrow> srv_abs s' (fold table_serve (srv_served i s) t))"
      unfolding srv_served_def q by (rule task_step [OF i1 d1 ld]) (rule inp)
    then obtain s' where "run_task (?ts ! n) rs ws eagain ?s = Inr s'" "srv_data s'"
        "\<forall>t. srv_abs ?s t \<longrightarrow> srv_abs s' (fold table_serve (srv_served i s) t)" by blast
    moreover have "srv_do i s = run_task (?ts ! n) rs ws eagain ?s" using True In_task by (simp add: Let_def)
    ultimately show ?thesis using ab by metis
  qed
qed

section \<open>Runs\<close>

text \<open>The conditions and the served lines of a run, along its states.\<close>

fun along :: "(srv_in \<Rightarrow> srv \<Rightarrow> bool) \<Rightarrow> srv_in list \<Rightarrow> srv \<Rightarrow> bool" where
  "along P [] s = True"
| "along P (i # ins) s \<longleftrightarrow> P i s \<and> (case srv_do i s of Inl _ \<Rightarrow> True | Inr s' \<Rightarrow> along P ins s')"

fun run_served :: "srv_in list \<Rightarrow> srv \<Rightarrow> (addr \<times> char list list) list" where
  "run_served [] s = []"
| "run_served (i # ins) s = srv_served i s @ (case srv_do i s of Inl _ \<Rightarrow> [] | Inr s' \<Rightarrow> run_served ins s')"

lemma srv_run_data:
  "srv_inv s \<Longrightarrow> srv_data s \<Longrightarrow> along (\<lambda>i s. live i s \<and> in_ok i s) ins s \<Longrightarrow>
   \<exists>s'. srv_run ins s = Inr s' \<and> srv_inv s' \<and> srv_data s'
     \<and> (\<forall>t. srv_abs s t \<longrightarrow> srv_abs s' (fold table_serve (run_served ins s) t))"
proof (induction ins arbitrary: s)
  case (Cons i ins)
  have li: "live i s" "in_ok i s" using Cons.prems(3) by simp_all
  obtain s1 where s1: "srv_do i s = Inr s1" "srv_data s1" "\<forall>t. srv_abs s t \<longrightarrow> srv_abs s1 (fold table_serve (srv_served i s) t)"
    using srv_do_data [OF Cons.prems(1,2) li] by blast
  obtain s2 where s2: "srv_run ins s1 = Inr s2" "srv_inv s2" "srv_data s2"
      "\<forall>t. srv_abs s1 t \<longrightarrow> srv_abs s2 (fold table_serve (run_served ins s1) t)"
    using Cons.IH [OF srv_do_inv [OF Cons.prems(1) s1(1)] s1(2)] Cons.prems(3) s1(1) by fastforce
  have "srv_abs s2 (fold table_serve (run_served (i # ins) s) t)" if "srv_abs s t" for t
    using s1(1,3) s2(4) that by (simp del: split_paired_All)
  then show ?case using s1(1) s2 by (simp del: split_paired_All)
qed simp

lemma srv_new_ok:
  assumes "cmds_ok w" "cache_ok w" "wf_pool (w_pool w)" "cache_abs w = Map.empty"
  shows "srv_inv (srv_new w)" "srv_data (srv_new w)" "srv_abs (srv_new w) table_new"
proof -
  have sa: "same_app w (sv_w (srv_new w))" by (simp add: srv_new_def same_app_def)
  show "srv_inv (srv_new w)" by (simp add: srv_new_def srv_inv_def queued_def)
  show "srv_data (srv_new w)" "srv_abs (srv_new w) table_new"
    using assms same_appD [OF sa] by (simp_all add: srv_data_def srv_abs_def table_new_def) (simp_all add: srv_new_def)
qed
end
