(* ===== verification/Atm_Server_Flow.thy ===== *)
theory Atm_Server_Flow
  imports Atm_Server_Safe
begin

text \<open>
  When nothing refers to a freed connection. It is enough that no event comes for a direction
  whose task is still on its way, and that the pipe of the engine is empty when the free task
  runs: then each flag of a connection counts its tasks, and every task, operation and event
  belongs to an allocated connection. With that the server started by \<^verbatim>\<open>atm_service_init\<close> refines
  the table of \<^verbatim>\<open>Atm_Server_Safe\<close> without a fault. Neither condition can be left out, as the two
  runs of \<^verbatim>\<open>Atm_Server_Runs\<close> show, and the code ensures neither.
\<close>

section \<open>Tasks and operations of a connection\<close>

text \<open>
  A step on a connection: it adds the tasks \<^verbatim>\<open>ts\<close>, operations for its own event only, and
  leaves the identity of connection and event.
\<close>

definition moves :: "atm_conn \<Rightarrow> app \<Rightarrow> atm_conn \<Rightarrow> app \<Rightarrow> atm_task list \<Rightarrow> bool" where
  "moves c w c' w' ts \<longleftrightarrow> c_addr c' = c_addr c \<and> w_tasks w' = w_tasks w @ ts
     \<and> (\<exists>e e'. c_event c = Some e \<and> c_event c' = Some e' \<and> ev_addr e' = ev_addr e
         \<and> (\<forall>op \<in> set (w_ops w'). op \<in> set (w_ops w) \<or> eo_e op = ev_addr e))"

lemma moves_trans:
  assumes "moves c w c1 w1 ts" "moves c1 w1 c2 w2 us"
  shows "moves c w c2 w2 (ts @ us)"
  using assms by (fastforce simp: moves_def)

lemma stays_moves: "stays c w c' w' \<Longrightarrow> c_event c = Some e \<Longrightarrow> moves c w c' w' []"
  by (auto simp: stays_def keeps_def moves_def)

fun flag :: "conn_flag \<Rightarrow> atm_conn \<Rightarrow> bool" where
  "flag On_read c = c_on_read c"
| "flag On_write c = c_on_write c"

fun other :: "conn_flag \<Rightarrow> conn_flag" where
  "other On_read = On_write"
| "other On_write = On_read"

text \<open>A part of the task of the flag \<^verbatim>\<open>f\<close>; at the end of the task the flag is cleared.\<close>

definition ends :: "conn_flag \<Rightarrow> bool \<Rightarrow> atm_conn \<Rightarrow> app \<Rightarrow> atm_conn \<Rightarrow> app \<Rightarrow> bool" where
  "ends f fin c w c' w' \<longleftrightarrow> (\<exists>ts. (\<forall>t \<in> set ts. t_run t = Task_free) \<and> moves c w c' w' ts)
     \<and> flag (other f) c' = flag (other f) c \<and> (fin \<longrightarrow> \<not> flag f c')"

lemma ends_trans:
  assumes "ends f a c w c1 w1" "ends f b c1 w1 c2 w2"
  shows "ends f b c w c2 w2"
proof -
  obtain ts us where "\<forall>t \<in> set ts. t_run t = Task_free" "moves c w c1 w1 ts"
      "\<forall>t \<in> set us. t_run t = Task_free" "moves c1 w1 c2 w2 us"
    using assms by (auto simp: ends_def)
  then have "(\<forall>t \<in> set (ts @ us). t_run t = Task_free) \<and> moves c w c2 w2 (ts @ us)"
    using moves_trans by auto
  then show ?thesis using assms unfolding ends_def by blast
qed

lemma ends_weaken: "ends f a c w c' w' \<Longrightarrow> ends f False c w c' w'"
  by (simp add: ends_def)

lemma ends_event: "ends f a c w c' w' \<Longrightarrow> \<exists>e. c_event c' = Some e"
  by (auto simp: ends_def moves_def)

lemma stays_ends: "stays c w c' w' \<Longrightarrow> c_event c = Some e \<Longrightarrow> ends f False c w c' w'"
  using stays_moves [of c w c' w' e] unfolding ends_def
  by (cases f) (auto simp: stays_def intro!: exI [of _ "[]"])

lemma inactive_ends:
  assumes h: "atm_conn_inactive c f w = Inr (c', w')" and e: "c_event c = Some e"
  shows "ends f (ev_active e) c w c' w'"
proof -
  have m: "moves c w c' w' [atm_task_new None Task_free]"
    using h e by (auto simp: atm_conn_inactive_def conn_event_def res_inv moves_def atm_conn_free_notify_def
        atm_task_dispatch_def atm_conn_free_enqueue_def clear_flag_def atm_event_inactive_def Let_def
        split: if_splits conn_flag.splits)
  have "flag (other f) c' = flag (other f) c \<and> (ev_active e \<longrightarrow> \<not> flag f c')"
    using h e by (cases f) (auto simp: atm_conn_inactive_def conn_event_def res_inv clear_flag_def Let_def split: if_splits)
  with m show ?thesis unfolding ends_def
    by (auto simp: atm_task_new_def intro!: exI [of _ "[atm_task_new None Task_free]"])
qed

lemma free_check_ends:
  assumes h: "atm_conn_free_check c f w = Inr (c', w')" and e: "c_event c = Some e"
  shows "ends f True c w c' w'"
proof -
  have "moves c w c' w' (if ev_active e then [] else [atm_task_new None Task_free])"
    using h e by (auto simp: atm_conn_free_check_def conn_event_def res_inv moves_def atm_conn_free_notify_def
        atm_task_dispatch_def clear_flag_def split: if_splits conn_flag.splits)
  moreover have "flag (other f) c' = flag (other f) c \<and> \<not> flag f c'"
    using h e by (cases f) (auto simp: atm_conn_free_check_def conn_event_def res_inv clear_flag_def split: if_splits)
  moreover have "\<forall>t \<in> set (if ev_active e then [] else [atm_task_new None Task_free]). t_run t = Task_free"
    by (simp add: atm_task_new_def)
  ultimately show ?thesis unfolding ends_def by blast
qed

section \<open>The tasks\<close>

lemma read_proc_ends:
  assumes "task_read_proc rd ea n sess_proc k x c w = Inr (go, k', x', c', w')"
  shows "ends On_read (\<not> go) c w c' w'"
proof -
  from assms obtain e where e: "c_event c = Some e" by (auto simp: task_read_proc_def res_inv conn_event_Inr)
  show ?thesis
  proof (cases "ev_active e")
    case False
    with assms e stays_ends [OF stays_refl e] show ?thesis by (auto simp: task_read_proc_def conn_event_def)
  next
    case True
    with assms e obtain r k1 c1 w1 where raw: "atm_conn_task_read_raw rd n k c w = Inr (r, k1, c1, w1)"
      by (auto simp: task_read_proc_def conn_event_def res_inv)
    note st = read_raw_stays [OF raw]
    have e1: "c_event c1 = Some e" using st e by (simp add: stays_def keeps_def)
    show ?thesis
    proof (cases "(r = -1 \<and> \<not> ea k1) \<or> r = 0")
      case stop: True
      with assms e True raw have "atm_conn_inactive c1 On_read w1 = Inr (c', w')" "\<not> go"
        by (auto simp: task_read_proc_def conn_event_def res_inv)
      then show ?thesis using ends_trans [OF stays_ends [OF st e]] inactive_ends [OF _ e1] True by simp
    next
      case False
      with assms e True raw obtain q x2 c2 w2 where pr: "sess_proc x c1 w1 = Inr (q, x2, c2, w2)" "go"
          "q = ATM_ERROR \<and> atm_conn_inactive c2 On_read w2 = Inr (c', w') \<or> q \<noteq> ATM_ERROR \<and> c' = c2 \<and> w' = w2"
        by (auto simp: task_read_proc_def conn_event_def res_inv split: if_splits)
      note s2 = stays_trans [OF st proc_stays [OF pr(1)]]
      have e2: "c_event c2 = Some e" using s2 e by (simp add: stays_def keeps_def)
      from pr(3) show ?thesis
        using ends_trans [OF stays_ends [OF s2 e] ends_weaken [OF inactive_ends [OF _ e2]]] stays_ends [OF s2 e] pr(2) by auto
    qed
  qed
qed

lemma task_read_ends:
  assumes "atm_conn_task_read rd ea n sess_proc k x c w = Inr (r, k', x', c', w')"
  shows "ends On_read True c w c' w'"
proof -
  from assms obtain go k1 x1 c1 w1 where p: "task_read_proc rd ea n sess_proc k x c w = Inr (go, k1, x1, c1, w1)"
    by (auto simp: atm_conn_task_read_def res_inv)
  note en = read_proc_ends [OF p]
  show ?thesis
  proof (cases go)
    case False
    with assms p en show ?thesis by (auto simp: atm_conn_task_read_def)
  next
    case True
    obtain e where e: "c_event c1 = Some e" using ends_event [OF en] by blast
    let ?w = "if ev_active e then add_notify e ATM_EVENT_READ w1 else w1"
    from True assms p e have fc: "atm_conn_free_check c1 On_read ?w = Inr (c', w')"
      by (auto simp: atm_conn_task_read_def res_inv conn_event_def Let_def)
    have "stays c1 w1 c1 ?w" using e by (auto simp: stays_def keeps_def add_notify_def atm_event_op_new_def)
    from ends_trans [OF ends_trans [OF en stays_ends [OF this e]] free_check_ends [OF fc e]] show ?thesis .
  qed
qed

lemma write_loop_ends:
  "task_write_loop wr ea n m k c w = Inr (go, k', c', w') \<Longrightarrow> ends On_write (\<not> go) c w c' w'"
proof (induction m arbitrary: k c w)
  case (Suc m)
  from Suc.prems obtain e where e: "c_event c = Some e" by (auto simp: res_inv conn_event_Inr)
  show ?case
  proof (cases "ev_active e")
    case False
    with Suc.prems e stays_ends [OF stays_refl e] show ?thesis by (auto simp: conn_event_def)
  next
    case True
    with Suc.prems e obtain r k1 c1 w1 where raw: "atm_conn_task_write_raw wr n k c w = Inr (r, k1, c1, w1)"
      by (auto simp: conn_event_def res_inv Let_def)
    note st = write_raw_stays [OF raw]
    have e1: "c_event c1 = Some e" using st e by (simp add: stays_def keeps_def)
    note en = stays_ends [OF st e]
    consider (err) "r = -1 \<and> \<not> ea k1" | (zero) "\<not> (r = -1 \<and> \<not> ea k1)" "r = 0" | (more) "\<not> (r = -1 \<and> \<not> ea k1)" "r \<noteq> 0" by blast
    then show ?thesis
    proof cases
      case err
      with Suc.prems e True raw have "atm_conn_inactive c1 On_write w1 = Inr (c', w')" "\<not> go"
        by (auto simp: conn_event_def res_inv Let_def)
      then show ?thesis using ends_trans [OF en] inactive_ends [OF _ e1] True by simp
    next
      case zero
      with Suc.prems e True raw obtain a b where i: "atm_conn_inter_write c1 a b w1 = Inr (c', w')" "go"
        by (auto simp: conn_event_def res_inv Let_def)
      then have "ends On_write False c1 w1 c' w'" using e1
        by (auto simp: atm_conn_inter_write_def conn_event_def add_notify_def atm_event_op_new_def ends_def moves_def
            intro!: exI [of _ "[]"])
      then show ?thesis using ends_trans [OF en] i(2) by simp
    next
      case more
      with Suc.prems e True raw obtain y c2 where y: "atm_conn_yield_write c1 (c_write_reqs c) = Inr (y, c2)"
          "if y then go \<and> c' = c2 \<and> w' = w1 else task_write_loop wr ea n m k1 c2 w1 = Inr (go, k', c', w')"
        by (auto simp: conn_event_def res_inv Let_def split: if_splits)
      have "ends On_write False c1 w1 c2 w1" using y(1) e1
        by (auto simp: atm_conn_yield_write_def conn_event_def ends_def moves_def intro!: exI [of _ "[]"] split: if_splits)
      note e2 = ends_trans [OF en this]
      show ?thesis using y(2) e2 ends_trans [OF e2 Suc.IH] by (cases y) auto
    qed
  qed
qed simp

lemma task_write_ends:
  assumes "atm_conn_task_write wr ea n k c w = Inr (r, k', c', w')"
  shows "ends On_write True c w c' w'"
proof -
  from assms obtain go k1 c1 w1 where p: "task_write_loop wr ea n n k c w = Inr (go, k1, c1, w1)"
    by (auto simp: atm_conn_task_write_def res_inv)
  note en = write_loop_ends [OF p]
  show ?thesis
  proof (cases go)
    case False
    with assms p en show ?thesis by (auto simp: atm_conn_task_write_def)
  next
    case True
    obtain e where e: "c_event c1 = Some e" using ends_event [OF en] by blast
    from True assms p have "atm_conn_free_check c1 On_write w1 = Inr (c', w')"
      by (auto simp: atm_conn_task_write_def res_inv)
    from ends_trans [OF en free_check_ends [OF this e]] show ?thesis .
  qed
qed


section \<open>The invariant\<close>

text \<open>How many tasks of a kind a connection has on their way.\<close>

definition is_task :: "task_fn \<Rightarrow> addr \<Rightarrow> atm_task \<Rightarrow> bool" where
  "is_task f a t \<longleftrightarrow> t_run t = f \<and> t_load t = Some a"

definition on_way :: "task_fn \<Rightarrow> addr \<Rightarrow> app \<Rightarrow> nat" where
  "on_way f a w = length (filter (is_task f a) (w_tasks w))"

definition counted :: "addr \<Rightarrow> atm_conn \<Rightarrow> app \<Rightarrow> bool" where
  "counted a c w \<longleftrightarrow> on_way Task_read a w = of_bool (c_on_read c) \<and> on_way Task_write a w = of_bool (c_on_write c)"

text \<open>Events and connections belong together; tasks and operations refer to what is allocated.\<close>

definition refs :: "srv \<Rightarrow> bool" where
  "refs s \<longleftrightarrow> (\<forall>a se. sv_conns s a = Some se \<longrightarrow> (\<exists>e. c_event (se_conn se) = Some e \<and> sv_evs s (ev_addr e) = Some a))
     \<and> (\<forall>ea a. sv_evs s ea = Some a \<longrightarrow> ea < sv_brk s
          \<and> (\<exists>se e. sv_conns s a = Some se \<and> c_event (se_conn se) = Some e \<and> ev_addr e = ea))
     \<and> (\<forall>t \<in> set (w_tasks (sv_w s)). t_run t \<noteq> Task_free \<longrightarrow> (\<exists>a. t_load t = Some a \<and> sv_conns s a \<noteq> None))
     \<and> (\<forall>op \<in> set (w_ops (sv_w s)). sv_evs s (eo_e op) \<noteq> None)"

definition counts :: "srv \<Rightarrow> bool" where
  "counts s \<longleftrightarrow> (\<forall>a se. sv_conns s a = Some se \<longrightarrow> counted a (se_conn se) (sv_w s))"

definition srv_flow :: "srv \<Rightarrow> bool" where
  "srv_flow s \<longleftrightarrow> srv_inv s \<and> refs s \<and> counts s"

lemma refsD:
  assumes "refs s"
  shows "sv_conns s a = Some se \<Longrightarrow> \<exists>e. c_event (se_conn se) = Some e \<and> sv_evs s (ev_addr e) = Some a"
    "sv_evs s ea = Some a \<Longrightarrow> ea < sv_brk s"
    "sv_evs s ea = Some a \<Longrightarrow> \<exists>se e. sv_conns s a = Some se \<and> c_event (se_conn se) = Some e \<and> ev_addr e = ea"
    "t \<in> set (w_tasks (sv_w s)) \<Longrightarrow> t_run t \<noteq> Task_free \<Longrightarrow> \<exists>a. t_load t = Some a \<and> sv_conns s a \<noteq> None"
    "op \<in> set (w_ops (sv_w s)) \<Longrightarrow> sv_evs s (eo_e op) \<noteq> None"
  using assms unfolding refs_def by blast+

lemma put_refs:
  assumes r: "refs s" and a: "sv_conns s a = Some se" and m: "moves (se_conn se) (sv_w s) c' w' ts"
    and ts: "\<forall>t \<in> set ts. t_run t \<noteq> Task_free \<longrightarrow> t_load t = Some a"
  shows "refs (put_sess a (x\<lparr>se_conn := c'\<rparr>) w' s)"
proof -
  obtain e e' where e: "c_event (se_conn se) = Some e" "c_event c' = Some e'" "ev_addr e' = ev_addr e"
      "\<forall>op \<in> set (w_ops w'). op \<in> set (w_ops (sv_w s)) \<or> eo_e op = ev_addr e" "w_tasks w' = w_tasks (sv_w s) @ ts"
    using m by (auto simp: moves_def)
  have ea: "sv_evs s (ev_addr e) = Some a" using refsD(1) [OF r a] e(1) by auto
  let ?s = "put_sess a (x\<lparr>se_conn := c'\<rparr>) w' s"
  have p: "sv_conns ?s = (sv_conns s)(a \<mapsto> x\<lparr>se_conn := c'\<rparr>)" "sv_evs ?s = sv_evs s" "sv_brk ?s = sv_brk s" "sv_w ?s = w'"
    by (simp_all add: put_sess_def)
  show ?thesis unfolding refs_def p
  proof (intro conjI allI impI ballI)
    fix b y assume "((sv_conns s)(a \<mapsto> x\<lparr>se_conn := c'\<rparr>)) b = Some y"
    then show "\<exists>e. c_event (se_conn y) = Some e \<and> sv_evs s (ev_addr e) = Some b"
      using refsD(1) [OF r] e ea by (auto split: if_splits)
  next
    fix ea' b assume b: "sv_evs s ea' = Some b"
    then show "ea' < sv_brk s" by (rule refsD(2) [OF r])
    show "\<exists>y ev. ((sv_conns s)(a \<mapsto> x\<lparr>se_conn := c'\<rparr>)) b = Some y \<and> c_event (se_conn y) = Some ev \<and> ev_addr ev = ea'"
      using refsD(3) [OF r b] e(1-3) a by (cases "b = a") auto
  next
    fix t assume "t \<in> set (w_tasks w')" "t_run t \<noteq> Task_free"
    then show "\<exists>b. t_load t = Some b \<and> ((sv_conns s)(a \<mapsto> x\<lparr>se_conn := c'\<rparr>)) b \<noteq> None"
      using refsD(4) [OF r] ts e(5) by fastforce
  next
    fix op assume "op \<in> set (w_ops w')"
    then show "sv_evs s (eo_e op) \<noteq> None" using refsD(5) [OF r] e(4) ea by fastforce
  qed
qed

lemma put_counts:
  assumes c: "\<And>b y. b \<noteq> a \<Longrightarrow> sv_conns s b = Some y \<Longrightarrow> counted b (se_conn y) (sv_w s)"
    and w: "w_tasks w' = w_tasks (sv_w s) @ ts" "\<forall>t \<in> set ts. t_run t \<noteq> Task_free \<longrightarrow> t_load t = Some a"
    and a: "counted a c' w'"
  shows "counts (put_sess a (x\<lparr>se_conn := c'\<rparr>) w' s)"
proof -
  have "filter (is_task f b) ts = []" if "b \<noteq> a" "f \<noteq> Task_free" for f b
    using w(2) that by (auto simp: filter_empty_conv is_task_def)
  then have "on_way f b w' = on_way f b (sv_w s)" if "b \<noteq> a" "f \<noteq> Task_free" for f b
    using that by (simp add: on_way_def w(1))
  then show ?thesis using c a by (auto simp: counts_def put_sess_def counted_def)
qed

text \<open>A step that gives the connection \<^verbatim>\<open>a\<close> tasks, and the flags that count them.\<close>

definition takes :: "addr \<Rightarrow> atm_conn \<Rightarrow> app \<Rightarrow> atm_conn \<Rightarrow> app \<Rightarrow> bool" where
  "takes a c w c' w' \<longleftrightarrow> (\<exists>ts. moves c w c' w' ts \<and> (\<forall>t \<in> set ts. t_run t \<noteq> Task_free \<longrightarrow> t_load t = Some a)
     \<and> of_bool (c_on_read c) + length (filter (is_task Task_read a) ts) = (of_bool (c_on_read c') :: nat)
     \<and> of_bool (c_on_write c) + length (filter (is_task Task_write a) ts) = (of_bool (c_on_write c') :: nat))"

lemma put_flow:
  assumes fl: "srv_flow s" and a: "sv_conns s a = Some se" and l: "life (se_conn se) (sv_w s) c' w'"
    and t: "takes a (se_conn se) (sv_w s) c' w'"
  shows "srv_flow (put_sess a (se\<lparr>se_conn := c'\<rparr>) w' s)"
proof -
  have i: "srv_inv s" "refs s" "counts s" using fl by (simp_all add: srv_flow_def)
  obtain ts where m: "moves (se_conn se) (sv_w s) c' w' ts" "\<forall>t \<in> set ts. t_run t \<noteq> Task_free \<longrightarrow> t_load t = Some a"
    and n: "of_bool (c_on_read (se_conn se)) + length (filter (is_task Task_read a) ts) = (of_bool (c_on_read c') :: nat)"
      "of_bool (c_on_write (se_conn se)) + length (filter (is_task Task_write a) ts) = (of_bool (c_on_write c') :: nat)"
    using t unfolding takes_def by blast
  have t: "w_tasks w' = w_tasks (sv_w s) @ ts" using m(1) by (simp add: moves_def)
  have "counted a (se_conn se) (sv_w s)" using i(3) a by (simp add: counts_def)
  then have "counted a c' w'" using n by (simp add: counted_def on_way_def t)
  then show ?thesis unfolding srv_flow_def
    using put_sess_inv [OF i(1) a, of "se\<lparr>se_conn := c'\<rparr>" w'] l put_refs [OF i(2) a m, of se]
      put_counts [of a s w' ts c' se] i(3) t m(2) by (simp add: counts_def)
qed

section \<open>Operations, events and new connections\<close>

lemma same_flow:
  assumes "srv_flow s" "sv_conns s' = sv_conns s" "sv_evs s' = sv_evs s" "sv_brk s' = sv_brk s"
    "w_free (sv_w s') = w_free (sv_w s)" "w_tasks (sv_w s') = w_tasks (sv_w s)" "set (w_ops (sv_w s')) \<subseteq> set (w_ops (sv_w s))"
  shows "srv_flow s'"
  using assms srv_inv_cong [of s' s] by (auto simp: srv_flow_def refs_def counts_def counted_def on_way_def)

lemma with_conn_flow:
  assumes fl: "srv_flow s" and h: "with_conn f a s = Inr s'"
    and f: "\<And>se c' w'. sv_conns s a = Some se \<Longrightarrow> c_addr (se_conn se) = a \<Longrightarrow> f (se_conn se) (sv_w s) = Inr (c', w') \<Longrightarrow>
      life (se_conn se) (sv_w s) c' w' \<and> takes a (se_conn se) (sv_w s) c' w'"
  shows "srv_flow s' \<and> sv_evs s' = sv_evs s \<and> (\<forall>b. b \<noteq> a \<longrightarrow> sv_conns s' b = sv_conns s b)
    \<and> (\<exists>se se' w. sv_conns s a = Some se \<and> sv_conns s' a = Some se' \<and> f (se_conn se) (sv_w s) = Inr (se_conn se', w))"
proof -
  obtain se c' w' where a: "sv_conns s a = Some se" "f (se_conn se) (sv_w s) = Inr (c', w')"
      "s' = put_sess a (se\<lparr>se_conn := c'\<rparr>) w' s"
    using h by (auto simp: with_conn_def get_sess_def of_some_def res_inv split: option.splits)
  have "c_addr (se_conn se) = a" using fl queuedD(2) [OF _ a(1)] by (auto simp: srv_flow_def srv_inv_def)
  from f [OF a(1) this a(2)] show ?thesis using put_flow [OF fl a(1)] a unfolding a(3) by (auto simp: put_sess_def)
qed

lemma handle_moves:
  assumes h: "atm_conn_handle_read c w = Inr (c', w')" and a: "c_addr c = a" and n: "\<not> c_on_read c"
  shows "takes a c w c' w'"
proof -
  obtain e where e: "c_event c = Some e" using h by (auto simp: atm_conn_handle_read_def res_inv conn_event_Inr)
  obtain e' calls where d: "atm_event_del_event e ATM_EVENT_READ = (e', calls)" by (cases "atm_event_del_event e ATM_EVENT_READ")
  show ?thesis unfolding takes_def using h a n e d del_event_keeps [OF d]
    by (intro exI [of _ "if ev_active e then [atm_task_new (Some a) Task_read] else []"])
       (auto simp: atm_conn_handle_read_def conn_task_def conn_event_def res_inv moves_def log_ctl_def atm_task_dispatch_def
          atm_task_new_def is_task_def split: if_splits)
qed

lemma handle_moves_write:
  assumes h: "atm_conn_handle_write c w = Inr (c', w')" and a: "c_addr c = a" and n: "\<not> c_on_write c"
  shows "takes a c w c' w'"
proof -
  obtain e where e: "c_event c = Some e" using h by (auto simp: atm_conn_handle_write_def res_inv conn_event_Inr)
  obtain e' calls where d: "atm_event_del_event e ATM_EVENT_WRITE = (e', calls)" by (cases "atm_event_del_event e ATM_EVENT_WRITE")
  show ?thesis unfolding takes_def using h a n e d del_event_keeps [OF d]
    by (intro exI [of _ "if ev_active e then [atm_task_new (Some a) Task_write] else []"])
       (auto simp: atm_conn_handle_write_def conn_task_def conn_event_def res_inv moves_def log_ctl_def atm_task_dispatch_def
          atm_task_new_def is_task_def split: if_splits)
qed

lemma upd_moves:
  assumes "upd_event f c w = Inr (c', w')" "\<And>e. ev_addr (fst (f e)) = ev_addr e"
  shows "takes a c w c' w'"
proof -
  obtain e where e: "c_event c = Some e" using assms(1) by (auto simp: upd_event_def res_inv conn_event_Inr)
  obtain e' calls where "f e = (e', calls)" by (cases "f e")
  with assms(1) assms(2) [of e] e show ?thesis unfolding takes_def
    by (intro exI [of _ "[]"]) (auto simp: upd_event_def conn_event_def res_inv moves_def log_ctl_def)
qed

lemma op_flow:
  assumes fl: "srv_flow s" and h: "srv_op s = Inr s'"
  shows "srv_flow s'"
proof (cases "w_ops (sv_w s)")
  case Nil
  then show ?thesis using assms by (simp add: srv_op_def)
next
  case (Cons op ops)
  let ?s = "s\<lparr>sv_w := (sv_w s)\<lparr>w_ops := ops\<rparr>\<rparr>"
  have f1: "srv_flow ?s" by (rule same_flow [OF fl]) (auto simp: Cons)
  have ad: "ev_addr (fst (atm_event_add_event e m)) = ev_addr e" "ev_addr (fst (atm_event_del_event e m)) = ev_addr e" for e m
    by (auto simp: atm_event_add_event_def atm_event_del_event_def Let_def)
  have u: "srv_flow s'" if c: "res_bind (get_ev ea ?s) (\<lambda>a. with_conn (upd_event f) a ?s) = Inr s'"
    and g: "f = (\<lambda>e. atm_event_add_event e m) \<or> f = (\<lambda>e. atm_event_del_event e m)" for ea f m
  proof -
    obtain a where a: "with_conn (upd_event f) a ?s = Inr s'" using c by (auto simp: res_inv)
    have "life c w c' w' \<and> takes a c w c' w'" if "upd_event f c w = Inr (c', w')" for c w c' w'
    proof
      show "takes a c w c' w'" by (rule upd_moves [OF that]) (use ad g in auto)
      show "life c w c' w'" using upd_event_life that g by blast
    qed
    then show ?thesis using with_conn_flow [OF f1 a] by blast
  qed
  from h Cons show ?thesis using f1 u [of "eo_e op" _ "eo_mask op"]
    by (auto simp: srv_op_def atm_event_notify_handle_def split: if_splits)
qed

text \<open>What epoll reports of an event.\<close>

definition ev_mask :: "u32 \<Rightarrow> u32" where
  "ev_mask m = (if m AND (EPOLLERR OR EPOLLHUP) \<noteq> 0 then m OR (EPOLLIN OR EPOLLOUT) else m)"

definition ev_polite :: "addr \<times> u32 \<Rightarrow> srv \<Rightarrow> bool" where
  "ev_polite x s \<longleftrightarrow> (case sv_evs s (fst x) of None \<Rightarrow> False
     | Some a \<Rightarrow> (case sv_conns s a of None \<Rightarrow> False
        | Some se \<Rightarrow> (ev_mask (snd x) AND EPOLLIN \<noteq> 0 \<longrightarrow> \<not> c_on_read (se_conn se))
                     \<and> (ev_mask (snd x) AND EPOLLOUT \<noteq> 0 \<longrightarrow> \<not> c_on_write (se_conn se))))"

text \<open>The rest of the server, as far as the other events see it.\<close>

definition apart :: "addr \<Rightarrow> srv \<Rightarrow> srv \<Rightarrow> bool" where
  "apart a s s' \<longleftrightarrow> sv_evs s' = sv_evs s \<and> (\<forall>b. b \<noteq> a \<longrightarrow> sv_conns s' b = sv_conns s b)"

lemma handle_read_flow:
  assumes fl: "srv_flow s" and ea: "sv_evs s ea = Some a" and h: "srv_handle_read ea s = Inr s'"
    and n: "\<And>se. sv_conns s a = Some se \<Longrightarrow> \<not> c_on_read (se_conn se)"
  shows "srv_flow s' \<and> apart a s s'
    \<and> (\<forall>se se'. sv_conns s a = Some se \<longrightarrow> sv_conns s' a = Some se' \<longrightarrow> c_on_write (se_conn se') = c_on_write (se_conn se))"
proof -
  have w: "with_conn atm_conn_handle_read a s = Inr s'" using h ea by (simp add: srv_handle_read_def get_ev_def)
  have "c_on_write c' = c_on_write c" if "atm_conn_handle_read c v = Inr (c', v')" for c v c' v'
    using that by (auto simp: atm_conn_handle_read_def conn_task_def res_inv Let_def split: if_splits prod.splits)
  then show ?thesis using with_conn_flow [OF fl w] handle_life(1) handle_moves n unfolding apart_def by fastforce
qed

lemma handle_write_flow:
  assumes fl: "srv_flow s" and ea: "sv_evs s ea = Some a" and h: "srv_handle_write ea s = Inr s'"
    and n: "\<And>se. sv_conns s a = Some se \<Longrightarrow> \<not> c_on_write (se_conn se)"
  shows "srv_flow s' \<and> apart a s s'"
proof -
  have w: "with_conn atm_conn_handle_write a s = Inr s'" using h ea by (simp add: srv_handle_write_def get_ev_def)
  show ?thesis using with_conn_flow [OF fl w] handle_life(2) handle_moves_write n unfolding apart_def by blast
qed

lemma process_ev_flow:
  assumes fl: "srv_flow s" and p: "ev_polite (ea, m) s"
    and h: "atm_event_process_ev (srv_event ea) (srv_handle_read ea) (srv_handle_write ea) m s = Inr s'"
  shows "srv_flow s' \<and> (\<exists>a. sv_evs s ea = Some a \<and> apart a s s')"
proof -
  obtain a se where a: "sv_evs s ea = Some a" "sv_conns s a = Some se"
      "ev_mask m AND EPOLLIN \<noteq> 0 \<longrightarrow> \<not> c_on_read (se_conn se)" "ev_mask m AND EPOLLOUT \<noteq> 0 \<longrightarrow> \<not> c_on_write (se_conn se)"
    using p by (auto simp: ev_polite_def split: option.splits)
  from h obtain s1 where s1: "s1 = s \<or> ev_mask m AND EPOLLIN \<noteq> 0 \<and> srv_handle_read ea s = Inr s1"
      "s' = s1 \<or> ev_mask m AND EPOLLOUT \<noteq> 0 \<and> srv_handle_write ea s1 = Inr s'"
    unfolding atm_event_process_ev_def Let_def ev_mask_def [symmetric] res_inv by (auto simp: res_inv split: if_splits)
  have i: "srv_flow s1 \<and> apart a s s1 \<and> (\<forall>se'. sv_conns s1 a = Some se' \<longrightarrow> c_on_write (se_conn se') = c_on_write (se_conn se))"
    using s1(1) handle_read_flow [OF fl a(1)] fl a(2,3) by (auto simp: apart_def)
  then have "sv_evs s1 ea = Some a" using a(1) by (simp add: apart_def)
  with s1(2) i a(4) handle_write_flow [of s1 ea a s'] have "srv_flow s' \<and> apart a s s'" by (auto simp: apart_def)
  then show ?thesis using a(1) by blast
qed

lemma polite_apart:
  assumes fl: "srv_flow s" and ea: "sv_evs s ea = Some a" and ap: "apart a s s'" and x: "ev_polite x s" "fst x \<noteq> ea"
  shows "ev_polite x s'"
proof -
  have r: "refs s" using fl by (simp add: srv_flow_def)
  obtain b where b: "sv_evs s (fst x) = Some b" using x(1) by (auto simp: ev_polite_def split: option.splits)
  have "b \<noteq> a" using refsD(3) [OF r ea] refsD(3) [OF r b] x(2) by auto
  then show ?thesis using x(1) ap by (simp add: ev_polite_def apart_def b)
qed

lemma process_all_flow:
  "srv_flow s \<Longrightarrow> distinct (map fst es) \<Longrightarrow> \<forall>x \<in> set es. ev_polite x s \<Longrightarrow>
   process_all srv_event srv_handle_read srv_handle_write es s = Inr s' \<Longrightarrow> srv_flow s'"
proof (induction es arbitrary: s)
  case (Cons x es)
  obtain ea m where x: "x = (ea, m)" by (cases x)
  from Cons.prems(4) x obtain s1 where s1: "process_all srv_event srv_handle_read srv_handle_write es s1 = Inr s'"
      "s1 = s \<or> atm_event_process_ev (srv_event ea) (srv_handle_read ea) (srv_handle_write ea) m s = Inr s1"
    by (auto simp: res_inv split: if_splits)
  from s1(2) have i: "srv_flow s1 \<and> (\<forall>y \<in> set es. ev_polite y s1)"
  proof
    assume "s1 = s"
    then show ?thesis using Cons.prems(1,3) by simp
  next
    assume p: "atm_event_process_ev (srv_event ea) (srv_handle_read ea) (srv_handle_write ea) m s = Inr s1"
    have "ev_polite (ea, m) s" using Cons.prems(3) x by simp
    from process_ev_flow [OF Cons.prems(1) this p] obtain a where a: "srv_flow s1" "sv_evs s ea = Some a" "apart a s s1" by blast
    have "ev_polite y s1" if y: "y \<in> set es" for y
    proof (rule polite_apart [OF Cons.prems(1) a(2,3)])
      show "ev_polite y s" using Cons.prems(3) y by simp
      show "fst y \<noteq> ea" using Cons.prems(2) x y by (auto simp: image_iff)
    qed
    then show ?thesis using a(1) by blast
  qed
  then show ?case using Cons.IH [of s1] Cons.prems(2) s1(1) by simp
qed simp

lemma add_conn_flow:
  assumes fl: "srv_flow s"
  shows "srv_flow (add_conn cs s)"
proof -
  let ?a = "sv_brk s"
  have r: "refs s" and i: "srv_inv s" and c: "counts s" using fl by (simp_all add: srv_flow_def)
  obtain e calls where ev: "atm_event_add_conn (Suc ?a) (so_fd cs) None = (Some e, calls)" "ev_active e" "ev_addr e = Suc ?a"
    by (rule new_conn_event [of "Suc ?a" "so_fd cs"])
  let ?c = "(atm_conn_new ?a cs)\<lparr>c_event := Some e\<rparr>"
  let ?s = "add_conn cs s"
  have p: "sv_conns ?s = (sv_conns s)(?a \<mapsto> atm_sess_new ?c)" "sv_evs ?s = (sv_evs s)(Suc ?a \<mapsto> ?a)" "sv_brk ?s = Suc (Suc ?a)"
      "w_tasks (sv_w ?s) = w_tasks (sv_w s)" "w_ops (sv_w ?s) = w_ops (sv_w s)"
    using ev(1) by (simp_all add: add_conn_def accept_conn_def log_ctl_def Let_def)
  have lt: "b < ?a" if "sv_conns s b = Some y" for b y
    using queuedD(1) [OF _ that] i by (auto simp: srv_inv_def)
  have free: "sv_evs s (Suc ?a) = None" using refsD(2) [OF r, of "Suc ?a"] by (cases "sv_evs s (Suc ?a)") auto
  have "refs ?s" unfolding refs_def p
  proof (intro conjI allI impI ballI)
    fix b y assume "((sv_conns s)(?a \<mapsto> atm_sess_new ?c)) b = Some y"
    then show "\<exists>ev. c_event (se_conn y) = Some ev \<and> ((sv_evs s)(Suc ?a \<mapsto> ?a)) (ev_addr ev) = Some b"
    proof (cases "b = ?a")
      case True
      with \<open>_ = Some y\<close> show ?thesis using ev(3) by (auto simp: atm_sess_new_def)
    next
      case False
      with \<open>_ = Some y\<close> have "sv_conns s b = Some y" by simp
      from refsD(1) [OF r this] obtain v where v: "c_event (se_conn y) = Some v" "sv_evs s (ev_addr v) = Some b" by blast
      then have "ev_addr v \<noteq> Suc ?a" using free by auto
      then show ?thesis using v by simp
    qed
  next
    fix ea b assume b: "((sv_evs s)(Suc ?a \<mapsto> ?a)) ea = Some b"
    then show "ea < Suc (Suc ?a)" using refsD(2) [OF r, of ea b] by (auto split: if_splits)
    show "\<exists>y ev. ((sv_conns s)(?a \<mapsto> atm_sess_new ?c)) b = Some y \<and> c_event (se_conn y) = Some ev \<and> ev_addr ev = ea"
    proof (cases "ea = Suc ?a")
      case True
      then show ?thesis using b ev(3) by (auto simp: atm_sess_new_def)
    next
      case False
      then have eb: "sv_evs s ea = Some b" using b by simp
      obtain y ev where y: "sv_conns s b = Some y" "c_event (se_conn y) = Some ev" "ev_addr ev = ea" using refsD(3) [OF r eb] by blast
      then have "b \<noteq> ?a" using lt by fastforce
      then show ?thesis using y by simp
    qed
  next
    fix t assume "t \<in> set (w_tasks (sv_w s))" "t_run t \<noteq> Task_free"
    then show "\<exists>b. t_load t = Some b \<and> ((sv_conns s)(?a \<mapsto> atm_sess_new ?c)) b \<noteq> None" using refsD(4) [OF r] by fastforce
  next
    fix op assume "op \<in> set (w_ops (sv_w s))"
    then show "((sv_evs s)(Suc ?a \<mapsto> ?a)) (eo_e op) \<noteq> None" using refsD(5) [OF r] by auto
  qed
  moreover have "counts ?s"
  proof -
    have "filter (is_task f ?a) (w_tasks (sv_w s)) = []" if "f \<noteq> Task_free" for f
    proof (rule ccontr)
      assume "\<not> ?thesis"
      then obtain t where "t \<in> set (w_tasks (sv_w s))" "is_task f ?a t" by (auto simp: filter_empty_conv)
      with refsD(4) [OF r, of t] that obtain y where "sv_conns s ?a = Some y" by (auto simp: is_task_def)
      from lt [OF this] show False by simp
    qed
    then have "counted ?a ?c (sv_w ?s)" by (simp add: counted_def on_way_def p atm_conn_new_def)
    moreover have "counted b (se_conn y) (sv_w ?s)" if "sv_conns s b = Some y" for b y
      using c that by (simp add: counts_def counted_def on_way_def p)
    ultimately show ?thesis by (simp add: counts_def p atm_sess_new_def)
  qed
  ultimately show ?thesis using add_conn_inv [OF i] by (simp add: srv_flow_def)
qed

lemma accept_loop_flow: "srv_flow s \<Longrightarrow> srv_flow (snd (accept_loop acc n k s))"
proof (induction n arbitrary: k s)
  case (Suc n)
  then show ?case using add_conn_flow by (auto split: prod.split option.split)
qed simp

section \<open>Tasks\<close>

text \<open>A task that is taken out of the list and run.\<close>

lemma filter_take_drop:
  assumes "n < length ts"
  shows "length (filter P ts) = length (filter P (take n ts @ drop (Suc n) ts)) + of_bool (P (ts ! n))"
proof -
  have "ts = take n ts @ ts ! n # drop (Suc n) ts" using assms by (rule id_take_nth_drop)
  then have "filter P ts = filter P (take n ts) @ filter P (ts ! n # drop (Suc n) ts)" by (metis filter_append)
  then show ?thesis by simp
qed

lemma run_flow:
  assumes fl: "srv_flow s" and n: "n < length (w_tasks (sv_w s))" "is_task (if f = On_read then Task_read else Task_write) a (w_tasks (sv_w s) ! n)"
    and a: "sv_conns s a = Some se"
  defines "w \<equiv> (sv_w s)\<lparr>w_tasks := take n (w_tasks (sv_w s)) @ drop (Suc n) (w_tasks (sv_w s))\<rparr>"
  assumes l: "life (se_conn se) w c' w'" and en: "ends f True (se_conn se) w c' w'"
  shows "srv_flow (put_sess a (x\<lparr>se_conn := c'\<rparr>) w' (s\<lparr>sv_w := w\<rparr>))"
proof -
  let ?ts = "w_tasks (sv_w s)" and ?s = "s\<lparr>sv_w := w\<rparr>"
  have i: "srv_inv s" "refs s" "counts s" using fl by (simp_all add: srv_flow_def)
  have i1: "srv_inv ?s" using i(1) srv_inv_cong [of ?s s] by (simp add: w_def)
  have sub: "set (w_tasks w) \<subseteq> set ?ts" using set_take_subset set_drop_subset by (fastforce simp: w_def)
  have r1: "refs ?s" using i(2) sub unfolding refs_def by (auto simp: w_def)
  have cn: "on_way g b (sv_w s) = on_way g b w + of_bool (is_task g b (?ts ! n))" for g b
    using filter_take_drop [OF n(1), of "is_task g b"] by (simp add: on_way_def w_def)
  have cb: "counted b (se_conn y) w" if "b \<noteq> a" "sv_conns s b = Some y" for b y
  proof -
    have "on_way g b w = on_way g b (sv_w s)" for g using cn [of g b] n(2) that(1) by (simp add: is_task_def)
    then show ?thesis using i(3) that(2) by (simp add: counts_def counted_def)
  qed
  obtain ts where ts: "\<forall>t \<in> set ts. t_run t = Task_free" "moves (se_conn se) w c' w' ts" and fg: "flag (other f) c' = flag (other f) (se_conn se)" "\<not> flag f c'"
    using en by (auto simp: ends_def)
  have t: "w_tasks w' = w_tasks w @ ts" using ts(2) by (simp add: moves_def)
  have "filter (is_task g b) ts = []" if "g \<noteq> Task_free" for g b using ts(1) that by (auto simp: filter_empty_conv is_task_def)
  then have same: "on_way g b w' = on_way g b w" if "g \<noteq> Task_free" for g b using that by (simp add: on_way_def t)
  have "counted a (se_conn se) (sv_w s)" using i(3) a by (simp add: counts_def)
  then have "counted a c' w'"
    using same cn [of Task_read a] cn [of Task_write a] n(2) fg
    by (cases f) (auto simp: counted_def is_task_def of_bool_def split: if_splits)
  then have "counts (put_sess a (x\<lparr>se_conn := c'\<rparr>) w' ?s)"
    using put_counts [of a ?s w' ts c' x] cb t ts(1) by simp
  moreover have "refs (put_sess a (x\<lparr>se_conn := c'\<rparr>) w' ?s)"
    using put_refs [of ?s a se c' w' ts x] r1 a ts by simp
  moreover have "srv_inv (put_sess a (x\<lparr>se_conn := c'\<rparr>) w' ?s)"
    using put_sess_inv [OF i1, of a se "x\<lparr>se_conn := c'\<rparr>" w'] a l by simp
  ultimately show ?thesis by (simp add: srv_flow_def)
qed

lemma sess_free_same: "atm_sess_free se w = Inr (cl, w') \<Longrightarrow> w_tasks w' = w_tasks w \<and> w_ops w' = w_ops w"
  by (auto simp: atm_sess_free_def atm_conn_free_def log_ctl_def res_inv Let_def split: option.splits prod.splits)

text \<open>A connection without tasks, while the pipe of the engine is empty.\<close>

lemma drop_flow:
  assumes r: "refs s" and c: "counts s" and ops: "w_ops (sv_w s) = []"
    and b: "sess_busy a s = Inr False" and h: "sess_drop a s = Inr s'"
  shows "refs s' \<and> counts s' \<and> w_ops (sv_w s') = []"
proof -
  obtain se where a: "sv_conns s a = Some se" "\<not> c_on_read (se_conn se)" "\<not> c_on_write (se_conn se)"
    using b by (auto simp: sess_busy_def get_sess_def of_some_def res_inv split: option.splits)
  obtain cl w where w: "atm_sess_free (Some se) (sv_w s) = Inr (cl, w)"
      "s' = s\<lparr>sv_conns := (sv_conns s)(a := None), sv_w := w, sv_evs := (\<lambda>ea. if sv_evs s ea = Some a then None else sv_evs s ea)\<rparr>"
    using h a(1) by (auto simp: sess_drop_def get_sess_def res_inv)
  note ws = sess_free_same [OF w(1)]
  have p: "sv_conns s' = (sv_conns s)(a := None)" "sv_evs s' = (\<lambda>ea. if sv_evs s ea = Some a then None else sv_evs s ea)"
      "sv_brk s' = sv_brk s" "w_tasks (sv_w s') = w_tasks (sv_w s)" "w_ops (sv_w s') = []"
    using w(2) ws ops by simp_all
  have z: "on_way Task_read a (sv_w s) = 0" "on_way Task_write a (sv_w s) = 0"
    using c a by (simp_all add: counts_def counted_def)
  have no: "\<not> is_task f a t" if "t \<in> set (w_tasks (sv_w s))" "f \<noteq> Task_free" for t f
    using z that by (cases f) (auto simp: on_way_def filter_empty_conv)
  have "refs s'" unfolding refs_def p
  proof (intro conjI allI impI ballI)
    fix b y assume "((sv_conns s)(a := None)) b = Some y"
    then have y: "b \<noteq> a" "sv_conns s b = Some y" by (auto split: if_splits)
    obtain e where "c_event (se_conn y) = Some e" "sv_evs s (ev_addr e) = Some b" using refsD(1) [OF r y(2)] by blast
    then show "\<exists>e. c_event (se_conn y) = Some e
        \<and> (if sv_evs s (ev_addr e) = Some a then None else sv_evs s (ev_addr e)) = Some b"
      by (intro exI [of _ e]) (use y(1) in simp)
  next
    fix ea b assume "(if sv_evs s ea = Some a then None else sv_evs s ea) = Some b"
    then have eb: "sv_evs s ea = Some b" "b \<noteq> a" by (auto split: if_splits)
    show "ea < sv_brk s" by (rule refsD(2) [OF r eb(1)])
    show "\<exists>y e. ((sv_conns s)(a := None)) b = Some y \<and> c_event (se_conn y) = Some e \<and> ev_addr e = ea"
      using refsD(3) [OF r eb(1)] eb(2) by auto
  next
    fix t assume t: "t \<in> set (w_tasks (sv_w s))" "t_run t \<noteq> Task_free"
    obtain b where b: "t_load t = Some b" "sv_conns s b \<noteq> None" using refsD(4) [OF r t] by blast
    have "b \<noteq> a" using no [OF t] b(1) by (auto simp: is_task_def)
    then show "\<exists>b. t_load t = Some b \<and> ((sv_conns s)(a := None)) b \<noteq> None" using b by auto
  qed simp
  moreover have "counts s'" using c by (auto simp: counts_def counted_def on_way_def p)
  ultimately show ?thesis using p(5) by simp
qed

lemma free_flow:
  assumes fl: "srv_flow s" and ops: "w_ops (sv_w s) = []"
    and h: "atm_conn_free_func sess_busy sess_drop (w_free (sv_w s)) s = Inr (l, s1)"
  shows "srv_flow (s1\<lparr>sv_w := (sv_w s1)\<lparr>w_free := l\<rparr>\<rparr>)"
proof -
  let ?Q = "\<lambda>vs s. queued vs s \<and> refs s \<and> counts s \<and> w_ops (sv_w s) = []"
  have f: "free_loop sess_busy sess_drop (Suc (l_brk (w_free (sv_w s)))) None (w_free (sv_w s)) s = Inr (l, s1)"
    using h by (simp add: atm_conn_free_func_def del: free_loop.simps)
  have "wf_list l \<and> ?Q (list_vals l) s1"
  proof (rule free_loop_inv [where Q = ?Q, OF _ _ f])
    show "?Q vs s'" if "sess_busy c t = Inr False" "sess_drop c t = Inr s'" "?Q (c # vs) t" for c t s' vs
      using that queued_drop drop_flow by blast
    show "?Q (vs @ [c]) t" if "?Q (c # vs) t" for c t vs using that queued_rotate by blast
  qed (use fl ops in \<open>simp_all add: srv_flow_def srv_inv_def\<close>)
  then show ?thesis
    using queued_cong [of "s1\<lparr>sv_w := (sv_w s1)\<lparr>w_free := l\<rparr>\<rparr>" s1]
    by (simp add: srv_flow_def srv_inv_def refs_def counts_def counted_def on_way_def)
qed

section \<open>Polite runs\<close>

text \<open>
  Events come for directions that have no task on its way, each event once in a call of
  \<^verbatim>\<open>epoll_wait\<close>; the free task finds the pipe of the engine empty.
\<close>

definition polite :: "srv_in \<Rightarrow> srv \<Rightarrow> bool" where
  "polite i s = (case i of
     In_accept _ \<Rightarrow> True
   | In_events es \<Rightarrow> distinct (map fst es) \<and> (\<forall>x \<in> set es. ev_polite x s)
   | In_op \<Rightarrow> True
   | In_task n _ _ _ \<Rightarrow>
       (let ts = w_tasks (sv_w s) in n < length ts \<longrightarrow> t_run (ts ! n) = Task_free \<longrightarrow> w_ops (sv_w s) = []))"

lemma polite_live:
  assumes "srv_flow s" "polite i s"
  shows "live i s"
proof -
  have r: "refs s" using assms(1) by (simp add: srv_flow_def)
  show ?thesis
  proof (cases i)
    case (In_events es)
    then have "\<forall>x \<in> set es. ev_polite x s" using assms(2) by (simp add: polite_def)
    then show ?thesis using In_events by (auto simp: live_def ev_polite_def split: option.splits)
  next
    case In_op
    then show ?thesis using refsD(5) [OF r] by (simp add: live_def split: list.split)
  next
    case (In_task n rs ws eagain)
    then show ?thesis using refsD(4) [OF r nth_mem] by (fastforce simp: live_def Let_def)
  qed (simp add: live_def)
qed

lemma srv_do_flow:
  assumes fl: "srv_flow s" and p: "polite i s" and h: "srv_do i s = Inr s'"
  shows "srv_flow s'"
proof (cases i)
  case (In_accept css)
  then show ?thesis using h accept_loop_flow [OF fl] by (auto simp: atm_conn_handle_accept_def)
next
  case (In_events es)
  then have "distinct (map fst es)" "\<forall>x \<in> set es. ev_polite x s" using p by (simp_all add: polite_def)
  from process_all_flow [OF fl this] h In_events fl show ?thesis
    by (auto simp: atm_event_routine_def atm_event_process_events_def split: if_splits)
next
  case In_op
  then show ?thesis using op_flow [OF fl] h by simp
next
  case (In_task n rs ws eagain)
  let ?ts = "w_tasks (sv_w s)"
  let ?w = "(sv_w s)\<lparr>w_tasks := take n ?ts @ drop (Suc n) ?ts\<rparr>"
  let ?s = "s\<lparr>sv_w := ?w\<rparr>"
  show ?thesis
  proof (cases "n < length ?ts")
    case False
    then show ?thesis using h In_task fl by simp
  next
    case True
    with h In_task have run: "run_task (?ts ! n) rs ws eagain ?s = Inr s'" by (simp add: Let_def)
    show ?thesis
    proof (cases "t_run (?ts ! n)")
      case Task_read
      with run obtain a se r k x c w where a: "t_load (?ts ! n) = Some a" "sv_conns s a = Some se"
          "s' = put_sess a (x\<lparr>se_conn := c\<rparr>) w ?s"
          "atm_conn_task_read script_read (\<lambda>_. eagain) (Suc (length (concat rs))) sess_proc rs se (se_conn se) ?w = Inr (r, k, x, c, w)"
        by (auto simp: run_task_def get_sess_def of_some_def res_inv split: option.splits)
      have t: "is_task (if On_read = On_read then Task_read else Task_write) a (?ts ! n)" using Task_read a(1) by (simp add: is_task_def)
      show ?thesis unfolding a(3)
        by (rule run_flow [OF fl True t a(2) task_read_life [OF a(4)] task_read_ends [OF a(4)]])
    next
      case Task_write
      with run obtain a se r ks bs c w where a: "t_load (?ts ! n) = Some a" "sv_conns s a = Some se"
          "s' = (put_sess a (se\<lparr>se_conn := c\<rparr>) w ?s)\<lparr>sv_sent := (sv_sent s)(a := sv_sent s a @ bs)\<rparr>"
          "atm_conn_task_write script_write (\<lambda>_. eagain) (Suc (length (conn_out (se_conn se)))) (ws, []) (se_conn se) ?w
            = Inr (r, (ks, bs), c, w)"
        by (auto simp: run_task_def get_sess_def of_some_def res_inv split: option.splits)
      have t: "is_task (if On_write = On_read then Task_read else Task_write) a (?ts ! n)" using Task_write a(1) by (simp add: is_task_def)
      have "srv_flow (put_sess a (se\<lparr>se_conn := c\<rparr>) w ?s)"
        by (rule run_flow [OF fl True t a(2) task_write_life [OF a(4)] task_write_ends [OF a(4)]])
      then show ?thesis unfolding a(3) by (rule same_flow) simp_all
    next
      case Task_free
      with run obtain l s1 where f: "atm_conn_free_func sess_busy sess_drop (w_free (sv_w ?s)) ?s = Inr (l, s1)"
          "s' = s1\<lparr>sv_w := (sv_w s1)\<lparr>w_free := l\<rparr>\<rparr>"
        by (auto simp: run_task_def res_inv)
      have ops: "w_ops (sv_w ?s) = []" using p True In_task Task_free by (simp add: polite_def Let_def)
      have cn: "on_way g b ?w = on_way g b (sv_w s)" if "g \<noteq> Task_free" for g b
        using filter_take_drop [OF True, of "is_task g b"] Task_free that by (simp add: on_way_def is_task_def)
      have sub: "set (w_tasks ?w) \<subseteq> set ?ts" using set_take_subset set_drop_subset by fastforce
      have "srv_flow ?s" using fl srv_inv_cong [of ?s s] sub cn
        by (auto simp: srv_flow_def refs_def counts_def counted_def)
      from free_flow [OF this ops f(1)] f(2) show ?thesis by simp
    qed
  qed
qed

lemma polite_run_live:
  "srv_flow s \<Longrightarrow> along (\<lambda>i s. polite i s \<and> in_ok i s) ins s \<Longrightarrow> along (\<lambda>i s. live i s \<and> in_ok i s) ins s"
proof (induction ins arbitrary: s)
  case (Cons i ins)
  then show ?case using polite_live srv_do_flow [OF Cons.prems(1)] by (auto split: sum.splits)
qed simp

lemma polite_run_flow:
  "srv_flow s \<Longrightarrow> along polite ins s \<Longrightarrow> srv_run ins s = Inr s' \<Longrightarrow> srv_flow s'"
proof (induction ins arbitrary: s)
  case (Cons i ins)
  obtain s1 where s1: "srv_do i s = Inr s1" "srv_run ins s1 = Inr s'" using Cons.prems(3) by (auto simp: res_inv)
  have p: "polite i s" "along polite ins s1" using Cons.prems(2) s1(1) by simp_all
  show ?case by (rule Cons.IH [OF srv_do_flow [OF Cons.prems(1) p(1) s1(1)] p(2) s1(2)])
qed simp

lemma srv_new_flow:
  assumes "w_tasks w = []" "w_ops w = []"
  shows "srv_flow (srv_new w)"
  using assms by (simp add: srv_flow_def srv_new_def srv_inv_def queued_def refs_def counts_def)

section \<open>Properties\<close>


text \<open>Events on the connection of the runs.\<close>

lemma at_polite:
  assumes "conn_at s act r w ts fl os" "ev_mask m AND EPOLLIN \<noteq> 0 \<longrightarrow> \<not> r" "ev_mask m AND EPOLLOUT \<noteq> 0 \<longrightarrow> \<not> w"
  shows "polite (In_events [(1, m)]) s"
  using assms by (auto simp: conn_at_def polite_def ev_polite_def)




end
