(* ===== verification/Atm_Server_Answer.thy ===== *)
theory Atm_Server_Answer
  imports Atm_Server_Flow
begin

text \<open>
  A client that sends one line and waits for the reply gets it. The six inputs of a request
  follow one line through the whole server: epoll reports that there is something to read, the
  read task serves the line, the engine registers the event for writing and for reading, epoll
  reports that the socket takes bytes, and the write task sends the reply. After them the
  connection is at rest again, so that requests can follow one another.
\<close>

definition request :: "u8 list list \<Rightarrow> nat list \<Rightarrow> srv_in list" where
  "request rs ks = [In_events [(1, EPOLLIN)], In_task 0 rs [] True, In_op, In_op, In_events [(1, EPOLLOUT)],
     In_task 0 [] ks True]"

text \<open>The connection is at rest, and everything it had to say is sent.\<close>

definition at_rest :: "srv \<Rightarrow> table \<Rightarrow> bool" where
  "at_rest s t \<longleftrightarrow> srv_inv s \<and> srv_data s \<and> srv_abs s t \<and> conn_at s True False False [] [] [] \<and> sv_sent s 0 = snd t 0"

section \<open>The read task\<close>

lemma script_all: "[] \<notin> set rs \<Longrightarrow> script_pend rs = concat rs"
  by (induction rs) (auto simp: script_pend_simps)

lemma at_read_line:
  assumes at: "conn_at s True True False [task_R] fl []" and p: "script_pend rs \<noteq> []"
    and ln: "has_line (script_pend rs)" "after_line (script_pend rs) = []" "length (script_pend rs) < 2 ^ 31 - 1"
    and run: "runnable (line_words (script_pend rs)) (sv_w s)"
  shows "\<exists>s'. srv_do (In_task 0 rs [] ea) s = Inr s' \<and> conn_at s' True False False [] fl [1, 1]"
proof -
  from at obtain se e where a: "sv_conns s 0 = Some se" "sv_evs s 1 = Some 0" "sess_ready se (sv_w s)" "c_addr (se_conn se) = 0"
      "conn_in (se_conn se) = []" "c_event (se_conn se) = Some e" "ev_handle_read e" "ev_handle_write e" "ev_fd e \<noteq> -1"
      "ev_active e" "\<not> c_on_write (se_conn se)" "w_tasks (sv_w s) = [task_R]" "wf_list (w_free (sv_w s))" "list_vals (w_free (sv_w s)) = fl"
      "ev_addr e = 1" "w_ops (sv_w s) = []"
    by (auto simp: conn_at_def adds_def)
  let ?w = "(sv_w s)\<lparr>w_tasks := []\<rparr>" and ?inp = "script_pend rs"
  have rd: "sess_ready se ?w" using a(3) by (simp add: ready_defs)
  have inp: "?inp = conn_in (se_conn se) @ script_pend rs" using a(5) by simp
  have "runnable (line_words ?inp) ?w" using run by (simp add: runnable_def cache_room_def split: list.splits)
  then have run1: "has_line ?inp \<longrightarrow> runnable (line_words ?inp) ?w" by blast
  from task_read_serves [where s = rs and rd = script_read and eagain = "\<lambda>_. ea", OF rd a(6,10) script_source p script_fuel inp ln(3) run1]
  obtain rs' se' c' w' where t: "atm_conn_task_read script_read (\<lambda>_. ea) (Suc (length (concat rs))) sess_proc rs se (se_conn se) ?w
        = Inr (ATM_OK, rs', se', c', w')" "sess_ready (se'\<lparr>se_conn := c'\<rparr>) w'" "input_served se ?w c' w' ?inp" "c_event c' = Some e"
      "\<not> c_on_read c'" "c_on_write c' = c_on_write (se_conn se)" "c_addr c' = c_addr (se_conn se)" "w_tasks w' = w_tasks ?w" "w_free w' = w_free ?w"
      "w_ops w' = w_ops ?w @ (if has_line ?inp \<and> \<not> c_on_write (se_conn se) then [notify_op e ATM_EVENT_WRITE] else [])
        @ [notify_op e ATM_EVENT_READ]"
    by (elim exE conjE) (rule that)
  have "conn_in c' = []" using t(3) ln(1,2) by (simp add: input_served_def)
  moreover have "srv_do (In_task 0 rs [] ea) s = Inr (put_sess 0 (se'\<lparr>se_conn := c'\<rparr>) w' (s\<lparr>sv_w := ?w\<rparr>))"
    using a(1,12) t(1) by (simp add: run_task_def atm_task_new_def get_sess_def Let_def)
  ultimately show ?thesis using a t(2,4-10) ln(1)
    by (auto simp: conn_at_def put_sess_def adds_def notify_op_def atm_event_op_new_def)
qed

section \<open>The write task\<close>

definition script_takes :: "nat list \<times> u8 list \<Rightarrow> nat \<Rightarrow> bool" where
  "script_takes s n \<longleftrightarrow> n \<le> length (fst s) \<and> (\<forall>k \<in> set (fst s). 0 < k)"

lemma script_eager: "sock_eager script_write script_takes"
  unfolding sock_eager_def
proof (intro allI impI)
  fix s n and bs :: "u8 list"
  assume h: "script_takes s n" "bs \<noteq> []" "length bs \<le> n"
  obtain ks out where s: "s = (ks, out)" by (cases s)
  show "case script_write s bs of (ret, s') \<Rightarrow> 0 < ret \<and> script_takes s' (n - nat ret)"
  proof (cases ks)
    case Nil
    then show ?thesis using h by (simp add: s script_takes_def)
  next
    case (Cons k ks')
    have "1 \<le> min (length bs) k" using h(1,2) Cons by (cases bs) (auto simp: s script_takes_def)
    then show ?thesis using h(1,2) Cons by (auto simp: s script_takes_def)
  qed
qed

lemma at_write_all:
  assumes at: "conn_at s True r True [task_W] fl os" and se: "sv_conns s 0 = Some se"
    and out: "conn_out (se_conn se) \<noteq> []" "length (conn_out (se_conn se)) \<le> length ks" "\<forall>k \<in> set ks. 0 < k"
  shows "\<exists>s' se'. srv_do (In_task 0 [] ks ea) s = Inr s' \<and> conn_at s' True r False [] fl os
    \<and> sv_conns s' 0 = Some se' \<and> conn_out (se_conn se') = []"
proof -
  from at se obtain e where a: "sv_evs s 1 = Some 0" "sess_ready se (sv_w s)" "c_addr (se_conn se) = 0"
      "conn_in (se_conn se) = []" "c_event (se_conn se) = Some e" "ev_handle_read e" "ev_handle_write e" "ev_fd e \<noteq> -1"
      "ev_active e" "c_on_read (se_conn se) = r" "w_tasks (sv_w s) = [task_W]" "wf_list (w_free (sv_w s))" "list_vals (w_free (sv_w s)) = fl"
      "ev_addr e = 1" "adds (w_ops (sv_w s)) = map Some os"
    by (auto simp: conn_at_def)
  let ?w = "(sv_w s)\<lparr>w_tasks := []\<rparr>" and ?c = "se_conn se" and ?fuel = "Suc (length (conn_out (se_conn se)))"
  have wf: "wf_conn ?c ?w" using a(2) by (simp add: ready_defs)
  from task_write_raw_ok [where good = script_takes and s = "(ks, [])", OF wf script_sink lessI]
  obtain k q s1 c1 w1 where raw: "atm_conn_task_write_raw script_write ?fuel (ks, []) ?c ?w = Inr (q, s1, c1, w1)" "wf_conn c1 w1"
      "conn_out c1 = drop k (conn_out ?c)" "conn_in c1 = conn_in ?c" "c_write_reqs c1 = c_write_reqs ?c"
      "conn_rest c1 = conn_rest ?c" "world_rest w1 = world_rest ?w" "w_ops w1 = w_ops ?w" "0 < k \<longrightarrow> q = int k"
      "sock_eager script_write script_takes \<and> script_takes (ks, []) (length (conn_out ?c)) \<longrightarrow> k = length (conn_out ?c)"
    by (elim exE conjE) (rule that)
  have k: "k = length (conn_out ?c)" using raw(10) script_eager out(2,3) by (simp add: script_takes_def)
  note cr = conn_restD [OF raw(6)] and wr = world_restD [OF raw(7)] and ar = app_restD [OF raw(7)]
  have q: "0 < q" using raw(9) k out(1) by simp
  let ?c' = "c1\<lparr>c_on_write := False\<rparr>"
  have "atm_conn_task_write script_write (\<lambda>_. ea) ?fuel (ks, []) ?c ?w = Inr (ATM_OK, s1, ?c', w1)"
    using raw(1,5) q a(5,9) cr
    by (simp add: atm_conn_task_write_def conn_event_def atm_conn_yield_write_def atm_conn_free_check_def clear_flag_def Let_def)
  then obtain bs where "srv_do (In_task 0 [] ks ea) s
      = Inr ((put_sess 0 (se\<lparr>se_conn := ?c'\<rparr>) w1 (s\<lparr>sv_w := ?w\<rparr>))\<lparr>sv_sent := (sv_sent s)(0 := sv_sent s 0 @ bs)\<rparr>)"
    using se a(11) by (cases s1) (simp add: run_task_def atm_task_new_def get_sess_def Let_def)
  moreover have "sess_ready (se\<lparr>se_conn := ?c'\<rparr>) w1"
    using a(2,5) raw(2) cr app_cong [OF ar] by (simp add: ready_defs)
  moreover have "conn_out ?c' = []" "conn_in ?c' = []" using raw(3,4) k a(4) by (simp_all add: conn_out_def conn_in_def)
  ultimately show ?thesis using a cr wr raw(8) by (auto simp: conn_at_def put_sess_def)
qed

section \<open>A request\<close>

lemma at_live:
  assumes at: "conn_at s act r w ts fl os"
  shows "live (In_events [(1, m)]) s" "os = 1 # os' \<Longrightarrow> live In_op s" "ts = t # ts' \<Longrightarrow> t_load t = Some 0 \<Longrightarrow> live (In_task 0 rs ks ea) s"
  using at by (auto simp: conn_at_def live_def Let_def adds_def split: if_splits list.splits)

lemma no_input:
  "srv_input (In_events es) s = None" "srv_input In_op s = None" "srv_input (In_accept cs) s = None"
  "conn_at s act r w (task_W # ts) fl os \<Longrightarrow> srv_input (In_task 0 rs ks ea) s = None"
  by (auto simp: srv_input_def conn_at_def atm_task_new_def)

lemma quiet_ok: "srv_input i s = None \<Longrightarrow> in_ok i s \<and> srv_served i s = []"
  by (simp add: in_ok_def srv_served_def)

lemma at_input:
  assumes at: "conn_at s True r w (task_R # ts) fl os" and p: "script_pend rs \<noteq> []"
  shows "srv_input (In_task 0 rs ks ea) s = Some (0, script_pend rs)"
  using assms by (auto simp: conn_at_def srv_input_def task_input_def atm_task_new_def)

text \<open>Only write tasks send.\<close>

lemma with_conn_sent: "with_conn f a s = Inr s' \<Longrightarrow> sv_sent s' = sv_sent s"
  by (auto simp: with_conn_def put_sess_def res_inv)

lemma event_sent: "srv_do (In_events [x]) s = Inr s' \<Longrightarrow> sv_sent s' = sv_sent s"
  by (cases x) (auto simp: atm_event_routine_def atm_event_process_events_def atm_event_process_ev_def Let_def res_inv
      srv_handle_read_def srv_handle_write_def split: if_splits dest!: with_conn_sent)

lemma op_sent: "srv_do In_op s = Inr s' \<Longrightarrow> sv_sent s' = sv_sent s"
  by (auto simp: srv_op_def atm_event_notify_handle_def res_inv split: list.splits if_splits dest!: with_conn_sent)

lemma read_sent:
  assumes "conn_at s act r w (task_R # ts) fl os" "srv_do (In_task 0 rs ks ea) s = Inr s'"
  shows "sv_sent s' = sv_sent s"
  using assms by (auto simp: conn_at_def run_task_def atm_task_new_def put_sess_def res_inv Let_def)

text \<open>
  A line of words, in pieces that are not empty; the socket takes something in each of enough
  calls of \<^verbatim>\<open>write\<close>.
\<close>

definition request_ok :: "char list list \<Rightarrow> u8 list list \<Rightarrow> nat list \<Rightarrow> table \<Rightarrow> bool" where
  "request_ok ws rs ks t \<longleftrightarrow> (\<forall>x \<in> set ws. split_word CHR '' '' x \<and> (\<forall>c \<in> set x. line_char c))
     \<and> concat rs = bytes_of (join [CHR '' ''] ws) @ [10] \<and> [] \<notin> set rs \<and> length (concat rs) < 2 ^ 31 - 1
     \<and> length (snd (cmd_spec ws (fst t))) < length ks \<and> (\<forall>k \<in> set ks. 0 < k)"

lemma request_answered:
  assumes rest: "at_rest s t" and ok: "request_ok ws rs ks t" and run: "runnable ws (sv_w s)"
  shows "\<exists>s'. srv_run (request rs ks) s = Inr s' \<and> at_rest s' (table_serve (0, ws) t)"
proof -
  let ?t = "table_serve (0, ws) t"
  have i: "srv_inv s" "srv_data s" "srv_abs s t" "conn_at s True False False [] [] []" "sv_sent s 0 = snd t 0"
    using rest by (simp_all add: at_rest_def)
  have w: "\<forall>x \<in> set ws. split_word CHR '' '' x \<and> (\<forall>c \<in> set x. line_char c)" and pd: "script_pend rs = bytes_of (join [CHR '' ''] ws) @ 10 # []"
    using ok script_all [of rs] by (auto simp: request_ok_def)
  have "script_pend rs = concat rs" using ok script_all by (simp add: request_ok_def)
  moreover have "length (concat rs) < 2 ^ 31 - 1" using ok [unfolded request_ok_def] by blast
  ultimately have len: "length (script_pend rs) < 2 ^ 31 - 1" by metis
  have ln: "has_line (script_pend rs)" "after_line (script_pend rs) = []" "line_words (script_pend rs) = ws" "script_pend rs \<noteq> []"
    using first_line [where rest = "[]", OF command_line(2) [OF w]] command_line(1) [OF w] unfolding pd line_words_def by simp_all
  obtain s1 where s1: "srv_do (In_events [(1, EPOLLIN)]) s = Inr s1" "conn_at s1 True True False [task_R] [] []"
      "w_cache (sv_w s1) = w_cache (sv_w s)" "w_seed (sv_w s1) = w_seed (sv_w s)"
    using at_in [OF i(4)] by auto
  have r1: "runnable ws (sv_w s1)" using run s1(3,4) by (simp add: runnable_def cache_room_def split: list.splits)
  then have "runnable (line_words (script_pend rs)) (sv_w s1)" by (simp add: ln(3))
  from at_read_line [OF s1(2) ln(4,1,2) len this] obtain s2 where s2: "srv_do (In_task 0 rs [] True) s1 = Inr s2"
      "conn_at s2 True False False [] [] [1, 1]" by blast
  obtain s3 where s3: "srv_do In_op s2 = Inr s3" "conn_at s3 True False False [] [] [1]" using at_op [OF s2(2)] by blast
  obtain s4 where s4: "srv_do In_op s3 = Inr s4" "conn_at s4 True False False [] [] []" using at_op [OF s3(2)] by blast
  obtain s5 where s5: "srv_do (In_events [(1, EPOLLOUT)]) s4 = Inr s5" "conn_at s5 True False True [task_W] [] []"
    using at_out [OF s4(2)] by auto
  let ?ins = "[In_events [(1, EPOLLIN)], In_task 0 rs [] True, In_op, In_op, In_events [(1, EPOLLOUT)]]"
  have sv: "srv_served (In_task 0 rs [] True) s1 = [(0, ws)]" and ok1: "in_ok (In_task 0 rs [] True) s1"
    using at_input [OF s1(2) ln(4), of "[]" True] ln(1,3) len r1 by (simp_all add: srv_served_def in_ok_def)
  note qt = quiet_ok [OF no_input(1)] quiet_ok [OF no_input(2)]
  have lv: "live (In_events [(1, EPOLLIN)]) s" "live (In_task 0 rs [] True) s1" "live In_op s2" "live In_op s3"
      "live (In_events [(1, EPOLLOUT)]) s4"
    using at_live(1) [OF i(4)] at_live(3) [OF s1(2) refl] at_live(2) [OF s2(2) refl] at_live(2) [OF s3(2) refl] at_live(1) [OF s4(2)]
    by (simp_all add: atm_task_new_def)
  have al: "along (\<lambda>i s. live i s \<and> in_ok i s) ?ins s"
    unfolding along.simps s1(1) s2(1) s3(1) s4(1) s5(1) sum.case using lv ok1 qt by blast
  have rv: "run_served ?ins s = [(0, ws)]"
    unfolding run_served.simps s1(1) s2(1) s3(1) s4(1) s5(1) sum.case using sv qt by simp
  have rn: "srv_run ?ins s = Inr s5"
    by (simp only: srv_run.simps s1(1) s2(1) s3(1) s4(1) s5(1) res_bind_simps)
  have five: "srv_inv s5" "srv_data s5" "srv_abs s5 ?t"
    using srv_run_data [OF i(1,2) al] i(3) unfolding rn rv by (auto simp del: split_paired_All)
  obtain se where se: "sv_conns s5 0 = Some se" using s5(2) by (auto simp: conn_at_def)
  obtain m r where mr: "cmd_spec ws (fst t) = (m, r)" by (cases "cmd_spec ws (fst t)")
  have o: "snd ?t 0 = sv_sent s 0 @ bytes_of (r @ [NL])" using mr i(5) by (cases t) (simp add: table_serve_def)
  have sent: "sv_sent s5 0 = sv_sent s 0"
    using event_sent [OF s1(1)] read_sent [OF s1(2) s2(1)] op_sent [OF s3(1)] op_sent [OF s4(1)] event_sent [OF s5(1)] by simp
  have out: "conn_out (se_conn se) = bytes_of (r @ [NL])" using five(3) se o sent by (simp add: srv_abs_def)
  have "length (conn_out (se_conn se)) \<le> length ks" "\<forall>k \<in> set ks. 0 < k" "conn_out (se_conn se) \<noteq> []"
    using ok mr by (simp_all add: out request_ok_def bytes_of_def)
  then obtain s6 se' where s6: "srv_do (In_task 0 [] ks True) s5 = Inr s6" "conn_at s6 True False False [] [] []"
      "sv_conns s6 0 = Some se'" "conn_out (se_conn se') = []"
    using at_write_all [OF s5(2) se] by blast
  have "live (In_task 0 [] ks True) s5" using at_live(3) [OF s5(2) refl] by (simp add: atm_task_new_def)
  from srv_do_data [OF five(1,2) this] quiet_ok [OF no_input(4) [OF s5(2)]] s6(1) five(3)
  have six: "srv_data s6" "srv_abs s6 ?t" by (auto simp del: split_paired_All)
  have "sv_sent s6 0 = snd ?t 0" using six(2) s6(3,4) by (simp add: srv_abs_def)
  moreover have "srv_run (request rs ks) s = Inr s6"
    by (simp only: request_def srv_run.simps s1(1) s2(1) s3(1) s4(1) s5(1) s6(1) res_bind_simps)
  ultimately show ?thesis using srv_do_inv [OF five(1) s6(1)] six s6(2) by (auto simp: at_rest_def)
qed


section \<open>Requests after one another\<close>

fun session :: "(char list list \<times> u8 list list \<times> nat list) list \<Rightarrow> srv \<Rightarrow> table \<Rightarrow> bool" where
  "session [] s t = True"
| "session ((ws, rs, ks) # qs) s t \<longleftrightarrow> request_ok ws rs ks t \<and> runnable ws (sv_w s)
     \<and> (case srv_run (request rs ks) s of Inl _ \<Rightarrow> True | Inr s' \<Rightarrow> session qs s' (table_serve (0, ws) t))"

definition session_inputs :: "(char list list \<times> u8 list list \<times> nat list) list \<Rightarrow> srv_in list" where
  "session_inputs qs = concat (map (\<lambda>(ws, rs, ks). request rs ks) qs)"

definition session_lines :: "(char list list \<times> u8 list list \<times> nat list) list \<Rightarrow> (addr \<times> char list list) list" where
  "session_lines qs = map (\<lambda>(ws, rs, ks). (0, ws)) qs"

lemma session_answered:
  "at_rest s t \<Longrightarrow> session qs s t \<Longrightarrow>
   \<exists>s'. srv_run (session_inputs qs) s = Inr s' \<and> at_rest s' (fold table_serve (session_lines qs) t)"
proof (induction qs arbitrary: s t)
  case Nil
  then show ?case by (simp add: session_inputs_def session_lines_def)
next
  case (Cons q qs)
  obtain ws rs ks where q: "q = (ws, rs, ks)" by (cases q)
  have h: "request_ok ws rs ks t" "runnable ws (sv_w s)" using Cons.prems(2) by (simp_all add: q)
  obtain s1 where s1: "srv_run (request rs ks) s = Inr s1" "at_rest s1 (table_serve (0, ws) t)"
    using request_answered [OF Cons.prems(1) h] by blast
  have "session qs s1 (table_serve (0, ws) t)" using Cons.prems(2) s1(1) by (simp add: q)
  from Cons.IH [OF s1(2) this] s1(1) show ?case
    by (auto simp: q session_inputs_def session_lines_def srv_run_append)
qed

lemma accepted_at_rest:
  assumes w: "cmds_ok w" "cache_ok w" "wf_pool (w_pool w)" "cache_abs w = Map.empty" "w_tasks w = []" "w_ops w = []"
    and fd: "so_fd cs \<noteq> -1"
  shows "at_rest (add_conn cs (srv_new w)) table_new"
proof -
  note n = srv_new_ok [OF w(1-4)]
  have "sv_sent (add_conn cs (srv_new w)) 0 = []" by (simp add: add_conn_def srv_new_def Let_def split: prod.split)
  then show ?thesis unfolding at_rest_def
    using add_conn_inv [OF n(1)] add_conn_data [OF n(2)] n(3) new_conn_at [OF w(1-3,5,6) fd] by (simp add: table_new_def)
qed

section \<open>Properties\<close>



end
