(* ===== verification/Spec2Isabelle.thy ===== *)
theory Spec2Isabelle
  imports Atm_Util Atm_Siphash Atm_List Atm_Str Atm_Str_Words Atm_Arr Atm_Blk Atm_Buf Atm_Obj
    Atm_Dict_Props Atm_Queue Atm_Event Atm_Pipe Atm_Conn_Props Atm_Sess_Props Atm_Server_Runs
    Atm_Task_Props Atm_File Atm_Time Atm_Log Atm_Config_Start Atm_Net Atm_Client Atm_Sig Atm_Main
    Atm_Request Atm_Server_Flow Atm_Server_Answer
begin

text \<open>
  A verification library for atm-cache, an in-memory key-value server in C. The code is in
  \<^verbatim>\<open>src/core\<close> (the server) and \<^verbatim>\<open>src/os/unix\<close> (what it needs of the system), both relative to
  \<^verbatim>\<open>src/\<close> of the repository.

  \<^bold>\<open>The program.\<close> \<^verbatim>\<open>main\<close> (\<^verbatim>\<open>atm_server.c\<close>) reads the configuration, opens the logs, initialises
  the components and enters an endless loop: it waits for events of epoll (\<^verbatim>\<open>atm_event.c\<close>) and
  then calls the routines in the background (\<^verbatim>\<open>atm_ctx.c\<close>). A listening socket accepts
  connections (\<^verbatim>\<open>atm_conn.c\<close>, \<^verbatim>\<open>atm_net.c\<close>); an event on a connection is turned into a task that
  goes through a pipe (\<^verbatim>\<open>atm_pipe.c\<close>) and a queue (\<^verbatim>\<open>atm_queue.c\<close>) to one of the worker threads
  (\<^verbatim>\<open>atm_task.c\<close>). A read task fills the buffer of the connection (\<^verbatim>\<open>atm_buf.c\<close> over the blocks
  of \<^verbatim>\<open>atm_blk.c\<close>) and runs its session (\<^verbatim>\<open>atm_sess.c\<close>): a state machine that takes a line, splits
  it into words (\<^verbatim>\<open>atm_str.c\<close>), looks up the command (\<^verbatim>\<open>atm_cmd.c\<close>) and runs it on the cache, a
  dictionary with incremental rehashing (\<^verbatim>\<open>atm_dict.c\<close>, \<^verbatim>\<open>atm_siphash.c\<close>) from string objects to
  string objects (\<^verbatim>\<open>atm_obj.c\<close>). The reply goes to the second buffer, and a write task sends it.
  A deactivated connection waits in a list until the free task finds it idle. The containers
  are built on a doubly linked list (\<^verbatim>\<open>atm_list.c\<close>) and a growable array (\<^verbatim>\<open>atm_arr.c\<close>).

  \<^bold>\<open>How the code is modelled.\<close>
  \<^item> A function that can fail returns a value of \<^verbatim>\<open>res\<close>, a fault or a result. The faults are the
    ways in which a C function ends without one: a call of \<^verbatim>\<open>exit\<close>, an access through NULL or
    outside an allocated object, a division by zero, a signed overflow, a jump through a data
    pointer, a loop that does not return.
  \<^item> Integers are words of their width where they wrap, \<^verbatim>\<open>int\<close> with the overflow as a fault where
    it is undefined, and \<^verbatim>\<open>nat\<close> for indices whose bound is part of the invariant.
  \<^item> Structures are records with the fields of the code. A pointer that may be NULL is an
    option; one that is set at creation and never cleared is the object. The nodes of a list
    are in a heap of their own, with addresses that are not used again, so that an access to a
    freed node is a fault. Strings and arrays are the bytes of their allocation.
  \<^item> A \<^verbatim>\<open>char *\<close> that is passed to the C library is the text before its terminator.
  \<^item> \<^verbatim>\<open>atm_alloc\<close> does not fail and zeroes what it returns. A section under a mutex is one step.
  \<^item> System calls are parameters: functions on a state of the kernel, with what their manual
    pages promise as named hypotheses (\<^verbatim>\<open>sock_source\<close>, \<^verbatim>\<open>sock_drains\<close>, \<^verbatim>\<open>sock_sink\<close>, \<^verbatim>\<open>pipe_kernel\<close>, \<^verbatim>\<open>net_kernel\<close>).
    What \<^verbatim>\<open>epoll_ctl\<close> is called with is an output.
  \<^item> Calls of the log are left out everywhere except in \<^verbatim>\<open>Atm_Log\<close>, which models the log itself.
\<close>

text \<open>
  \<^bold>\<open>The theories\<close>, each on those before it.
  \<^item> \<^verbatim>\<open>Atm_Prelude\<close>: machine integers, the faults and their monad, reading and writing memory, the
    functions of \<^verbatim>\<open>string.h\<close> and \<^verbatim>\<open>ctype.h\<close> that are used, lemmas on lists and words.
    \<^verbatim>\<open>Atm_Core\<close>: the constants and the table of operations of a type (\<^verbatim>\<open>atm_T_t\<close>), with the locale
    \<^verbatim>\<open>key_type\<close>: what a container relies on when it compares and hashes its keys.
  \<^item> \<^verbatim>\<open>Atm_Util\<close>, \<^verbatim>\<open>Atm_Siphash\<close>: pure functions. The hash is the published SipHash with one and two
    rounds; the loop for the table size ends up to \<^verbatim>\<open>2^31\<close> only.
  \<^item> \<^verbatim>\<open>Atm_List\<close>: all operations on linked nodes, the representation predicate, and the refinement
    of lists of values; the locale \<^verbatim>\<open>deque\<close> is the contract its clients use. \<^verbatim>\<open>Atm_Arr\<close>: the array.
    \<^verbatim>\<open>Atm_Queue\<close>: the queue, with producers and consumers as a step relation.
  \<^item> \<^verbatim>\<open>Atm_Str\<close>, \<^verbatim>\<open>Atm_Str_Words\<close>: strings with a header, their comparison, growth, trimming and
    splitting into words; the second holds what the components say of whole texts. \<^verbatim>\<open>Atm_Obj\<close>:
    boxed strings, which are keys (interpretations of \<^verbatim>\<open>key_type\<close> and \<^verbatim>\<open>kv_store\<close>).
  \<^item> \<^verbatim>\<open>Atm_Blk\<close>, \<^verbatim>\<open>Atm_Buf\<close>: the pool of blocks and the buffer as a stream of bytes; the locale
    \<^verbatim>\<open>byte_stream\<close> is its contract.
  \<^item> \<^verbatim>\<open>Atm_Dict\<close> (the code), \<^verbatim>\<open>Atm_Dict_Table\<close> (the invariant of a table), \<^verbatim>\<open>Atm_Dict_Rehash\<close> (the
    invariant while entries move), \<^verbatim>\<open>Atm_Dict_Ops\<close> (each operation on the abstract map, and the
    locale \<^verbatim>\<open>kv_store\<close>), \<^verbatim>\<open>Atm_Dict_Props\<close>. The invariant includes a running rehash: an entry is
    in exactly one of the two tables, and the counters agree with what the tables hold.
  \<^item> \<^verbatim>\<open>Atm_Event\<close>, \<^verbatim>\<open>Atm_Pipe\<close>: events and the calls of \<^verbatim>\<open>epoll_ctl\<close>; the pipe that wakes the main
    thread, with notifying threads as a step relation.
  \<^item> \<^verbatim>\<open>Atm_Conn\<close>, \<^verbatim>\<open>Atm_Conn_Props\<close>: one connection and its tasks. \<^verbatim>\<open>Atm_Cmd\<close>, \<^verbatim>\<open>Atm_Cmd_Lemmas\<close>,
    \<^verbatim>\<open>Atm_Sess\<close>, \<^verbatim>\<open>Atm_Sess_Props\<close>: commands and the state machine, which refine \<^verbatim>\<open>cmd_spec\<close> on maps
    of texts.
  \<^item> \<^verbatim>\<open>Atm_Server\<close>, \<^verbatim>\<open>Atm_Server_Props\<close>, \<^verbatim>\<open>Atm_Server_Runs\<close>: all connections together. An input
    is something that happens: connections are accepted, epoll reports events, an operation is
    taken out of the pipe, a task is run; tasks run in any order, as they do with several
    workers. Reachability is the closure of \<^verbatim>\<open>srv_step\<close>; \<^verbatim>\<open>srv_inv\<close> is the invariant.
    \<^verbatim>\<open>Atm_Request\<close> composes the read task with the session: from the socket to the reply.
    \<^verbatim>\<open>Atm_Server_Runs\<close> has the runs that end in freed memory.
  \<^item> \<^verbatim>\<open>Atm_Task\<close>, \<^verbatim>\<open>Atm_Task_Props\<close>: how tasks are dealt to the workers, what a worker does, and
    the routines in the background (\<^verbatim>\<open>atm_ctx.c\<close>).
  \<^item> \<^verbatim>\<open>Atm_File\<close>, \<^verbatim>\<open>Atm_Time\<close>, \<^verbatim>\<open>Atm_Log\<close>, \<^verbatim>\<open>Atm_Net\<close>, \<^verbatim>\<open>Atm_Sig\<close>: the system. \<^verbatim>\<open>Atm_Config\<close>,
    \<^verbatim>\<open>Atm_Config_Props\<close>, \<^verbatim>\<open>Atm_Config_Start\<close>: the configuration; its parser refines a
    specification on texts. \<^verbatim>\<open>Atm_Client\<close>: the client.
  \<^item> \<^verbatim>\<open>Atm_Main\<close>: the start and the loop, composed of the models above. The start establishes the
    invariants of the cache, the commands, the sessions, the workers and the server.
  \<^item> \<^verbatim>\<open>Atm_Server_Safe\<close>, \<^verbatim>\<open>Atm_Server_Flow\<close>: the whole server refines a table of keys and values with
    a stream of replies for each connection (\<^verbatim>\<open>table_serve\<close>, \<^verbatim>\<open>srv_abs\<close>). The first shows it for every
    input that refers to nothing freed; the second gives two conditions on the order of events
    and tasks under which nothing freed is ever referred to (\<^verbatim>\<open>polite\<close>).
  \<^item> \<^verbatim>\<open>Atm_Server_Answer\<close>: one line followed through epoll, the read task, the engine and the
    write task, and requests after one another.

  \<^bold>\<open>Fuel and bounds.\<close> A loop over a heap or over the kernel has a counter and ends in \<^verbatim>\<open>No_return\<close>
  when it is spent; for each there is a theorem that gives a number that is enough: the length
  of the list plus one for the loops over a list, one more than the list has ever had nodes for
  the free task, five rounds for the state machine of a session (it passes each state at most
  once), one more than the bytes that are pending or waiting for the loops over a socket. Texts are at most
  \<^verbatim>\<open>2^31\<close> bytes and tables at most \<^verbatim>\<open>2^27\<close> entries, so that the 32-bit sizes do not wrap.
\<close>

text \<open>
  \<^bold>\<open>What is shown.\<close> From the start on, and for every order of the tasks and every way in which
  the bytes arrive, the server does what a table of keys and values does with the lines it has
  served, one after the other, and clients get nothing but the replies, in order; this as long
  as epoll reports no event for a direction whose task is on its way and the free task finds
  the pipe of the engine empty. The code ensures neither, and for each of the two there is a
  run that uses freed memory. A client that sends its lines one at a time has got the complete
  reply to each line before the next. For the parts: the session refines the command specification and what is set is what is
  got; the dictionary is a map through all rehashes; the list of connections to be freed holds
  exactly the inactive ones, each once; no wake-up is lost; bytes pass the buffers and the
  sockets in order; tasks are dealt in turn; the parser accepts what its specification accepts,
  and what it accepts is in range; no descriptor leaks while listening and connecting. Where the
  code does not do what it means to, the theorem states what it does: a connection that is used
  after it was freed, a stored value that is not read while a rehash runs, an append that
  overruns its string, a configuration that is freed before it is used, a service that ends in
  its 10000th round. The theorems about later parts hold for the states these parts are given,
  whether or not the program gets there: as it is written it ends while it looks for its
  configuration.

  \<^bold>\<open>Not modelled.\<close> The vendored allocator jemalloc (\<^verbatim>\<open>src/deps\<close>) and the operating system are
  behind the interfaces above. The formatting of \<^verbatim>\<open>printf\<close> and of the clock is a parameter.
  Functions that print addresses (\<^verbatim>\<open>atm_list_str\<close> and the like), the unit tests, the experiments
  under \<^verbatim>\<open>src/misc\<close>, the extension for Python and the empty parser are not part of the server.
  Memory is sequentially consistent: data races on the flags of a connection that are read
  outside their mutex are not modelled beyond the interleaving of whole tasks and handlers.
\<close>

end
